(* ===== verification/Trx_Prelude.thy ===== *)
theory Trx_Prelude imports Main "HOL-Library.Word"
begin

text \<open>
  Shared vocabulary of the development: the machine integers of the C sources (the tracker is
  modelled for the ILP32 ABI of \<^verbatim>\<open>__i386\<close>, where \<^verbatim>\<open>addr_t\<close>, \<^verbatim>\<open>size_t\<close> and \<^verbatim>\<open>uint32_t\<close> are
  32 bits wide), the faults a run of the C code can end in, the sequencing of fallible
  operations, and the C string functions the sources call.
\<close>

unbundle bit_operations_syntax

type_synonym u8 = "8 word"
type_synonym u32 = "32 word"

text \<open>Collections that the component proofs pass to \<open>simp\<close>.\<close>

named_theorems layout_simps "unfolding of structure layouts and header geometry"
named_theorems frame_simps "what an update leaves unchanged"

section \<open>Faults and sequencing\<close>

text \<open>
  How a run of the C code can go wrong. The three \<open>Core\<close> faults are the deliberate
  \<^verbatim>\<open>COREDUMP\<close>s of \<^verbatim>\<open>verify()\<close>, with the diagnosis it logs first; \<open>OutOfBounds\<close> is an access
  outside an array, \<open>DeadPointer\<close> the use of a pointer that is null, freed or never set,
  \<open>Indeterminate\<close> the use of a value that was never set, \<open>Exit\<close> a \<^verbatim>\<open>trxdbg(..., die=1, ...)\<close>, and
  \<open>Blocked\<close> a call that waits for ever.
\<close>

datatype fault =
    CoreDoubleFree
  | CoreInvalidPointer
  | CoreOverflow
  | OutOfBounds
  | DeadPointer
  | Indeterminate
  | Exit
  | Blocked

definition bindE :: "'e + 'a \<Rightarrow> ('a \<Rightarrow> 'e + 'b) \<Rightarrow> 'e + 'b" where
  "bindE x f = (case x of Inl e \<Rightarrow> Inl e | Inr a \<Rightarrow> f a)"

lemma bindE_simps [simp]:
  "bindE (Inl e) f = Inl e"
  "bindE (Inr a) f = f a"
  by (simp_all add: bindE_def)

lemma bindE_Inr_iff: "bindE x f = Inr b \<longleftrightarrow> (\<exists>a. x = Inr a \<and> f a = Inr b)"
  by (cases x) auto

lemma bindE_InrE [elim!]:
  assumes "bindE x f = Inr b"
  obtains a where "x = Inr a" and "f a = Inr b"
  using assms by (auto simp: bindE_Inr_iff)

text \<open>Two state transformers in sequence, and one for each element of a list.\<close>

definition thenE :: "('s \<Rightarrow> 'e + 's) \<Rightarrow> ('s \<Rightarrow> 'e + 's) \<Rightarrow> 's \<Rightarrow> 'e + 's" where
  "thenE f g s = bindE (f s) g"

fun eachE :: "('a \<Rightarrow> 's \<Rightarrow> 'e + 's) \<Rightarrow> 'a list \<Rightarrow> 's \<Rightarrow> 'e + 's" where
  "eachE f [] s = Inr s"
| "eachE f (x # xs) s = bindE (f x s) (eachE f xs)"

lemma thenE_Inr_iff: "thenE f g s = Inr s' \<longleftrightarrow> (\<exists>s1. f s = Inr s1 \<and> g s1 = Inr s')"
  by (simp add: thenE_def bindE_Inr_iff)

text \<open>A relation between states that a transformer keeps, whenever it ends without fault.\<close>

definition keeps :: "('s \<Rightarrow> 's \<Rightarrow> bool) \<Rightarrow> ('s \<Rightarrow> 'e + 's) \<Rightarrow> bool" where
  "keeps R f \<longleftrightarrow> (\<forall>s s'. f s = Inr s' \<longrightarrow> R s s')"

named_theorems keeps_intro "what transformers built from others keep"

lemma keepsI: "(\<And>s s'. f s = Inr s' \<Longrightarrow> R s s') \<Longrightarrow> keeps R f"
  by (simp add: keeps_def)

lemma keepsD: "keeps R f \<Longrightarrow> f s = Inr s' \<Longrightarrow> R s s'"
  by (simp add: keeps_def)

lemma keeps_thenE [keeps_intro]: "transp R \<Longrightarrow> keeps R f \<Longrightarrow> keeps R g \<Longrightarrow> keeps R (thenE f g)"
  unfolding keeps_def thenE_Inr_iff by (blast dest: transpD)

lemma keeps_eachE:
  assumes "transp R" and "reflp R" and "\<And>x. x \<in> set xs \<Longrightarrow> keeps R (f x)"
  shows "keeps R (eachE f xs)"
  using assms(3)
proof (induction xs)
  case Nil
  then show ?case using assms(2) by (simp add: keeps_def reflpD)
next
  case (Cons x xs)
  show ?case
  proof (rule keepsI)
    fix s s' assume "eachE f (x # xs) s = Inr s'"
    then obtain s1 where "f x s = Inr s1" "eachE f xs s1 = Inr s'" by (auto simp: bindE_Inr_iff)
    moreover have "keeps R (f x)" "keeps R (eachE f xs)" using Cons by simp_all
    ultimately show "R s s'" by (meson keepsD assms(1) transpD)
  qed
qed

section \<open>Invariants of step relations\<close>

text \<open>
  What a component shows of its state machine: a relation between states and a predicate that
  every step keeps. Its consequences for runs are the same for all of them.
\<close>

locale state_machine =
  fixes step :: "'s \<Rightarrow> 's \<Rightarrow> bool"
    and inv :: "'s \<Rightarrow> bool"
  assumes inv_step: "inv x \<Longrightarrow> step x y \<Longrightarrow> inv y"
begin

lemma inv_run: "step\<^sup>*\<^sup>* x y \<Longrightarrow> inv x \<Longrightarrow> inv y"
  by (induction rule: rtranclp_induct) (auto intro: inv_step)

lemma run_safe: "step\<^sup>*\<^sup>* x y \<Longrightarrow> inv x \<Longrightarrow> (\<And>z. inv z \<Longrightarrow> safe z) \<Longrightarrow> safe y"
  using inv_run by blast

text \<open>A quantity that no step lets grow stays below its initial value.\<close>

lemma run_mono:
  fixes f :: "'s \<Rightarrow> nat"
  assumes "\<And>x y. inv x \<Longrightarrow> step x y \<Longrightarrow> f y \<le> f x"
  shows "step\<^sup>*\<^sup>* x y \<Longrightarrow> inv x \<Longrightarrow> f y \<le> f x"
proof (induction rule: rtranclp_induct)
  case base
  then show ?case by simp
next
  case (step y z)
  then have "f z \<le> f y" using assms inv_run by blast
  with step show ?case by simp
qed

end

section \<open>Bounded logs\<close>

text \<open>
  A log of bounded capacity: appending to a full one drops the oldest entry. What a run of
  appends leaves is the same for every such structure.
\<close>

definition lastn :: "nat \<Rightarrow> 'a list \<Rightarrow> 'a list" where
  "lastn n xs = drop (length xs - n) xs"

lemma length_lastn [simp]: "length (lastn n xs) = min n (length xs)"
  by (simp add: lastn_def)

lemma lastn_all [simp]: "length xs \<le> n \<Longrightarrow> lastn n xs = xs"
  by (simp add: lastn_def)

lemma lastn_append_lastn: "lastn n (lastn n xs @ ys) = lastn n (xs @ ys)"
  unfolding lastn_def by simp (rule arg_cong [where f = "\<lambda>k. drop k xs"], arith)

lemma rev_lastn: "rev (lastn n xs) = take n (rev xs)"
  by (cases "n \<le> length xs") (simp_all add: lastn_def rev_drop)

lemma set_lastn: "set (lastn n xs) \<subseteq> set xs"
  by (simp add: lastn_def set_drop_subset)

locale bounded_log =
  fixes inv :: "'s \<Rightarrow> bool"
    and cap :: "'s \<Rightarrow> nat"
    and log :: "'s \<Rightarrow> 'e list"
    and put :: "'e \<Rightarrow> 's \<Rightarrow> 's"
    and fits :: "'e \<Rightarrow> 's \<Rightarrow> bool"
  assumes inv_put: "inv s \<Longrightarrow> fits e s \<Longrightarrow> inv (put e s)"
    and cap_put: "inv s \<Longrightarrow> cap (put e s) = cap s"
    and log_put: "inv s \<Longrightarrow> log (put e s) = lastn (cap s) (log s @ [e])"
    and fits_put: "inv s \<Longrightarrow> fits d (put e s) = fits d s"
    and log_cap: "inv s \<Longrightarrow> length (log s) \<le> cap s"
begin

lemma run:
  "inv s \<Longrightarrow> \<forall>e\<in>set es. fits e s \<Longrightarrow>
   inv (fold put es s) \<and> cap (fold put es s) = cap s \<and>
   log (fold put es s) = lastn (cap s) (log s @ es)"
proof (induction es arbitrary: s)
  case (Cons e es)
  then have s': "inv (put e s)" "\<forall>d\<in>set es. fits d (put e s)"
    by (simp_all add: inv_put fits_put)
  have "lastn (cap s) (log (put e s) @ es) = lastn (cap s) (log s @ e # es)"
    using lastn_append_lastn [of "cap s" "log s @ [e]" es] Cons.prems by (simp add: log_put)
  with Cons.IH [OF s'] Cons.prems show ?case by (simp add: cap_put)
qed (simp add: log_cap)

text \<open>The \<open>k\<close>-th most recent entry after a run that adds at least \<open>k\<close> of them.\<close>

lemma recent:
  assumes "inv s" and "\<forall>e\<in>set es. fits e s" and "k < length es" and "k < cap s"
  shows "rev (log (fold put es s)) ! k = rev es ! k"
proof -
  have "rev (log (fold put es s)) = take (cap s) (rev es @ rev (log s))"
    using run [OF assms(1,2)] by (simp add: rev_lastn del: take_append)
  with assms(3,4) show ?thesis by (simp add: nth_append)
qed

end

section \<open>Machine integers\<close>

text \<open>A C \<^verbatim>\<open>int\<close> stored in a 32-bit cell, and a 32-bit cell read as \<^verbatim>\<open>int\<close>.\<close>

definition i32 :: "int \<Rightarrow> u32" where
  "i32 k = word_of_int k"

definition int_of :: "u32 \<Rightarrow> int" where
  "int_of w = sint w"

lemma int_of_i32 [simp]:
  assumes "- 2147483648 \<le> k" and "k < 2147483648"
  shows "int_of (i32 k) = k"
proof -
  have "signed_take_bit 31 k = k"
    by (rule signed_take_bit_int_eq_self) (use assms in simp_all)
  then show ?thesis by (simp add: int_of_def i32_def signed_of_int)
qed

text \<open>The value a C \<^verbatim>\<open>int\<close> wraps around to.\<close>

definition wrap32 :: "int \<Rightarrow> int" where
  "wrap32 k = int_of (i32 k)"

lemma i32_wrap32 [simp]: "i32 (wrap32 k) = i32 k"
  by (simp add: wrap32_def i32_def int_of_def)

lemma i32_add: "i32 (a + b) = i32 a + i32 b" "i32 (a - b) = i32 a - i32 b"
  by (simp_all add: i32_def)

lemma wrap32_wrap32 [simp]: "wrap32 (wrap32 a + b) = wrap32 (a + b)" "wrap32 (wrap32 a - b) = wrap32 (a - b)"
  "wrap32 (wrap32 a) = wrap32 a"
  by (simp_all add: wrap32_def [of "wrap32 a + b"] wrap32_def [of "wrap32 a - b"]
      wrap32_def [of "wrap32 a"] i32_add) (simp_all add: wrap32_def i32_add)

lemma wrap32_small [simp]: "- 2147483648 \<le> k \<Longrightarrow> k < 2147483648 \<Longrightarrow> wrap32 k = k"
  by (simp add: wrap32_def)

lemma unat_bound32 [simp]: "unat (a :: u32) < 4294967296"
  by (rule order_less_le_trans [OF unsigned_less]) simp

lemma unat_of_nat32 [simp]: "n < 4294967296 \<Longrightarrow> unat (of_nat n :: u32) = n"
  by (simp add: unsigned_of_nat take_bit_nat_eq_self)

lemma unat_plus_le:
  fixes a b :: u32
  assumes "unat a + unat b < 4294967296"
  shows "unat (a + b) = unat a + unat b"
  using assms by (simp add: unat_word_ariths)

lemma unat_diff_add:
  fixes a b :: u32
  assumes "a \<noteq> b"
  shows "unat (a - b) + unat (b - a) = 4294967296"
proof -
  from assms have "unat a \<noteq> unat b" by (simp add: word_unat_eq_iff)
  moreover have "unat (a - b) = (if unat b \<le> unat a then unat a - unat b
                                 else unat a + 4294967296 - unat b)"
    and "unat (b - a) = (if unat a \<le> unat b then unat b - unat a
                         else unat b + 4294967296 - unat a)"
    by (simp_all add: unat_sub_if_size word_size)
  ultimately show ?thesis
    using unat_bound32 [of a] unat_bound32 [of b] by presburger
qed

lemma unat_minus_of_nat:
  fixes d :: u32
  assumes "k \<le> unat d"
  shows "unat (d - of_nat k) = unat d - k"
proof -
  have "k < 4294967296" using assms unat_bound32 [of d] by linarith
  then have "unat (of_nat k :: u32) = k" by simp
  with assms show ?thesis by (simp add: unat_sub word_le_nat_alt)
qed

section \<open>C strings\<close>

text \<open>
  A C string is the list of its characters before the terminating NUL. \<^verbatim>\<open>tolower\<close> in the C
  locale, \<^verbatim>\<open>strcasecmp\<close> as an equality test, and one call of \<^verbatim>\<open>strtok\<close>: the token and the text
  after the delimiter that ended it, \<^term>\<open>None\<close> for the NULL result.
\<close>

definition tolower :: "char \<Rightarrow> char" where
  "tolower c = (if 65 \<le> (of_char c :: nat) \<and> (of_char c :: nat) \<le> 90
                then char_of ((of_char c :: nat) + 32) else c)"

definition strcaseeq :: "string \<Rightarrow> string \<Rightarrow> bool" where
  "strcaseeq a b \<longleftrightarrow> map tolower a = map tolower b"

definition strtok :: "string \<Rightarrow> string \<Rightarrow> (string \<times> string) option" where
  "strtok delims s =
     (let s' = dropWhile (\<lambda>c. c \<in> set delims) s in
      if s' = [] then None
      else Some (takeWhile (\<lambda>c. c \<notin> set delims) s',
                 drop 1 (dropWhile (\<lambda>c. c \<notin> set delims) s')))"

lemma strtok_shorter: "strtok d s = Some (t, r) \<Longrightarrow> length r < length s"
proof -
  assume a: "strtok d s = Some (t, r)"
  let ?s = "dropWhile (\<lambda>c. c \<in> set d) s"
  from a have ne: "?s \<noteq> []" and r: "r = drop 1 (dropWhile (\<lambda>c. c \<notin> set d) ?s)"
    by (auto simp: strtok_def Let_def split: if_splits)
  have "length r \<le> length (dropWhile (\<lambda>c. c \<notin> set d) ?s) - 1" by (simp add: r)
  also have "\<dots> \<le> length ?s - 1" by (rule diff_le_mono [OF length_dropWhile_le])
  also have "\<dots> < length s"
    using ne length_dropWhile_le [of "\<lambda>c. c \<in> set d" s] by (cases "?s") auto
  finally show ?thesis .
qed

lemma strtok_token:
  assumes "strtok d s = Some (t, r)"
  shows "t \<noteq> []" and "set t \<inter> set d = {}" and "length t \<le> length s"
proof -
  let ?s = "dropWhile (\<lambda>c. c \<in> set d) s"
  from assms have ne: "?s \<noteq> []" and t: "t = takeWhile (\<lambda>c. c \<notin> set d) ?s"
    by (auto simp: strtok_def Let_def split: if_splits)
  from ne have "hd ?s \<notin> set d" by (rule hd_dropWhile)
  with ne show "t \<noteq> []" unfolding t by (cases "?s") auto
  show "set t \<inter> set d = {}" unfolding t by (auto dest: set_takeWhileD)
  have "length t \<le> length ?s" unfolding t by (rule length_takeWhile_le)
  also have "\<dots> \<le> length s" by (rule length_dropWhile_le)
  finally show "length t \<le> length s" .
qed

text \<open>\<^verbatim>\<open>strtok\<close> until NULL: the tokens of a string.\<close>

function tokens :: "string \<Rightarrow> string \<Rightarrow> string list" where
  "tokens d s = (case strtok d s of None \<Rightarrow> [] | Some (t, r) \<Rightarrow> t # tokens d r)"
  by pat_completeness auto
termination
  by (relation "measure (\<lambda>(d, s). length s)") (auto dest: strtok_shorter)

declare tokens.simps [simp del]

lemma tokens_simps [simp]:
  "strtok d s = None \<Longrightarrow> tokens d s = []"
  "strtok d s = Some (t, r) \<Longrightarrow> tokens d s = t # tokens d r"
  by (simp_all add: tokens.simps [of d s])

end
