(* ===== verification/Trx_Mem.thy ===== *)
theory Trx_Mem imports Trx_Prelude
begin

text \<open>
  The address space of the tracked process: bytes at 32-bit addresses, with the loads and
  stores the C code performs (little-endian words, \<^verbatim>\<open>memcpy\<close>, \<^verbatim>\<open>bzero\<close>). Addresses wrap as the
  pointer arithmetic of the ABI does. Two regions that do not overlap are \<open>apart\<close>, and a
  region inside another is \<open>within\<close> it; both are stated with wrapping differences, so they need
  no side condition on the position of a region in the address space.
\<close>

type_synonym mem = "u32 \<Rightarrow> u8"

definition mem_read :: "mem \<Rightarrow> u32 \<Rightarrow> nat \<Rightarrow> u8 list" where
  "mem_read m a n = map (\<lambda>i. m (a + of_nat i)) [0..<n]"

definition mem_write :: "mem \<Rightarrow> u32 \<Rightarrow> u8 list \<Rightarrow> mem" where
  "mem_write m a bs = (\<lambda>x. if unat (x - a) < length bs then bs ! unat (x - a) else m x)"

definition bytes32 :: "u32 \<Rightarrow> u8 list" where
  "bytes32 v = [ucast v, ucast (drop_bit 8 v), ucast (drop_bit 16 v), ucast (drop_bit 24 v)]"

definition word32 :: "u8 list \<Rightarrow> u32" where
  "word32 bs = foldr (\<lambda>b w. ucast b OR push_bit 8 w) bs 0"

definition ld32 :: "mem \<Rightarrow> u32 \<Rightarrow> u32" where
  "ld32 m a = word32 (mem_read m a 4)"

definition st32 :: "mem \<Rightarrow> u32 \<Rightarrow> u32 \<Rightarrow> mem" where
  "st32 m a v = mem_write m a (bytes32 v)"

definition bzero :: "mem \<Rightarrow> u32 \<Rightarrow> u32 \<Rightarrow> mem" where
  "bzero m a n = (\<lambda>x. if x - a < n then 0 else m x)"

definition memmove :: "mem \<Rightarrow> u32 \<Rightarrow> u32 \<Rightarrow> u32 \<Rightarrow> mem" where
  "memmove m dst src n = (\<lambda>x. if x - dst < n then m (src + (x - dst)) else m x)"

section \<open>Regions\<close>

definition apart :: "u32 \<Rightarrow> nat \<Rightarrow> u32 \<Rightarrow> nat \<Rightarrow> bool" where
  "apart a n b k \<longleftrightarrow> n \<le> unat (b - a) \<and> k \<le> unat (a - b)"

definition within :: "u32 \<Rightarrow> nat \<Rightarrow> u32 \<Rightarrow> nat \<Rightarrow> bool" where
  "within q l p n \<longleftrightarrow> unat (q - p) + l \<le> n"

lemma apart_commute: "apart a n b k \<longleftrightarrow> apart b k a n"
  by (auto simp: apart_def)

lemma apart_outside:
  assumes "apart a n b k" and "i < k"
  shows "n \<le> unat (b + of_nat i - a)"
proof (cases "a = b")
  case True
  with assms show ?thesis by (simp add: apart_def)
next
  case False
  then have sum: "unat (a - b) + unat (b - a) = 4294967296" by (rule unat_diff_add)
  from assms have "n \<le> unat (b - a)" and "i < unat (a - b)" by (auto simp: apart_def)
  with sum have lt: "unat (b - a) + i < 4294967296" by simp
  then have "unat (of_nat i :: u32) = i" by simp
  moreover have "b + of_nat i - a = (b - a) + of_nat i" by simp
  ultimately have "unat (b + of_nat i - a) = unat (b - a) + i"
    using lt by (metis unat_plus_le)
  with \<open>n \<le> unat (b - a)\<close> show ?thesis by simp
qed

lemma apart_within:
  assumes "apart p n b k" and "within q l p n" and "within c j b k" and "0 < l" and "0 < j"
  shows "apart q l c j"
proof -
  from assms have "p \<noteq> b" by (auto simp: apart_def within_def)
  then have sum: "unat (p - b) + unat (b - p) = 4294967296" by (rule unat_diff_add)
  define d e e' where "d = unat (b - p)" and "e = unat (q - p)" and "e' = unat (c - b)"
  have "e + l \<le> n" "e' + j \<le> k" "n \<le> d" "k \<le> unat (p - b)"
    using assms by (auto simp: apart_def within_def d_def e_def e'_def)
  with sum have bounds: "e + l \<le> d" "d + e' + j \<le> 4294967296" by (auto simp: d_def)
  have cq: "c - q = of_nat (d + e' - e)"
  proof -
    have "c - q = (b - p) + (c - b) - (q - p)" by simp
    also have "\<dots> = of_nat d + of_nat e' - of_nat e" by (simp add: d_def e_def e'_def)
    also have "\<dots> = of_nat (d + e' - e)" using bounds by simp
    finally show ?thesis .
  qed
  have cq: "unat (c - q) = d + e' - e"
    unfolding cq by (rule unat_of_nat32) (use bounds \<open>0 < j\<close> in simp)
  with bounds \<open>0 < l\<close> have "c \<noteq> q" by auto
  then have "unat (q - c) = 4294967296 - (d + e' - e)"
    using unat_diff_add [of q c] cq by simp
  with cq bounds show ?thesis by (auto simp: apart_def)
qed

lemma within_trans:
  assumes "within q l p n" and "within r k q l" and "n \<le> 4294967296" and "0 < k"
  shows "within r k p n"
proof -
  have "unat (r - p) = unat (r - q) + unat (q - p)"
  proof -
    have "r - p = (r - q) + (q - p)" by simp
    moreover have "unat (r - q) + unat (q - p) < 4294967296"
      using assms by (simp add: within_def)
    ultimately show ?thesis by (metis unat_plus_le)
  qed
  with assms show ?thesis by (simp add: within_def)
qed

section \<open>Reading what was written\<close>

lemma length_mem_read [simp]: "length (mem_read m a n) = n"
  by (simp add: mem_read_def)

lemma mem_read_write_same:
  assumes "length bs = n" and "n \<le> 4294967296"
  shows "mem_read (mem_write m a bs) a n = bs"
proof (rule nth_equalityI)
  show "length (mem_read (mem_write m a bs) a n) = length bs" using assms by simp
  fix i assume "i < length (mem_read (mem_write m a bs) a n)"
  then have "i < n" by simp
  moreover from this assms have "unat (of_nat i :: u32) = i" by simp
  ultimately show "mem_read (mem_write m a bs) a n ! i = bs ! i"
    using assms by (simp add: mem_read_def mem_write_def)
qed

lemma mem_read_write_apart:
  assumes "apart a (length bs) b k"
  shows "mem_read (mem_write m a bs) b k = mem_read m b k"
proof (rule nth_equalityI)
  show "length (mem_read (mem_write m a bs) b k) = length (mem_read m b k)" by simp
  fix i assume "i < length (mem_read (mem_write m a bs) b k)"
  then have "i < k" by simp
  with apart_outside [OF assms this] show "mem_read (mem_write m a bs) b k ! i = mem_read m b k ! i"
    by (simp add: mem_read_def mem_write_def)
qed

lemma length_bytes32 [simp]: "length (bytes32 v) = 4"
  by (simp add: bytes32_def)

lemma word32_bytes32 [simp]: "word32 (bytes32 v) = v"
proof (rule bit_word_eqI)
  fix n assume n: "n < LENGTH(32)"
  show "bit (word32 (bytes32 v)) n \<longleftrightarrow> bit v n"
  proof -
    consider "n < 8" | "8 \<le> n \<and> n < 16" | "16 \<le> n \<and> n < 24" | "24 \<le> n \<and> n < 32"
      using n by force
    then show ?thesis
      by cases (use n in \<open>auto simp: word32_def bytes32_def bit_simps\<close>)
  qed
qed

lemma ld32_st32_same [simp]: "ld32 (st32 m a v) a = v"
  by (simp add: ld32_def st32_def mem_read_write_same)

lemma ld32_st32_apart [frame_simps]: "apart a 4 b 4 \<Longrightarrow> ld32 (st32 m a v) b = ld32 m b"
  by (simp add: ld32_def st32_def mem_read_write_apart)

lemma mem_read_st32_apart [frame_simps]:
  "apart a 4 b k \<Longrightarrow> mem_read (st32 m a v) b k = mem_read m b k"
  by (simp add: st32_def mem_read_write_apart)

lemma ld32_cong: "mem_read m a 4 = mem_read m' a 4 \<Longrightarrow> ld32 m a = ld32 m' a"
  by (simp add: ld32_def)

lemma mem_read_sub:
  assumes "mem_read m a n = mem_read m' a n" and "within b k a n" and "n \<le> 4294967296"
  shows "mem_read m b k = mem_read m' b k"
proof (rule nth_equalityI)
  show "length (mem_read m b k) = length (mem_read m' b k)" by simp
  fix i assume "i < length (mem_read m b k)"
  then have "i < k" by simp
  define j where "j = unat (b - a) + i"
  from \<open>i < k\<close> assms have "j < n" by (simp add: within_def j_def)
  have "b + of_nat i = a + of_nat j"
    by (simp add: j_def)
  moreover have "mem_read m a n ! j = mem_read m' a n ! j" by (simp add: assms)
  ultimately show "mem_read m b k ! i = mem_read m' b k ! i"
    using \<open>j < n\<close> \<open>i < k\<close> by (simp add: mem_read_def)
qed

lemma mem_read_bzero_apart:
  assumes "apart a (unat n) b k"
  shows "mem_read (bzero m a n) b k = mem_read m b k"
proof (rule nth_equalityI)
  show "length (mem_read (bzero m a n) b k) = length (mem_read m b k)" by simp
  fix i assume "i < length (mem_read (bzero m a n) b k)"
  then have "i < k" by simp
  with apart_outside [OF assms this] show "mem_read (bzero m a n) b k ! i = mem_read m b k ! i"
    by (simp add: mem_read_def bzero_def word_less_nat_alt)
qed

lemma mem_read_memmove_apart:
  assumes "apart a (unat n) b k"
  shows "mem_read (memmove m a s n) b k = mem_read m b k"
proof (rule nth_equalityI)
  show "length (mem_read (memmove m a s n) b k) = length (mem_read m b k)" by simp
  fix i assume "i < length (mem_read (memmove m a s n) b k)"
  then have "i < k" by simp
  with apart_outside [OF assms this] show "mem_read (memmove m a s n) b k ! i = mem_read m b k ! i"
    by (simp add: mem_read_def memmove_def word_less_nat_alt)
qed

lemma mem_read_memmove_same:
  assumes "k \<le> unat n"
  shows "mem_read (memmove m a s n) a k = mem_read m s k"
proof (rule nth_equalityI)
  show "length (mem_read (memmove m a s n) a k) = length (mem_read m s k)" by simp
  fix i assume "i < length (mem_read (memmove m a s n) a k)"
  then have "i < k" by simp
  with assms have "i < unat n" by simp
  then have "unat (of_nat i :: u32) = i"
    by (meson order_less_trans unat_bound32 unat_of_nat32)
  with \<open>i < unat n\<close> \<open>i < k\<close> show "mem_read (memmove m a s n) a k ! i = mem_read m s k ! i"
    by (simp add: mem_read_def memmove_def word_less_nat_alt)
qed

section \<open>What a computation touches\<close>

text \<open>\<open>touches m m' a n\<close>: outside the \<open>n\<close> bytes at \<open>a\<close> the two memories agree.\<close>

definition touches :: "mem \<Rightarrow> mem \<Rightarrow> u32 \<Rightarrow> nat \<Rightarrow> bool" where
  "touches m m' a n \<longleftrightarrow> (\<forall>x. n \<le> unat (x - a) \<longrightarrow> m' x = m x)"

lemma touches_refl [simp]: "touches m m a n"
  by (simp add: touches_def)

lemma touches_trans: "touches m m1 a n \<Longrightarrow> touches m1 m2 a n \<Longrightarrow> touches m m2 a n"
  by (simp add: touches_def)

lemma touches_write: "touches m (mem_write m a bs) a (length bs)"
  by (simp add: touches_def mem_write_def)

lemma touches_st32: "touches m (st32 m a v) a 4"
  using touches_write [of m a "bytes32 v"] by (simp add: st32_def)

lemma touches_bzero: "touches m (bzero m a n) a (unat n)"
  by (simp add: touches_def bzero_def word_less_nat_alt)

lemma touches_memmove: "touches m (memmove m a b n) a (unat n)"
  by (simp add: touches_def memmove_def word_less_nat_alt)

lemma touches_within:
  assumes "touches m m' q l" and w: "within q l p n"
  shows "touches m m' p n"
  unfolding touches_def
proof (intro allI impI)
  fix x assume n: "n \<le> unat (x - p)"
  have "x - q = (x - p) - (q - p)" by simp
  moreover have "q - p \<le> x - p" using w n by (simp add: word_le_nat_alt within_def)
  ultimately have "unat (x - q) = unat (x - p) - unat (q - p)" by (simp only: unat_sub)
  with w n have "l \<le> unat (x - q)" by (simp add: within_def)
  with assms(1) show "m' x = m x" by (simp add: touches_def)
qed

lemma touches_read:
  assumes "touches m m' a n" and "apart a n b k"
  shows "mem_read m' b k = mem_read m b k"
  using assms apart_outside [OF assms(2)] by (simp add: touches_def mem_read_def)

lemma touches_ld32: "touches m m' a n \<Longrightarrow> apart a n b 4 \<Longrightarrow> ld32 m' b = ld32 m b"
  by (simp add: ld32_def touches_read)

text \<open>Regions given by their offsets from a common base.\<close>

lemma apart_offsets:
  fixes x y :: u32
  assumes "unat x + n \<le> unat y" and "unat y + k \<le> unat x + 4294967296" and "0 < n"
  shows "apart (a + x) n (a + y) k" and "apart (a + y) k (a + x) n"
proof -
  have "x \<noteq> y" using assms by auto
  moreover have "unat (y - x) = unat y - unat x"
    using assms by (simp add: unat_sub word_le_nat_alt)
  ultimately have "unat (x - y) = 4294967296 - (unat y - unat x)"
    using unat_diff_add [of x y] by simp
  with \<open>unat (y - x) = _\<close> assms show "apart (a + x) n (a + y) k"
    by (auto simp: apart_def)
  then show "apart (a + y) k (a + x) n" by (simp add: apart_commute)
qed

section \<open>Fixed-size encodings\<close>

text \<open>
  What a reader of a byte stream relies on: every value of interest is encoded in the same
  number of bytes and decodes to itself. Then a sequence of values can be laid out back to back
  and taken apart again. Words, command packets and report slots are encoded this way.
\<close>

locale codec =
  fixes enc :: "'p \<Rightarrow> u8 list"
    and dec :: "u8 list \<Rightarrow> 'p"
    and size :: nat
    and ok :: "'p \<Rightarrow> bool"
  assumes length_enc: "ok p \<Longrightarrow> length (enc p) = size"
    and dec_enc: "ok p \<Longrightarrow> dec (enc p) = p"
begin

fun unpack :: "nat \<Rightarrow> u8 list \<Rightarrow> 'p list" where
  "unpack 0 b = []"
| "unpack (Suc n) b = dec (take size b) # unpack n (drop size b)"

lemma unpack_pack:
  "(\<forall>p\<in>set ps. ok p) \<Longrightarrow> unpack (length ps) (concat (map enc ps) @ r) = ps"
  by (induction ps) (auto simp: length_enc dec_enc)

lemma length_pack: "(\<forall>p\<in>set ps. ok p) \<Longrightarrow> length (concat (map enc ps)) = size * length ps"
  by (induction ps) (auto simp: length_enc)

lemma enc_inj: "ok p \<Longrightarrow> ok q \<Longrightarrow> enc p = enc q \<Longrightarrow> p = q"
  using dec_enc by metis

lemma dec_prefix: "ok p \<Longrightarrow> dec (take size (enc p @ r)) = p"
  by (simp add: length_enc dec_enc)

end

interpretation w32: codec bytes32 word32 4 "\<lambda>_. True"
  by unfold_locales simp_all

end
