(* ===== verification/Trx_Os.thy ===== *)
theory Trx_Os imports Trx_Mem
begin

text \<open>
  What the two programs see of the operating system: descriptors with the bytes that will
  arrive on them, in the pieces \<^verbatim>\<open>read\<close> returns, and the bytes written to them. How the kernel
  answers a call is input to the model, kept in the state as the list of the answers still to
  come: \<open>wq\<close> for \<^verbatim>\<open>write\<close> (a negative answer fails, \<open>k\<close> accepts at most \<open>k\<close> bytes, no answer
  left accepts everything), \<open>sels\<close> for \<^verbatim>\<open>select\<close>, \<open>oom\<close> for the \<^verbatim>\<open>malloc\<close> of a payload buffer.
  When its input is used up, the peer of a descriptor has hung up, has broken off, or is silent: it
  stays connected and sends nothing more. A \<^verbatim>\<open>read\<close> that blocks on a silent peer never returns, which
  is the fault \<^term>\<open>Blocked\<close>.
\<close>

type_synonym bytes = "u8 list"

datatype ending = Hangup | Broken | Silent

record chan =
  isopen :: bool
  rx :: "bytes list"
  ended :: ending
  tx :: bytes
  wq :: "int list"

record os =
  chans :: "int \<Rightarrow> chan"
  sels :: "int list"
  oom :: "bool list"

definition closed_chan :: chan where
  "closed_chan = \<lparr>isopen = False, rx = [], ended = Hangup, tx = [], wq = []\<rparr>"

definition set_chan :: "int \<Rightarrow> chan \<Rightarrow> 'a os_scheme \<Rightarrow> 'a os_scheme" where
  "set_chan fd c s = s\<lparr>chans := (chans s)(fd := c)\<rparr>"

text \<open>
  \<^verbatim>\<open>read(fd, buf, n)\<close> where it does not wait, because \<^verbatim>\<open>select\<close> has found the descriptor readable or
  the descriptor is in non-blocking mode: the result and the bytes placed in the buffer.
\<close>

definition os_read :: "int \<Rightarrow> int \<Rightarrow> 'a os_scheme \<Rightarrow> (int \<times> bytes) \<times> 'a os_scheme" where
  "os_read fd n s =
     (let c = chans s fd in
      if \<not> isopen c \<or> n < 0 then ((-1, []), s)
      else case rx c of
        [] \<Rightarrow> ((if ended c = Hangup then 0 else -1, []), s)
      | b # bs \<Rightarrow>
          (let got = take (nat n) b; rest = drop (nat n) b in
           ((int (length got), got),
            set_chan fd (c\<lparr>rx := (if rest = [] then bs else rest # bs)\<rparr>) s)))"

text \<open>\<^verbatim>\<open>read\<close> on a descriptor in blocking mode: it waits while there is nothing to read.\<close>

definition would_wait :: "int \<Rightarrow> int \<Rightarrow> 'a os_scheme \<Rightarrow> bool" where
  "would_wait fd n s \<longleftrightarrow> (let c = chans s fd in isopen c \<and> 0 < n \<and> rx c = [] \<and> ended c = Silent)"

definition os_wait_read :: "int \<Rightarrow> int \<Rightarrow> 'a os_scheme \<Rightarrow> fault + (int \<times> bytes) \<times> 'a os_scheme" where
  "os_wait_read fd n s = (if would_wait fd n s then Inl Blocked else Inr (os_read fd n s))"

text \<open>\<^verbatim>\<open>write(fd, buf, n)\<close>.\<close>

definition os_write :: "int \<Rightarrow> bytes \<Rightarrow> 'a os_scheme \<Rightarrow> int \<times> 'a os_scheme" where
  "os_write fd b s =
     (let c = chans s fd in
      if \<not> isopen c then (-1, s)
      else case wq c of
        [] \<Rightarrow> (int (length b), set_chan fd (c\<lparr>tx := tx c @ b\<rparr>) s)
      | q # qs \<Rightarrow>
          (if q < 0 then (-1, set_chan fd (c\<lparr>wq := qs\<rparr>) s)
           else (int (length (take (nat q) b)),
                 set_chan fd (c\<lparr>tx := tx c @ take (nat q) b, wq := qs\<rparr>) s)))"

definition os_close :: "int \<Rightarrow> 'a os_scheme \<Rightarrow> 'a os_scheme" where
  "os_close fd s = set_chan fd ((chans s fd)\<lparr>isopen := False\<rparr>) s"

definition os_select :: "'a os_scheme \<Rightarrow> int \<times> 'a os_scheme" where
  "os_select s = (case sels s of [] \<Rightarrow> (0, s) | n # ns \<Rightarrow> (n, s\<lparr>sels := ns\<rparr>))"

definition os_malloc :: "'a os_scheme \<Rightarrow> bool \<times> 'a os_scheme" where
  "os_malloc s = (case oom s of [] \<Rightarrow> (True, s) | b # bs \<Rightarrow> (\<not> b, s\<lparr>oom := bs\<rparr>))"

text \<open>C strings on a byte channel.\<close>

definition bytes_of :: "string \<Rightarrow> bytes" where
  "bytes_of s = map of_char s"

lemma bytes_of_simps [simp]:
  "bytes_of [] = []" "bytes_of (c # s) = of_char c # bytes_of s"
  "bytes_of (s @ t) = bytes_of s @ bytes_of t" "length (bytes_of s) = length s"
  by (simp_all add: bytes_of_def)

section \<open>What the calls leave unchanged\<close>

lemma chans_set_chan [simp]: "chans (set_chan fd c s) = (chans s)(fd := c)"
  by (simp add: set_chan_def)

lemma set_chan_id [simp]: "set_chan fd (chans s fd) s = s"
  by (simp add: set_chan_def)

lemma set_chan_twice [simp]: "set_chan fd c (set_chan fd d s) = set_chan fd c s"
  by (simp add: set_chan_def)

lemma set_chan_other [simp]:
  "sels (set_chan fd c s) = sels s" "oom (set_chan fd c s) = oom s"
  "os.more (set_chan fd c s) = os.more s"
  by (simp_all add: set_chan_def)

lemma os_read_more: "os_read fd n s = (r, s') \<Longrightarrow> os.more s' = os.more s"
  by (auto simp: os_read_def Let_def split: if_splits list.splits)

lemma os_write_more: "os_write fd b s = (r, s') \<Longrightarrow> os.more s' = os.more s"
  by (auto simp: os_write_def Let_def split: if_splits list.splits)

lemma os_write_bound: "os_write fd b s = (r, s') \<Longrightarrow> r \<le> int (length b)"
  by (auto simp: os_write_def Let_def split: if_splits list.splits)

text \<open>
  Progress of a write loop: a call that does not fail either takes bytes or uses up one of
  the kernel's answers.
\<close>

lemma os_write_progress:
  assumes "os_write fd b s = (r, s')" and "0 \<le> r" and "b \<noteq> []"
  shows "length (drop (nat r) b) + length (wq (chans s' fd)) < length b + length (wq (chans s fd))"
  using assms by (auto simp: os_write_def Let_def split: if_splits list.splits)

lemma os_write_tx:
  assumes "os_write fd b s = (r, s')" and "0 \<le> r"
  shows "tx (chans s' fd) = tx (chans s fd) @ take (nat r) b" and "isopen (chans s' fd)"
  using assms by (auto simp: os_write_def Let_def min_def split: if_splits list.splits)

end
