(* ===== verification/Trx_Printf.thy ===== *)
theory Trx_Printf imports Trx_Prelude
begin

text \<open>
  What the manager uses of the C library on strings: the character classes, decimal input as
  \<^verbatim>\<open>sscanf("%d")\<close> and \<^verbatim>\<open>atoi\<close> read it, and formatted output for the conversions its formats
  contain (\<^verbatim>\<open>%d %s %c %x\<close> with \<^verbatim>\<open>-\<close>, \<^verbatim>\<open>0\<close>, a width or \<^verbatim>\<open>*\<close>). Output of the manager's components is a
  list of such calls, format and arguments.
\<close>

section \<open>Characters\<close>

definition ord_c :: "char \<Rightarrow> nat" where "ord_c c = of_char c"

definition is_digit :: "char \<Rightarrow> bool" where
  "is_digit c \<longleftrightarrow> 48 \<le> ord_c c \<and> ord_c c \<le> 57"

definition is_alnum :: "char \<Rightarrow> bool" where
  "is_alnum c \<longleftrightarrow> is_digit c \<or> 65 \<le> ord_c c \<and> ord_c c \<le> 90 \<or> 97 \<le> ord_c c \<and> ord_c c \<le> 122"

definition is_print :: "char \<Rightarrow> bool" where
  "is_print c \<longleftrightarrow> 32 \<le> ord_c c \<and> ord_c c \<le> 126"

definition is_space :: "char \<Rightarrow> bool" where
  "is_space c \<longleftrightarrow> ord_c c = 32 \<or> 9 \<le> ord_c c \<and> ord_c c \<le> 13"

section \<open>Decimal input\<close>

definition digits_val :: "string \<Rightarrow> nat" where
  "digits_val ds = foldl (\<lambda>v c. 10 * v + (ord_c c - 48)) 0 ds"

text \<open>
  \<^verbatim>\<open>strtol\<close> in base 10 on a 32-bit \<^verbatim>\<open>long\<close>: blanks, an optional sign, digits, saturating;
  \<^term>\<open>None\<close> when there is no digit.
\<close>

definition clamp32 :: "int \<Rightarrow> int" where
  "clamp32 k = (if k > 2147483647 then 2147483647 else if k < - 2147483648 then - 2147483648 else k)"

definition scan_int :: "string \<Rightarrow> int option" where
  "scan_int s =
     (let s1 = dropWhile is_space s;
          neg = (s1 \<noteq> [] \<and> hd s1 = CHR ''-'');
          s2 = (if s1 \<noteq> [] \<and> (hd s1 = CHR ''-'' \<or> hd s1 = CHR ''+'') then tl s1 else s1);
          ds = takeWhile is_digit s2
      in if ds = [] then None
         else Some (clamp32 (if neg then - int (digits_val ds) else int (digits_val ds))))"

definition atoi :: "string \<Rightarrow> int" where
  "atoi s = (case scan_int s of None \<Rightarrow> 0 | Some k \<Rightarrow> k)"

section \<open>Formatted output\<close>

datatype pf_arg = PInt int | PStr string | PChr char

text \<open>One output call.\<close>

type_synonym prt = "string \<times> pf_arg list"

function nat_digits :: "nat \<Rightarrow> nat \<Rightarrow> nat list" where
  "nat_digits b n = (if b < 2 \<or> n < b then [n] else nat_digits b (n div b) @ [n mod b])"
  by pat_completeness auto
termination by (relation "measure (\<lambda>(b, n). n)") auto

declare nat_digits.simps [simp del]

definition digit_char :: "nat \<Rightarrow> char" where
  "digit_char d = char_of (if d < 10 then 48 + d else 87 + d)"

definition show_nat :: "nat \<Rightarrow> nat \<Rightarrow> string" where
  "show_nat b n = map digit_char (nat_digits b n)"

definition show_int :: "int \<Rightarrow> string" where
  "show_int k = (if k < 0 then CHR ''-'' # show_nat 10 (nat (- k)) else show_nat 10 (nat k))"

definition show_hex :: "int \<Rightarrow> string" where
  "show_hex k = show_nat 16 (nat (k mod 4294967296))"

definition pad_field :: "bool \<Rightarrow> bool \<Rightarrow> int \<Rightarrow> string \<Rightarrow> string" where
  "pad_field left zero w body =
     (let left' = (left \<or> w < 0); n = nat \<bar>w\<bar> - length body in
      if left' then body @ replicate n (CHR '' '')
      else if zero then replicate n (CHR ''0'') @ body else replicate n (CHR '' '') @ body)"

text \<open>A conversion after the \<^verbatim>\<open>%\<close>: flags, width, then the letter with its argument.\<close>

definition conv_flags :: "string \<Rightarrow> bool \<times> bool \<times> string" where
  "conv_flags f =
     (let fl = takeWhile (\<lambda>c. c = CHR ''-'' \<or> c = CHR ''0'') f
      in (CHR ''-'' \<in> set fl, CHR ''0'' \<in> set fl, drop (length fl) f))"

definition conv_width :: "string \<Rightarrow> pf_arg list \<Rightarrow> (int \<times> string \<times> pf_arg list) option" where
  "conv_width f args =
     (if f \<noteq> [] \<and> hd f = CHR ''*'' then
        (case args of PInt w # as \<Rightarrow> Some (w, tl f, as) | _ \<Rightarrow> None)
      else Some (int (digits_val (takeWhile is_digit f)), dropWhile is_digit f, args))"

definition conv_body :: "char \<Rightarrow> pf_arg list \<Rightarrow> (string \<times> pf_arg list) option" where
  "conv_body c args =
     (case args of
        PInt k # as \<Rightarrow>
          (if c = CHR ''d'' then Some (show_int k, as)
           else if c = CHR ''x'' then Some (show_hex k, as) else None)
      | PStr t # as \<Rightarrow> (if c = CHR ''s'' then Some (t, as) else None)
      | PChr t # as \<Rightarrow> (if c = CHR ''c'' then Some ([t], as) else None)
      | [] \<Rightarrow> None)"

lemma conv_width_shorter: "conv_width f args = Some (w, f', as) \<Longrightarrow> length f' \<le> length f"
  by (auto simp: conv_width_def length_dropWhile_le split: if_splits list.splits pf_arg.splits)

text \<open>
  \<^verbatim>\<open>printf\<close>: \<^term>\<open>None\<close> for a conversion without its argument, of another kind than its argument,
  or not among the ones above.
\<close>

function printf :: "string \<Rightarrow> pf_arg list \<Rightarrow> string option" where
  "printf [] args = Some []"
| "printf (c # f) args =
     (if c \<noteq> CHR ''%'' then map_option (\<lambda>r. c # r) (printf f args)
      else (case conv_flags f of (left, zero, f1) \<Rightarrow>
        (case conv_width f1 args of
           None \<Rightarrow> None
         | Some (w, f2, as) \<Rightarrow>
             (case f2 of
                [] \<Rightarrow> None
              | k # f3 \<Rightarrow>
                  (case conv_body k as of
                     None \<Rightarrow> None
                   | Some (body, as') \<Rightarrow>
                       map_option (\<lambda>r. pad_field left zero w body @ r) (printf f3 as'))))))"
  by pat_completeness auto
termination
  by (relation "measure (\<lambda>(f, _). length f)")
    (auto simp: conv_flags_def Let_def dest!: conv_width_shorter)

lemma show_nat_nonempty: "show_nat b n \<noteq> []"
  by (simp add: show_nat_def nat_digits.simps [of b n])

end
