(* ===== verification/Trx_Hist.thy ===== *)
theory Trx_Hist imports Trx_Os Trx_Printf
begin

text \<open>
  \<^verbatim>\<open>trxmgrHist.c\<close>: the command history of a console. The state is the C structure, with the two
  arrays as lists; entries never assigned are \<^term>\<open>None\<close> in \<open>h_cmds\<close> and whatever \<^verbatim>\<open>malloc\<close> left
  there, the parameter \<open>junk\<close>, in \<open>h_ctag\<close>. An operation returns its output calls beside its
  result. The lemmas show that the arrays hold a bounded log of numbered commands, and what the
  history designators select from it.
\<close>

section \<open>State\<close>

definition DEF_HIST :: nat where "DEF_HIST = 100"
definition DEF_LENGTH :: nat where "DEF_LENGTH = 1024"
definition DEF_MAXHIST :: int where "DEF_MAXHIST = 1000"

record hist_t =
  h_nbuf :: nat
  h_cmds :: "string option list"
  h_ctag :: "int list"
  h_curidx :: nat
  h_curtag :: int
  h_maxl :: nat
  h_cliIdx :: nat

text \<open>A read of the arrays: outside them, or a pointer never assigned.\<close>

definition cmd_at :: "hist_t \<Rightarrow> int \<Rightarrow> fault + string" where
  "cmd_at h i =
     (if i < 0 \<or> int (h_nbuf h) \<le> i then Inl OutOfBounds
      else case h_cmds h ! nat i of None \<Rightarrow> Inl DeadPointer | Some s \<Rightarrow> Inr s)"

definition nl :: string where "nl = [CHR 0x0A]"

section \<open>Operations\<close>

text \<open>\<^verbatim>\<open>hist_list\<close>: the entries from \<open>i\<close> on.\<close>

function list_from :: "nat \<Rightarrow> hist_t \<Rightarrow> fault + prt list" where
  "list_from i h =
     (if i < h_curidx h then
        bindE (cmd_at h (int i)) (\<lambda>s. bindE (list_from (i + 1) h)
          (\<lambda>out. Inr ((''%3d: %s'' @ nl, [PInt (h_ctag h ! i), PStr s]) # out)))
      else Inr [])"
  by pat_completeness auto
termination by (relation "measure (\<lambda>(i, h). h_curidx h - i)") auto

declare list_from.simps [simp del]

definition hist_list :: "hist_t \<Rightarrow> fault + prt list" where
  "hist_list h = list_from 0 h"

text \<open>
  \<^verbatim>\<open>hist_setmax\<close>: new arrays of \<open>maxh\<close> entries that take over the most recent ones. The bound of the
  copy loop is the smaller of the two counts.
\<close>

definition hist_resize :: "(nat \<Rightarrow> int) \<Rightarrow> nat \<Rightarrow> hist_t \<Rightarrow> hist_t" where
  "hist_resize junk maxh h =
     (let start = (if maxh < h_curidx h then h_curidx h - maxh else 0);
          n = min maxh (h_curidx h - start)
      in h\<lparr>h_cmds := take n (drop start (h_cmds h)) @ replicate (maxh - n) None,
           h_ctag := take n (drop start (h_ctag h)) @ map junk [n..<maxh],
           h_curidx := (if h_curidx h \<noteq> 0 then n else h_curidx h),
           h_nbuf := maxh\<rparr>)"

definition hist_setmax ::
  "(nat \<Rightarrow> int) \<Rightarrow> int \<Rightarrow> hist_t \<Rightarrow> 'a os_scheme \<Rightarrow> prt list \<times> hist_t \<times> 'a os_scheme" where
  "hist_setmax junk maxh h s =
     (if maxh > DEF_MAXHIST \<or> maxh \<le> 0 then
        ([(''%d invalid, valid range is [1..%d]'' @ nl, [PInt maxh, PInt DEF_MAXHIST])], h, s)
      else if maxh \<noteq> int (h_nbuf h) then
        (case os_malloc s of (ok1, s1) \<Rightarrow>
           if \<not> ok1 then ([], h, s1)
           else case os_malloc s1 of (ok2, s2) \<Rightarrow>
             ([], if ok2 then hist_resize junk (nat maxh) h else h, s2))
      else ([], h, s))"

definition hist_init ::
  "(nat \<Rightarrow> int) \<Rightarrow> int \<Rightarrow> nat \<Rightarrow> nat \<Rightarrow> 'a os_scheme \<Rightarrow> fault + prt list \<times> hist_t \<times> 'a os_scheme" where
  "hist_init junk maxh maxc idx s =
     (case os_malloc s of (ok, s1) \<Rightarrow>
        if \<not> ok then Inl DeadPointer
        else Inr (hist_setmax junk maxh
               \<lparr>h_nbuf = 0, h_cmds = [], h_ctag = [], h_curidx = 0, h_curtag = 0, h_maxl = maxc,
                h_cliIdx = idx\<rparr> s1))"

text \<open>The handle is freed, the entries and the arrays are not.\<close>

definition hist_shutdown :: "hist_t option \<Rightarrow> hist_t option" where
  "hist_shutdown h = None"

text \<open>The entry goes in after the oldest one has made room.\<close>

definition hist_put :: "string \<Rightarrow> hist_t \<Rightarrow> hist_t" where
  "hist_put pt h =
     (let h1 = (if h_curidx h = h_nbuf h
                then h\<lparr>h_cmds := tl (h_cmds h) @ [last (h_cmds h)],
                       h_ctag := tl (h_ctag h) @ [last (h_ctag h)], h_curidx := h_curidx h - 1\<rparr>
                else h)
      in h1\<lparr>h_cmds := (h_cmds h1)[h_curidx h1 := Some pt],
            h_ctag := (h_ctag h1)[h_curidx h1 := wrap32 (h_curtag h + 1)],
            h_curtag := wrap32 (h_curtag h + 1),
            h_curidx := (if h_curidx h1 < h_nbuf h1 then h_curidx h1 + 1 else h_curidx h1)\<rparr>)"

text \<open>
  \<^verbatim>\<open>hist_add\<close>: \<^verbatim>\<open>strcpy\<close> into a buffer of at most \<^verbatim>\<open>maxl + 1\<close> bytes, then as much of \<open>s2\<close> as
  fits. With no array (a \<^verbatim>\<open>malloc\<close> failed before) the first entry is read through null.
\<close>

definition hist_add ::
  "string \<Rightarrow> string option \<Rightarrow> hist_t \<Rightarrow> 'a os_scheme \<Rightarrow> fault + string option \<times> hist_t \<times> 'a os_scheme" where
  "hist_add s1 s2 h s =
     (case os_malloc s of (ok, s') \<Rightarrow>
        if \<not> ok then Inr (None, h, s')
        else if length s1 > h_maxl h then Inl OutOfBounds
        else
          (let pt = s1 @ (case s2 of None \<Rightarrow> [] | Some t \<Rightarrow> take (h_maxl h - length s1) t)
           in if h_nbuf h = 0 then Inl DeadPointer
              else Inr (Some pt, hist_put pt h, s')))"

definition hist_getcmd :: "hist_t \<Rightarrow> int \<Rightarrow> fault + string option" where
  "hist_getcmd h off =
     (if off \<le> int (h_curidx h) \<and> off \<ge> 0 then
        (if off \<noteq> 0 then bindE (cmd_at h (int (h_curidx h) - off)) (\<lambda>s. Inr (Some s))
         else Inr (Some []))
      else Inr None)"

definition null_str :: "string option \<Rightarrow> string" where
  "null_str p = (case p of None \<Rightarrow> ''(null)'' | Some s \<Rightarrow> s)"

definition repeat ::
  "int \<Rightarrow> string \<Rightarrow> hist_t \<Rightarrow> 'a os_scheme \<Rightarrow> fault + (string option \<times> prt list) \<times> hist_t \<times> 'a os_scheme" where
  "repeat idx xtra h s =
     bindE (cmd_at h idx) (\<lambda>old.
       bindE (hist_add old (Some xtra) h s) (\<lambda>(p, h1, s1).
         Inr ((p, [(''%s'' @ nl, [PStr (null_str p)])]), h1, s1)))"

text \<open>\<^verbatim>\<open>getidx\<close>: the scan starts at \<^verbatim>\<open>curidx\<close>, one beyond the last entry.\<close>

fun scan_tag :: "nat \<Rightarrow> int \<Rightarrow> hist_t \<Rightarrow> int" where
  "scan_tag 0 tag h = (if h_ctag h ! 0 = tag then 0 else -1)"
| "scan_tag (Suc i) tag h = (if h_ctag h ! Suc i = tag then int (Suc i) else scan_tag i tag h)"

definition getidx :: "hist_t \<Rightarrow> int \<Rightarrow> fault + int" where
  "getidx h tag =
     (if h_nbuf h \<le> h_curidx h then Inl OutOfBounds else Inr (scan_tag (h_curidx h) tag h))"

definition is_blank :: "char \<Rightarrow> bool" where
  "is_blank c \<longleftrightarrow> c = CHR '' '' \<or> c = CHR 0x09"

text \<open>\<^verbatim>\<open>cmd\<close> is the word \<open>w\<close>, followed by a blank or the end.\<close>

definition is_word :: "string \<Rightarrow> string \<Rightarrow> bool" where
  "is_word w cmd \<longleftrightarrow>
     take (length w) cmd = w \<and> (length cmd = length w \<or> is_blank (cmd ! length w))"

text \<open>\<^verbatim>\<open>for(i=h->curidx-1;i>=0;i--) if(!strncmp(h->cmds[i], tok+1, nc)) ...\<close>, below \<open>n\<close>.\<close>

fun find_prefix :: "nat \<Rightarrow> string \<Rightarrow> hist_t \<Rightarrow> fault + nat option" where
  "find_prefix 0 p h = Inr None"
| "find_prefix (Suc i) p h =
     bindE (cmd_at h (int i))
       (\<lambda>c. if take (length p) c = p then Inr (Some i) else find_prefix i p h)"

definition invalid_spec :: prt where
  "invalid_spec = (''Invalid history specification.'' @ nl, [])"

text \<open>The designators after the \<^verbatim>\<open>!\<close>, \<open>t\<close> being the text behind it.\<close>

definition hist_designator ::
  "string \<Rightarrow> hist_t \<Rightarrow> 'a os_scheme \<Rightarrow>
   fault + (string option \<times> prt list) \<times> hist_t \<times> 'a os_scheme" where
  "hist_designator t h s =
     (let bad = Inr ((None, [invalid_spec]), h, s) in
      if t \<noteq> [] \<and> hd t = CHR ''!'' then
        (if h_curidx h \<noteq> 0 then repeat (int (h_curidx h) - 1) (tl t) h s else bad)
      else case scan_int t of
        Some n \<Rightarrow>
          (let rel = (t \<noteq> [] \<and> hd t = CHR ''-'');
               n1 = (if rel then wrap32 (- n) else n);
               t1 = dropWhile is_digit (if rel then tl t else t)
           in if \<not> rel then
                bindE (getidx h n1) (\<lambda>nidx. if nidx \<ge> 0 then repeat nidx t1 h s else bad)
              else if int (h_curidx h) > n1 then
                repeat (wrap32 (int (h_curidx h) - n1)) t1 h s
              else bad)
      | None \<Rightarrow>
          (let p = takeWhile (\<lambda>c. \<not> is_blank c) t
           in bindE (find_prefix (h_curidx h) p h) (\<lambda>r.
                case r of Some i \<Rightarrow> repeat (int i) (drop (length p) t) h s | None \<Rightarrow> bad)))"

definition hist_cmd ::
  "(nat \<Rightarrow> int) \<Rightarrow> string \<Rightarrow> hist_t \<Rightarrow> 'a os_scheme \<Rightarrow>
   fault + (string option \<times> prt list) \<times> hist_t \<times> 'a os_scheme" where
  "hist_cmd junk tok h s =
     (let cmd = dropWhile is_blank tok in
      if cmd = [] then Inr ((None, []), h, s)
      else if is_word ''h'' cmd \<or> is_word ''history'' cmd then
        (let pt = dropWhile (\<lambda>c. \<not> is_digit c) cmd
         in case scan_int pt of
              Some n \<Rightarrow> (case hist_setmax junk n h s of (out, h1, s1) \<Rightarrow> Inr ((None, out), h1, s1))
            | None \<Rightarrow> bindE (hist_list h) (\<lambda>out. Inr ((None, out), h, s)))
      else if hd tok = CHR ''!'' then hist_designator (tl tok) h s
      else bindE (hist_add cmd None h s) (\<lambda>(p, h1, s1). Inr ((p, []), h1, s1)))"

section \<open>The arrays as a log\<close>

text \<open>
  The well-formed states: the arrays have their size, the entries below \<open>h_curidx\<close> are strings of
  at most \<open>h_maxl\<close> characters, and their tags count up to \<open>h_curtag\<close>, modulo the width of
  \<^verbatim>\<open>int\<close>.
\<close>

definition hist_ok :: "hist_t \<Rightarrow> bool" where
  "hist_ok h \<longleftrightarrow>
     0 < h_nbuf h \<and> int (h_nbuf h) \<le> DEF_MAXHIST \<and> h_curidx h \<le> h_nbuf h \<and>
     length (h_cmds h) = h_nbuf h \<and> length (h_ctag h) = h_nbuf h \<and>
     wrap32 (h_curtag h) = h_curtag h \<and>
     (\<forall>i<h_curidx h. \<exists>c. h_cmds h ! i = Some c \<and> length c \<le> h_maxl h) \<and>
     (\<forall>i<h_curidx h. h_ctag h ! i = wrap32 (h_curtag h + 1 - int (h_curidx h) + int i))"

text \<open>The commands it holds, oldest first, and the tag of the one at a position.\<close>

definition hist_log :: "hist_t \<Rightarrow> string list" where
  "hist_log h = map the (take (h_curidx h) (h_cmds h))"

definition log_tag :: "hist_t \<Rightarrow> nat \<Rightarrow> int" where
  "log_tag h i = wrap32 (h_curtag h + 1 - int (h_curidx h) + int i)"

lemma length_hist_log [simp]: "hist_ok h \<Longrightarrow> length (hist_log h) = h_curidx h"
  by (simp add: hist_log_def hist_ok_def)

lemma cmd_at_log:
  assumes "hist_ok h" and "i < h_curidx h"
  shows "cmd_at h (int i) = Inr (hist_log h ! i)" and "length (hist_log h ! i) \<le> h_maxl h"
    and "h_ctag h ! i = log_tag h i"
  using assms by (auto simp: hist_ok_def cmd_at_def hist_log_def log_tag_def)

lemma hist_put_shape:
  assumes "hist_ok h"
  shows "hist_put pt h =
    h\<lparr>h_cmds := (if h_curidx h = h_nbuf h then tl (h_cmds h) @ [Some pt]
                  else (h_cmds h)[h_curidx h := Some pt]),
      h_ctag := (if h_curidx h = h_nbuf h then tl (h_ctag h) @ [wrap32 (h_curtag h + 1)]
                  else (h_ctag h)[h_curidx h := wrap32 (h_curtag h + 1)]),
      h_curtag := wrap32 (h_curtag h + 1),
      h_curidx := (if h_curidx h = h_nbuf h then h_nbuf h else h_curidx h + 1)\<rparr>"
  using assms by (auto simp: hist_put_def hist_ok_def Let_def list_update_append)

lemma wrap32_nested: "wrap32 (wrap32 a + 1 - b + c) = wrap32 (a + 1 - b + c)"
proof -
  have "wrap32 a + 1 - b + c = wrap32 a + (1 - b + c)" "a + 1 - b + c = a + (1 - b + c)" by simp_all
  then show ?thesis by (metis wrap32_wrap32(1))
qed

lemma hist_put_ok:
  assumes h: "hist_ok h" and pt: "length pt \<le> h_maxl h"
  shows "hist_ok (hist_put pt h)"
proof (cases "h_curidx h = h_nbuf h")
  case True
  with h have n: "0 < h_nbuf h" "length (h_cmds h) = h_nbuf h" "length (h_ctag h) = h_nbuf h"
    by (simp_all add: hist_ok_def)
  have cmds: "\<exists>c. (tl (h_cmds h) @ [Some pt]) ! i = Some c \<and> length c \<le> h_maxl h" if "i < h_nbuf h" for i
  proof (cases "i < h_nbuf h - 1")
    case True
    then have "(tl (h_cmds h) @ [Some pt]) ! i = h_cmds h ! Suc i" and "Suc i < h_nbuf h"
      using n by (simp_all add: nth_append nth_tl)
    with h \<open>h_curidx h = h_nbuf h\<close> show ?thesis by (simp add: hist_ok_def)
  next
    case False
    with that have "i = h_nbuf h - 1" by simp
    with n pt show ?thesis by (simp add: nth_append)
  qed
  have tags: "(tl (h_ctag h) @ [wrap32 (h_curtag h + 1)]) ! i =
      wrap32 (wrap32 (h_curtag h + 1) + 1 - int (h_nbuf h) + int i)" if "i < h_nbuf h" for i
  proof (cases "i < h_nbuf h - 1")
    case True
    then have "(tl (h_ctag h) @ [wrap32 (h_curtag h + 1)]) ! i = h_ctag h ! Suc i" and "Suc i < h_nbuf h"
      using n by (simp_all add: nth_append nth_tl)
    with h \<open>h_curidx h = h_nbuf h\<close> show ?thesis
      unfolding wrap32_nested by (simp add: hist_ok_def algebra_simps)
  next
    case False
    with that have "i = h_nbuf h - 1" by simp
    with n show ?thesis unfolding wrap32_nested by (simp add: nth_append of_nat_diff add.commute)
  qed
  show ?thesis
    unfolding hist_put_shape [OF h] using h True n cmds tags by (simp add: hist_ok_def)
next
  case False
  with h have n: "h_curidx h < h_nbuf h" by (simp add: hist_ok_def)
  have tags: "wrap32 (wrap32 (h_curtag h + 1) - int (h_curidx h) + int i) =
      wrap32 (h_curtag h + 1 - int (h_curidx h) + int i)" for i
    using wrap32_nested [of "h_curtag h + 1" "int (h_curidx h) + 1" "int i"]
    by (simp add: algebra_simps)
  have new: "wrap32 (wrap32 (h_curtag h + 1)) = wrap32 (h_curtag h + 1)" by simp
  from h n pt tags show ?thesis
    unfolding hist_put_shape [OF h] by (auto simp: hist_ok_def nth_list_update less_Suc_eq)
qed

lemma hist_put_log:
  assumes "hist_ok h"
  shows "hist_log (hist_put pt h) = lastn (h_nbuf h) (hist_log h @ [pt])"
proof (cases "h_curidx h = h_nbuf h")
  case True
  with assms have "length (h_cmds h) = h_nbuf h" "0 < h_nbuf h" by (simp_all add: hist_ok_def)
  with True show ?thesis
    unfolding hist_put_shape [OF assms]
    by (cases "h_cmds h") (simp_all add: hist_log_def lastn_def)
next
  case False
  with assms have "h_curidx h < h_nbuf h" "length (h_cmds h) = h_nbuf h" by (simp_all add: hist_ok_def)
  then show ?thesis
    unfolding hist_put_shape [OF assms]
    by (simp add: hist_log_def take_Suc_conv_app_nth)
qed

lemma hist_put_fields [simp]:
  "hist_ok h \<Longrightarrow> h_nbuf (hist_put pt h) = h_nbuf h" "hist_ok h \<Longrightarrow> h_maxl (hist_put pt h) = h_maxl h"
  "hist_ok h \<Longrightarrow> h_curtag (hist_put pt h) = wrap32 (h_curtag h + 1)"
  "hist_ok h \<Longrightarrow> h_curidx (hist_put pt h) = min (h_nbuf h) (h_curidx h + 1)"
  by (auto simp: hist_put_shape hist_ok_def)

interpretation hlog: bounded_log hist_ok h_nbuf hist_log hist_put "\<lambda>c h. length c \<le> h_maxl h"
  by unfold_locales (simp_all add: hist_put_ok hist_put_log, simp add: hist_ok_def)

section \<open>Every command keeps the history well-formed\<close>

lemma hist_resize_ok:
  assumes h: "hist_ok h" and n: "0 < n" "int n \<le> DEF_MAXHIST"
  shows "hist_ok (hist_resize junk n h)"
    and "hist_log (hist_resize junk n h) = lastn n (hist_log h)"
    and "h_maxl (hist_resize junk n h) = h_maxl h"
proof -
  define k where "k = h_curidx h - n"
  define m where "m = min n (h_curidx h)"
  have shape: "hist_resize junk n h = h\<lparr>h_cmds := take m (drop k (h_cmds h)) @ replicate (n - m) None,
      h_ctag := take m (drop k (h_ctag h)) @ map junk [m..<n], h_curidx := m, h_nbuf := n\<rparr>"
    by (auto simp: hist_resize_def Let_def k_def m_def min_def)
  have len: "length (h_cmds h) = h_nbuf h" "length (h_ctag h) = h_nbuf h" "h_curidx h \<le> h_nbuf h"
    using h by (simp_all add: hist_ok_def)
  have m: "m \<le> n" "k + m = h_curidx h" by (simp_all add: k_def m_def min_def)
  have idx: "k + i < h_curidx h" if "i < m" for i using that m by simp
  have cmds: "(take m (drop k (h_cmds h)) @ replicate (n - m) None) ! i = h_cmds h ! (k + i)"
    if "i < m" for i using that m len by (simp add: nth_append)
  have tags: "(take m (drop k (h_ctag h)) @ map junk [m..<n]) ! i = h_ctag h ! (k + i)"
    if "i < m" for i using that m len by (simp add: nth_append)
  have off: "1 - int (h_curidx h) + int (k + i) = 1 - int m + int i" for i using m by simp
  have tagv: "h_ctag h ! (k + i) = wrap32 (h_curtag h + 1 - int m + int i)" if "i < m" for i
  proof -
    have "h_ctag h ! (k + i) = wrap32 (h_curtag h + 1 - int (h_curidx h) + int (k + i))"
      using h idx [OF that] by (simp add: hist_ok_def)
    also have "h_curtag h + 1 - int (h_curidx h) + int (k + i) = h_curtag h + 1 - int m + int i"
      using off [of i] by simp
    finally show ?thesis .
  qed
  have some: "\<exists>c. h_cmds h ! (k + i) = Some c \<and> length c \<le> h_maxl h" if "i < m" for i
    using h idx [OF that] by (simp add: hist_ok_def)
  show "hist_ok (hist_resize junk n h)"
    unfolding shape hist_ok_def using n m len h cmds tags tagv some
    by (simp add: hist_ok_def)
  have "map the (take m (drop k (h_cmds h))) = drop k (map the (take (h_curidx h) (h_cmds h)))"
    using m by (simp add: drop_take drop_map take_map add.commute flip: m(2))
  then show "hist_log (hist_resize junk n h) = lastn n (hist_log h)"
    unfolding shape using len m by (simp add: hist_log_def lastn_def k_def)
  show "h_maxl (hist_resize junk n h) = h_maxl h" by (simp add: shape)
qed

lemma hist_setmax_ok:
  assumes "hist_ok h" and "hist_setmax junk n h s = (out, h', s')"
  shows "hist_ok h'" and "h_maxl h' = h_maxl h"
  using assms hist_resize_ok [OF assms(1), of "nat n" junk]
  by (auto simp: hist_setmax_def split: if_splits prod.splits)

text \<open>\<open>good_result\<close>: the state is well-formed and a returned command fits the buffers.\<close>

definition good_result :: "nat \<Rightarrow> string option \<Rightarrow> hist_t \<Rightarrow> bool" where
  "good_result maxl p h' \<longleftrightarrow> hist_ok h' \<and> h_maxl h' = maxl \<and> (\<forall>c. p = Some c \<longrightarrow> length c \<le> maxl)"

lemma hist_add_good:
  assumes "hist_ok h" and "hist_add a b h s = Inr (p, h', s')"
  shows "good_result (h_maxl h) p h'"
  using assms
  by (auto simp: hist_add_def Let_def good_result_def hist_put_ok split: if_splits prod.splits option.splits)

lemma repeat_good:
  assumes "hist_ok h" and "repeat i x h s = Inr ((p, out), h', s')"
  shows "good_result (h_maxl h) p h'"
  using assms hist_add_good [OF assms(1)]
  by (auto simp: repeat_def bindE_Inr_iff split: prod.splits)

lemma hist_designator_good:
  assumes "hist_ok h" and "hist_designator t h s = Inr ((p, out), h', s')"
  shows "good_result (h_maxl h) p h'"
proof -
  have same: "good_result (h_maxl h) None h" using assms(1) by (simp add: good_result_def)
  show ?thesis
    using assms(2) same repeat_good [OF assms(1)]
    by (auto simp: hist_designator_def Let_def bindE_Inr_iff split: if_splits option.splits)
qed

lemma hist_cmd_good:
  assumes "hist_ok h" and "hist_cmd junk tok h s = Inr ((p, out), h', s')"
  shows "good_result (h_maxl h) p h'"
proof -
  have same: "good_result (h_maxl h) None h" using assms(1) by (simp add: good_result_def)
  have setmax: "good_result (h_maxl h) None h1" if "hist_setmax junk n h s = (o1, h1, s1)" for n o1 h1 s1
    using hist_setmax_ok [OF assms(1) that] by (simp add: good_result_def)
  show ?thesis
    using assms(2) same setmax hist_add_good [OF assms(1)] hist_designator_good [OF assms(1)]
    by (auto simp: hist_cmd_def Let_def bindE_Inr_iff split: if_splits option.splits prod.splits)
qed

section \<open>What a session leaves and what the designators select\<close>

lemma hist_add_fits:
  assumes "hist_ok h" and "oom s = []" and "length a \<le> h_maxl h"
  shows "hist_add a b h s =
    (let pt = a @ (case b of None \<Rightarrow> [] | Some t \<Rightarrow> take (h_maxl h - length a) t)
     in Inr (Some pt, hist_put pt h, s))"
  using assms by (simp add: hist_add_def os_malloc_def Let_def hist_ok_def)

text \<open>A line that is no history command, and fits.\<close>

definition plain_line :: "nat \<Rightarrow> string \<Rightarrow> bool" where
  "plain_line maxl t \<longleftrightarrow>
     (let cmd = dropWhile is_blank t
      in cmd \<noteq> [] \<and> \<not> is_word ''h'' cmd \<and> \<not> is_word ''history'' cmd \<and> hd t \<noteq> CHR ''!'' \<and>
         length cmd \<le> maxl)"

lemma hist_cmd_plain:
  assumes "hist_ok h" and "oom s = []" and "plain_line (h_maxl h) t"
  shows "hist_cmd junk t h s =
    Inr ((Some (dropWhile is_blank t), []), hist_put (dropWhile is_blank t) h, s)"
  using assms by (auto simp: hist_cmd_def plain_line_def Let_def hist_add_fits)

fun hist_lines ::
  "(nat \<Rightarrow> int) \<Rightarrow> string list \<Rightarrow> hist_t \<Rightarrow> 'a os_scheme \<Rightarrow> fault + hist_t \<times> 'a os_scheme" where
  "hist_lines junk [] h s = Inr (h, s)"
| "hist_lines junk (t # ts) h s =
     bindE (hist_cmd junk t h s) (\<lambda>(r, h1, s1). hist_lines junk ts h1 s1)"

lemma hist_lines_fold:
  assumes "hist_ok h" and "oom s = []" and "\<forall>t\<in>set ts. plain_line (h_maxl h) t"
  shows "hist_lines junk ts h s = Inr (fold hist_put (map (dropWhile is_blank) ts) h, s)"
  using assms
proof (induction ts arbitrary: h)
  case (Cons t ts)
  then have "length (dropWhile is_blank t) \<le> h_maxl h" by (auto simp: plain_line_def Let_def)
  with Cons show ?case by (simp add: hist_cmd_plain hist_put_ok)
qed simp

text \<open>
  C19. The history refines a bounded log: a session of plain command lines, however long, never
  faults, and leaves the most recent lines, up to the capacity, in order.
\<close>

theorem history_keeps_last:
  assumes "hist_ok h" and "oom s = []" and "\<forall>t\<in>set ts. plain_line (h_maxl h) t"
  shows "\<exists>h'. hist_lines junk ts h s = Inr (h', s) \<and> hist_ok h' \<and> h_nbuf h' = h_nbuf h \<and>
    hist_log h' = lastn (h_nbuf h) (hist_log h @ map (dropWhile is_blank) ts)"
proof -
  let ?cs = "map (dropWhile is_blank) ts"
  have "\<forall>c\<in>set ?cs. length c \<le> h_maxl h" using assms(3) by (auto simp: plain_line_def Let_def)
  from hlog.run [OF assms(1) this] hist_lines_fold [OF assms] show ?thesis by blast
qed

text \<open>
  What a designator selects, over the log: the command recalled and the text that is appended to
  it. The bound of \<^verbatim>\<open>!-n\<close> is the one of the code, \<^verbatim>\<open>curidx>n\<close>, which leaves out the oldest entry: with
  as many commands as \<open>n\<close> says, the n-th last is there and is not selected.
\<close>

definition recall :: "hist_t \<Rightarrow> string \<Rightarrow> (string \<times> string) option" where
  "recall h t =
     (let l = hist_log h in
      if t \<noteq> [] \<and> hd t = CHR ''!'' then (if l = [] then None else Some (last l, tl t))
      else case scan_int t of
        Some n \<Rightarrow>
          (if t \<noteq> [] \<and> hd t = CHR ''-'' then
             (if 0 < - n \<and> - n < int (length l)
              then Some (l ! (length l - nat (- n)), dropWhile is_digit (tl t)) else None)
           else map_option (\<lambda>i. (l ! i, dropWhile is_digit t))
                  (find (\<lambda>i. log_tag h i = n) (rev [0..<length l])))
      | None \<Rightarrow>
          (let p = takeWhile (\<lambda>c. \<not> is_blank c) t
           in map_option (\<lambda>c. (c, drop (length p) t)) (find (\<lambda>c. take (length p) c = p) (rev l))))"

text \<open>
  The designators whose scan stays inside the arrays: an absolute number on a history that is not
  full, whose next slot does not hold that number by accident, or a relative one that is not 0
  or less.
\<close>

definition safe_designator :: "hist_t \<Rightarrow> string \<Rightarrow> bool" where
  "safe_designator h t \<longleftrightarrow>
     (case scan_int t of
        None \<Rightarrow> True
      | Some n \<Rightarrow>
          (if t \<noteq> [] \<and> hd t = CHR ''-'' then - 2147483648 < n \<and> n < 0
           else h_curidx h < h_nbuf h \<and> h_ctag h ! h_curidx h \<noteq> n))"

lemma scan_tag_find:
  assumes "hist_ok h" and "i < h_curidx h"
  shows "scan_tag i n h =
    (case find (\<lambda>i. log_tag h i = n) (rev [0..<Suc i]) of None \<Rightarrow> -1 | Some j \<Rightarrow> int j)"
  using assms(2)
proof (induction i)
  case 0
  then show ?case using cmd_at_log(3) [OF assms(1), of 0] by simp
next
  case (Suc i)
  then show ?case using cmd_at_log(3) [OF assms(1), of "Suc i"] by simp
qed

lemma getidx_find:
  assumes "hist_ok h" and "h_curidx h < h_nbuf h" and "h_ctag h ! h_curidx h \<noteq> n"
  shows "getidx h n =
    Inr (case find (\<lambda>i. log_tag h i = n) (rev [0..<h_curidx h]) of None \<Rightarrow> -1 | Some j \<Rightarrow> int j)"
  using assms scan_tag_find [OF assms(1), of "h_curidx h - 1" n]
  by (cases "h_curidx h") (simp_all add: getidx_def)

lemma find_prefix_find:
  assumes "hist_ok h" and "i \<le> h_curidx h"
  shows "find_prefix i p h = Inr (find (\<lambda>j. take (length p) (hist_log h ! j) = p) (rev [0..<i]))"
  using assms(2) by (induction i) (simp_all add: cmd_at_log(1) [OF assms(1)])

lemma find_nth: "find P (map f xs) = map_option f (find (P \<circ> f) xs)"
  by (induction xs) auto

lemma rev_nth_map: "rev l = map ((!) l) (rev [0..<length l])"
  by (simp add: rev_map [symmetric] map_nth)

lemma repeat_fits:
  assumes "hist_ok h" and "oom s = []" and "i < h_curidx h"
  shows "repeat (int i) x h s =
    (let pt = hist_log h ! i @ take (h_maxl h - length (hist_log h ! i)) x
     in Inr ((Some pt, [(''%s'' @ nl, [PStr pt])]), hist_put pt h, s))"
  using assms cmd_at_log [OF assms(1,3)] by (simp add: repeat_def hist_add_fits Let_def null_str_def)

lemma find_upt: "find P (rev [0..<n]) = Some j \<Longrightarrow> j < n"
  by (auto simp: find_Some_iff rev_nth)

text \<open>A history of two commands, for the witnesses.\<close>

definition hist0 :: hist_t where
  "hist0 = \<lparr>h_nbuf = 3, h_cmds = [Some ''list'', Some ''set tag'', None], h_ctag = [1, 2, 0],
            h_curidx = 2, h_curtag = 2, h_maxl = 1024, h_cliIdx = 0\<rparr>"

definition os0 :: os where
  "os0 = \<lparr>chans = (\<lambda>fd. closed_chan), sels = [], oom = []\<rparr>"

lemma hist0_ok: "hist_ok hist0"
  by (simp add: hist0_def hist_ok_def DEF_MAXHIST_def less_Suc_eq numeral_2_eq_2 numeral_3_eq_3)

theorem history_keeps_last_witness:
  "\<exists>h'. hist_lines (\<lambda>i. 0) ['' pop'', ''quit''] hist0 os0 = Inr (h', os0) \<and> hist_ok h' \<and>
    h_nbuf h' = 3 \<and> hist_log h' = [''set tag'', ''pop'', ''quit'']"
proof -
  have "\<exists>h'. hist_lines (\<lambda>i. 0) ['' pop'', ''quit''] hist0 os0 = Inr (h', os0) \<and> hist_ok h' \<and>
      h_nbuf h' = h_nbuf hist0 \<and>
      hist_log h' = lastn (h_nbuf hist0) (hist_log hist0 @ map (dropWhile is_blank) ['' pop'', ''quit''])"
    by (rule history_keeps_last [OF hist0_ok])
      (simp_all add: os0_def hist0_def plain_line_def is_blank_def is_word_def)
  then show ?thesis by (simp add: hist0_def hist_log_def lastn_def is_blank_def)
qed

text \<open>
  C31. The history designators \<^verbatim>\<open>!!\<close>, \<^verbatim>\<open>!n\<close>, \<^verbatim>\<open>!-n\<close> and \<^verbatim>\<open>!prefix\<close> select from the log the last
  command, the one with the number, the n-th last if there are more than \<open>n\<close>, and the last one with
  the prefix; the line recalled has the text after the designator appended, cut at the maximum
  length, is echoed and becomes the newest entry. A designator that selects nothing, \<^verbatim>\<open>!-n\<close> with exactly
  \<open>n\<close> commands among them, is reported. Designators that make the scan leave its array (\<^verbatim>\<open>!n\<close> on a full
  history, \<^verbatim>\<open>!-0\<close>) are not covered.
\<close>

theorem history_recall:
  assumes h: "hist_ok h" and s: "oom s = []" and t: "safe_designator h t"
  shows "hist_cmd junk (CHR ''!'' # t) h s =
    (case recall h t of
       None \<Rightarrow> Inr ((None, [invalid_spec]), h, s)
     | Some (c, x) \<Rightarrow>
         (let pt = c @ take (h_maxl h - length c) x
          in Inr ((Some pt, [(''%s'' @ nl, [PStr pt])]), hist_put pt h, s)))"
proof -
  have cmd: "hist_cmd junk (CHR ''!'' # t) h s = hist_designator t h s"
    by (simp add: hist_cmd_def is_blank_def is_word_def)
  have len: "length (hist_log h) = h_curidx h" using h by simp
  have bang: "hist_designator t h s = (if h_curidx h \<noteq> 0 then repeat (int (h_curidx h) - 1) (tl t) h s
      else Inr ((None, [invalid_spec]), h, s))" if "t \<noteq> [] \<and> hd t = CHR ''!''"
    using that by (simp add: hist_designator_def of_nat_diff Let_def)
  show ?thesis
  proof (cases "t \<noteq> [] \<and> hd t = CHR ''!''")
    case True
    show ?thesis
    proof (cases "h_curidx h = 0")
      case True
      then show ?thesis
        using len \<open>t \<noteq> [] \<and> hd t = CHR ''!''\<close> unfolding cmd by (simp add: bang recall_def)
    next
      case False
      then have "hist_log h \<noteq> []" using len by auto
      then have "last (hist_log h) = hist_log h ! (h_curidx h - 1)" using len by (simp add: last_conv_nth)
      then have R: "repeat (int (h_curidx h) - 1) (tl t) h s =
          (let pt = last (hist_log h) @ take (h_maxl h - length (last (hist_log h))) (tl t)
           in Inr ((Some pt, [(''%s'' @ nl, [PStr pt])]), hist_put pt h, s))"
        using repeat_fits [OF h s, of "h_curidx h - 1" "tl t"] False by (simp add: of_nat_diff)
      have "recall h t = Some (last (hist_log h), tl t)"
        using True \<open>hist_log h \<noteq> []\<close> by (simp add: recall_def)
      then show ?thesis unfolding cmd bang [OF True] using False R by simp
    qed
  next
    case False
    then have F: "(t \<noteq> [] \<and> hd t = CHR ''!'') = False" by simp
    show ?thesis
    proof (cases "scan_int t")
      case None
      let ?p = "takeWhile (\<lambda>c. \<not> is_blank c) t"
      let ?f = "find (\<lambda>j. take (length ?p) (hist_log h ! j) = ?p) (rev [0..<h_curidx h])"
      have "find (\<lambda>c. take (length ?p) c = ?p) (rev (hist_log h)) = map_option ((!) (hist_log h)) ?f"
        using len by (subst rev_nth_map) (simp add: find_nth comp_def)
      then show ?thesis
        using None find_upt [of _ "h_curidx h"]
        unfolding cmd
        by (cases ?f) (simp_all add: hist_designator_def recall_def Let_def F find_prefix_find [OF h]
            repeat_fits [OF h s])
    next
      case (Some n)
      show ?thesis
      proof (cases "t \<noteq> [] \<and> hd t = CHR ''-''")
        case True
        with t Some have n: "- 2147483648 < n" "n < 0" by (auto simp: safe_designator_def)
        then have w: "wrap32 (- n) = - n" by simp
        have cur: "int (h_curidx h) \<le> 1000" using h by (simp add: hist_ok_def DEF_MAXHIST_def)
        show ?thesis
        proof (cases "- n < int (h_curidx h)")
          case True
          define k where "k = h_curidx h - nat (- n)"
          have k: "int (h_curidx h) + n = int k" "k < h_curidx h" using True n by (auto simp: k_def)
          then have wk: "wrap32 (int k) = int k" using cur by simp
          show ?thesis
            using True \<open>t \<noteq> [] \<and> hd t = CHR ''-''\<close> Some n len w wk k unfolding cmd
            by (simp add: hist_designator_def recall_def F repeat_fits [OF h s] Let_def k_def [symmetric])
        next
          case f: False
          then show ?thesis
            using \<open>t \<noteq> [] \<and> hd t = CHR ''-''\<close> Some n len w unfolding cmd
            by (simp add: hist_designator_def recall_def Let_def F)
        qed
      next
        case nr: False
        let ?f = "find (\<lambda>i. log_tag h i = n) (rev [0..<h_curidx h])"
        from nr t Some have idx: "getidx h n = Inr (case ?f of None \<Rightarrow> -1 | Some j \<Rightarrow> int j)"
          by (intro getidx_find [OF h]) (auto simp: safe_designator_def)
        have nr': "(t \<noteq> [] \<and> hd t = CHR ''-'') = False" using nr by simp
        show ?thesis
          using Some idx len find_upt [of _ "h_curidx h"] unfolding cmd
          by (cases ?f) (simp_all add: hist_designator_def recall_def Let_def F nr' repeat_fits [OF h s])
      qed
    qed
  qed
qed

theorem history_recall_witness:
  "hist_cmd (\<lambda>i. 0) ''!1 all'' hist0 os0 =
     Inr ((Some ''list all'', [(''%s'' @ nl, [PStr ''list all''])]), hist_put ''list all'' hist0, os0)"
proof -
  have scan: "scan_int ''1 all'' = Some 1"
    by (simp add: scan_int_def is_space_def is_digit_def ord_c_def digits_val_def clamp32_def)
  have "hist_cmd (\<lambda>i. 0) (CHR ''!'' # ''1 all'') hist0 os0 =
    (case recall hist0 ''1 all'' of
       None \<Rightarrow> Inr ((None, [invalid_spec]), hist0, os0)
     | Some (c, x) \<Rightarrow>
         (let pt = c @ take (h_maxl hist0 - length c) x
          in Inr ((Some pt, [(''%s'' @ nl, [PStr pt])]), hist_put pt hist0, os0)))"
    by (rule history_recall [OF hist0_ok])
      (simp_all add: os0_def safe_designator_def scan, simp add: hist0_def)
  moreover have "recall hist0 ''1 all'' = Some (''list'', '' all'')"
    by (simp add: recall_def scan hist0_def hist_log_def log_tag_def is_digit_def ord_c_def
        numeral_2_eq_2)
  moreover have "h_maxl hist0 = 1024" by (simp add: hist0_def)
  ultimately show ?thesis by (simp add: Let_def)
qed

text \<open>
  \<^verbatim>\<open>!n\<close> on a full history reads the tag beyond the array: \<^verbatim>\<open>getidx\<close> starts its scan at
  \<^verbatim>\<open>curidx\<close>, which is then the size of the array.
\<close>

theorem history_full_overread:
  assumes "hist_ok h" and "h_curidx h = h_nbuf h"
    and "scan_int t = Some n" and "hd t \<noteq> CHR ''-''" and "hd t \<noteq> CHR ''!''"
  shows "hist_cmd junk (CHR ''!'' # t) h s = Inl OutOfBounds"
  using assms
  by (simp add: hist_cmd_def hist_designator_def is_blank_def is_word_def getidx_def)

theorem history_full_overread_witness:
  "hist_cmd (\<lambda>i. 0) ''!2'' (hist_put ''pop'' hist0) os0 = Inl OutOfBounds"
proof -
  have "hist_cmd (\<lambda>i. 0) (CHR ''!'' # ''2'') (hist_put ''pop'' hist0) os0 = Inl OutOfBounds"
  proof (rule history_full_overread)
    show "hist_ok (hist_put ''pop'' hist0)"
      by (rule hist_put_ok [OF hist0_ok]) (simp add: hist0_def)
    show "h_curidx (hist_put ''pop'' hist0) = h_nbuf (hist_put ''pop'' hist0)"
      using hist0_ok by (simp add: hist0_def)
    show "scan_int ''2'' = Some 2"
      by (simp add: scan_int_def is_space_def is_digit_def ord_c_def digits_val_def clamp32_def)
  qed simp_all
  then show ?thesis by simp
qed

end
