(* ===== verification/Trx_Rl.thy ===== *)
theory Trx_Rl imports Trx_Hist
begin

text \<open>
  \<^verbatim>\<open>trxmgrRl.c\<close>: the line editor of a console. The state is the C structure, with the edit buffer
  as the list of its \<^verbatim>\<open>maxl\<close> bytes. The sequences of the terminal database are parameters, as are
  \<^verbatim>\<open>tparm\<close>'s expansions. An operation yields its output, in order: strings for \<^verbatim>\<open>cliPutStr\<close> and
  calls of \<^verbatim>\<open>cliPrt\<close>; where it calls back into the console it yields that action, and
  \<open>rl_after_cmd\<close> is what follows the call. What the keys do to the line is shown in
  \<open>Trx_RlEdit\<close>.
\<close>

section \<open>The terminal\<close>

text \<open>The global sequences; \<^term>\<open>None\<close> is a null pointer.\<close>

record caps =
  xenl :: bool
  bol :: "string option"
  leftN :: "string option"
  rightN :: "string option"
  upN :: "string option"
  downN :: "string option"
  home :: "string option"
  kup :: "string option"
  kdown :: "string option"
  kleft :: "string option"
  kright :: "string option"
  kdel :: "string option"
  kbksp :: "string option"
  bip :: "string option"
  kwb :: "string option"
  cod :: "string option"
  kwf :: "string option"
  fw :: "string option"
  bw :: "string option"
  tparm :: "string \<Rightarrow> nat \<Rightarrow> string"

datatype out = Put string | Prt prt

text \<open>\<^verbatim>\<open>cliPutStr\<close> of a sequence, as it is or expanded by \<^verbatim>\<open>tparm\<close>.\<close>

definition put_cap :: "string option \<Rightarrow> fault + out list" where
  "put_cap c = (case c of None \<Rightarrow> Inl DeadPointer | Some s \<Rightarrow> Inr [Put s])"

definition put_parm :: "caps \<Rightarrow> string option \<Rightarrow> nat \<Rightarrow> fault + out list" where
  "put_parm cp c n = (case c of None \<Rightarrow> Inl DeadPointer | Some s \<Rightarrow> Inr [Put (tparm cp s n)])"

section \<open>The editor's state\<close>

record rl_t =
  r_maxh :: nat
  r_maxl :: nat
  prompt :: string
  notty :: bool
  r_width :: nat
  rbuf :: string
  curpos :: nat
  maxpos :: nat
  curseq :: "int list"
  seqidx :: nat
  r_cliIdx :: nat
  histoff :: int
  r_hist :: hist_t

definition NUL :: char where "NUL = CHR 0x00"

text \<open>The C string in a buffer, from a position on, and \<^verbatim>\<open>strlen\<close>, which needs a terminator.\<close>

definition cstr :: "string \<Rightarrow> string" where
  "cstr b = takeWhile (\<lambda>c. c \<noteq> NUL) b"

definition buf_strlen :: "string \<Rightarrow> fault + nat" where
  "buf_strlen b = (if NUL \<in> set b then Inr (length (cstr b)) else Inl OutOfBounds)"

text \<open>\<^verbatim>\<open>memmove\<close> and \<^verbatim>\<open>strcpy\<close> inside the buffer.\<close>

definition buf_move :: "nat \<Rightarrow> nat \<Rightarrow> nat \<Rightarrow> string \<Rightarrow> fault + string" where
  "buf_move dst src n b =
     (if length b < src + n \<or> length b < dst + n then Inl OutOfBounds
      else Inr (take dst b @ take n (drop src b) @ drop (dst + n) b))"

definition buf_strcpy :: "nat \<Rightarrow> string \<Rightarrow> string \<Rightarrow> fault + string" where
  "buf_strcpy dst s b =
     (if length b < dst + length s + 1 then Inl OutOfBounds
      else Inr (take dst b @ s @ [NUL] @ drop (dst + length s + 1) b))"

definition buf_set :: "nat \<Rightarrow> char \<Rightarrow> string \<Rightarrow> fault + string" where
  "buf_set i c b = (if length b \<le> i then Inl OutOfBounds else Inr (b[i := c]))"

text \<open>An operation on the state with its output, and two of them in sequence.\<close>

type_synonym rl_op = "rl_t \<Rightarrow> fault + rl_t \<times> out list"

definition seq_op :: "rl_op \<Rightarrow> rl_op \<Rightarrow> rl_op" where
  "seq_op f g rl = bindE (f rl) (\<lambda>(rl1, o1). bindE (g rl1) (\<lambda>(rl2, o2). Inr (rl2, o1 @ o2)))"

definition emit :: "(fault + out list) \<Rightarrow> rl_op" where
  "emit r rl = bindE r (\<lambda>os. Inr (rl, os))"

definition with_buf :: "(string \<Rightarrow> fault + string) \<Rightarrow> rl_op" where
  "with_buf f rl = bindE (f (rbuf rl)) (\<lambda>b. Inr (rl\<lparr>rbuf := b\<rparr>, []))"

definition upd :: "(rl_t \<Rightarrow> rl_t) \<Rightarrow> rl_op" where
  "upd f rl = Inr (f rl, [])"

text \<open>\<^verbatim>\<open>rl->maxpos=strlen(rl->buf)\<close>\<close>

definition measure_buf :: rl_op where
  "measure_buf rl = bindE (buf_strlen (rbuf rl)) (\<lambda>n. Inr (rl\<lparr>maxpos := n\<rparr>, []))"

section \<open>Display\<close>

definition buz :: "caps \<Rightarrow> rl_op" where
  "buz cp = emit (put_cap (bip cp))"

definition curboth :: "caps \<Rightarrow> int \<Rightarrow> rl_op" where
  "curboth cp n rl =
     (let w = r_width rl; new = nat (int (curpos rl) + n);
          curx = curpos rl mod w; cury = curpos rl div w; newx = new mod w; newy = new div w
      in bindE (if newy > cury then put_parm cp (downN cp) (newy - cury)
                else if cury > newy then put_parm cp (upN cp) (cury - newy) else Inr []) (\<lambda>o1.
         bindE (if newx > curx then put_parm cp (rightN cp) (newx - curx)
                else if curx > newx then put_parm cp (leftN cp) (curx - newx) else Inr []) (\<lambda>o2.
         Inr (rl\<lparr>curpos := new\<rparr>, o1 @ o2))))"

definition curleft :: "caps \<Rightarrow> nat \<Rightarrow> rl_op" where "curleft cp n = curboth cp (- int n)"
definition curright :: "caps \<Rightarrow> nat \<Rightarrow> rl_op" where "curright cp n = curboth cp (int n)"

text \<open>
  The display loop of \<^verbatim>\<open>showbuf\<close>: one screen line at a time; the byte after the piece is replaced
  by a terminator for the call and put back.
\<close>

function show_from :: "caps \<Rightarrow> nat \<Rightarrow> nat \<Rightarrow> string \<Rightarrow> nat \<Rightarrow> fault + out list" where
  "show_from cp w mx b i =
     (if i < mx \<and> w \<noteq> 0 then
        (let n = (if i + (w - i mod w) > mx then mx - i else w - i mod w) in
         if length b \<le> i + n then Inl OutOfBounds
         else bindE (if (i + n) mod w = 0 \<and> xenl cp
                     then bindE (put_cap (bol cp)) (\<lambda>o1. Inr (Put nl # o1)) else Inr []) (\<lambda>o2.
              bindE (show_from cp w mx b (i + n)) (\<lambda>o3.
                Inr (Put (cstr (take n (drop i b))) # o2 @ o3))))
      else Inr [])"
  by pat_completeness auto
termination
proof (relation "measure (\<lambda>(cp, w, mx, b, i). mx - i)", goal_cases)
  case (2 cp w mx b i)
  then have "i mod w < w" by simp
  with 2 show ?case by (auto split: if_splits)
qed simp

declare show_from.simps [simp del]

definition showbuf :: "caps \<Rightarrow> bool \<Rightarrow> rl_op" where
  "showbuf cp repos rl =
     (let pos = curpos rl in
      seq_op (emit (put_cap (cod cp)))
        (seq_op (\<lambda>r. emit (show_from cp (r_width r) (maxpos r) (rbuf r) (curpos r)) r)
          (seq_op (upd (\<lambda>r. r\<lparr>curpos := maxpos r\<rparr>))
            (if repos then (\<lambda>r. curleft cp (maxpos r - pos) r) else upd id))) rl)"

definition rl_resetState :: rl_op where
  "rl_resetState rl =
     bindE (buf_strcpy 0 (prompt rl) (replicate (r_maxl rl) NUL)) (\<lambda>b.
       Inr (rl\<lparr>rbuf := b, histoff := 0, curpos := length (prompt rl), maxpos := length (prompt rl)\<rparr>, []))"

definition rlShowPrompt :: "caps \<Rightarrow> bool \<Rightarrow> rl_op" where
  "rlShowPrompt cp reset =
     seq_op (if reset then rl_resetState else upd id)
       (seq_op (\<lambda>r. emit (bindE (buf_strlen (rbuf r)) (\<lambda>n. Inr [Put (cstr (rbuf r))])) r)
         (showbuf cp False))"

section \<open>Keys\<close>

definition UP_HISTORY :: int where "UP_HISTORY = 1001"
definition DOWN_HISTORY :: int where "DOWN_HISTORY = 1002"
definition CURSOR_LEFT :: int where "CURSOR_LEFT = 1003"
definition CURSOR_RIGHT :: int where "CURSOR_RIGHT = 1004"
definition DELETE :: int where "DELETE = 1005"
definition BACKSPACE :: int where "BACKSPACE = 1006"
definition KILLLINE :: int where "KILLLINE = 1007"
definition LINEDONE :: int where "LINEDONE = 1008"
definition KILLWORD :: int where "KILLWORD = 1009"
definition KILLTOBOL :: int where "KILLTOBOL = 1010"
definition KILLTOEOL :: int where "KILLTOEOL = 1011"
definition GOTOBOL :: int where "GOTOBOL = 1012"
definition GOTOEOL :: int where "GOTOEOL = 1013"
definition CLRSCR :: int where "CLRSCR = 1014"
definition REDRAW :: int where "REDRAW = 1015"
definition KILL_WORD_FORWARD :: int where "KILL_WORD_FORWARD = 1016"
definition WORD_BACKWARD :: int where "WORD_BACKWARD = 1017"
definition WORD_FORWARD :: int where "WORD_FORWARD = 1018"
definition COMPLETE_LINE :: int where "COMPLETE_LINE = 1019"
definition DEL :: int where "DEL = 1020"

lemmas key_defs = UP_HISTORY_def DOWN_HISTORY_def CURSOR_LEFT_def CURSOR_RIGHT_def DELETE_def
  BACKSPACE_def KILLLINE_def LINEDONE_def KILLWORD_def KILLTOBOL_def
  KILLTOEOL_def GOTOBOL_def GOTOEOL_def CLRSCR_def REDRAW_def
  KILL_WORD_FORWARD_def WORD_BACKWARD_def WORD_FORWARD_def COMPLETE_LINE_def DEL_def

definition ctrl :: "char \<Rightarrow> int" where
  "ctrl c = int (ord_c c mod 32)"

definition ctrls :: "(int \<times> int) list" where
  "ctrls =
     [(UP_HISTORY, ctrl CHR ''P''), (DOWN_HISTORY, ctrl CHR ''N''), (CURSOR_LEFT, ctrl CHR ''B''),
      (CURSOR_RIGHT, ctrl CHR ''F''), (DELETE, ctrl CHR ''D''), (BACKSPACE, ctrl CHR ''H''),
      (LINEDONE, ctrl CHR ''J''), (KILLWORD, ctrl CHR ''W''), (KILLTOBOL, ctrl CHR ''U''),
      (KILLTOEOL, ctrl CHR ''K''), (GOTOBOL, ctrl CHR ''A''), (GOTOEOL, ctrl CHR ''E''),
      (CLRSCR, ctrl CHR ''L''), (REDRAW, ctrl CHR ''R''), (DEL, 127), (LINEDONE, 13)]"

definition codes :: "int list" where
  "codes =
     [UP_HISTORY, DOWN_HISTORY, CURSOR_LEFT, CURSOR_RIGHT, DELETE, BACKSPACE, KILLWORD,
      KILL_WORD_FORWARD, WORD_BACKWARD, WORD_FORWARD, UP_HISTORY, DOWN_HISTORY, CURSOR_LEFT,
      GOTOBOL, CURSOR_RIGHT, GOTOEOL]"

definition seqs :: "caps \<Rightarrow> string option list" where
  "seqs cp =
     [kup cp, kdown cp, kleft cp, kright cp, kdel cp, kbksp cp, kwb cp, kwf cp, bw cp, fw cp,
      upN cp, downN cp, leftN cp, bol cp, rightN cp, cod cp]"

text \<open>
  The inner loop of \<^verbatim>\<open>getinput\<close>, over the input pending: \<open>j\<close> is compared with position \<open>j\<close> of the
  sequence alone. The result is whether the sequence ended at a match, and \<^verbatim>\<open>found\<close>.
\<close>

fun seq_scan :: "string \<Rightarrow> int list \<Rightarrow> nat \<Rightarrow> nat \<Rightarrow> bool \<Rightarrow> fault + bool \<times> bool" where
  "seq_scan sq [] n j found = Inr (False, found)"
| "seq_scan sq (c # cs) n j found =
     (if length sq < j then Inl OutOfBounds
      else if j < length sq \<and> int (ord_c (sq ! j)) = c then
        (let found1 = (found \<or> j = n - 1) in
         if j + 1 = length sq then Inr (True, found1) else seq_scan sq cs n (j + 1) found1)
      else seq_scan sq cs n (j + 1) found)"

text \<open>The outer loop: the code of the first binding whose sequence ends at a match.\<close>

fun bind_scan :: "(int \<times> string option) list \<Rightarrow> int list \<Rightarrow> bool \<Rightarrow> fault + int option \<times> bool" where
  "bind_scan [] cs found = Inr (None, found)"
| "bind_scan ((code, None) # bs) cs found = bind_scan bs cs found"
| "bind_scan ((code, Some sq) # bs) cs found =
     bindE (seq_scan sq cs (length cs) 0 found) (\<lambda>(hit, found1).
       if hit then Inr (Some code, found1) else bind_scan bs cs found1)"

text \<open>
  \<^verbatim>\<open>getinput\<close>: \<open>c\<close> is what \<^verbatim>\<open>cliGetchar\<close> returned. The result is a code, a character, 0 for
  nothing yet or a negative value.
\<close>

definition getinput :: "caps \<Rightarrow> int \<Rightarrow> rl_t \<Rightarrow> fault + int \<times> rl_t \<times> out list" where
  "getinput cp c rl =
     (if c \<le> 0 then Inr (c, rl, [])
      else case find (\<lambda>(code, k). k = c) ctrls of
        Some (code, k) \<Rightarrow> Inr (code, rl, [])
      | None \<Rightarrow>
          (if length (curseq rl) \<le> seqidx rl then Inl OutOfBounds
           else
             (let rl1 = rl\<lparr>curseq := (curseq rl)[seqidx rl := c], seqidx := seqidx rl + 1\<rparr>
              in bindE (bind_scan (zip codes (seqs cp)) (take (seqidx rl1) (curseq rl1)) False)
                   (\<lambda>(hit, found).
                      case hit of
                        Some code \<Rightarrow> Inr (code, rl1\<lparr>seqidx := 0\<rparr>, [])
                      | None \<Rightarrow>
                          if found then Inr (0, rl1, [])
                          else if is_print (char_of (nat c)) then Inr (c, rl1\<lparr>seqidx := 0\<rparr>, [])
                          else bindE (buz cp rl1) (\<lambda>(rl2, o1). Inr (c, rl2\<lparr>seqidx := 0\<rparr>, o1))))))"

section \<open>What the keys do\<close>

text \<open>\<^verbatim>\<open>while(P(buf[i])&&i>lo) i--;\<close> and \<^verbatim>\<open>while(P(buf[i])&&i<hi) i++;\<close>\<close>

fun scan_down :: "(char \<Rightarrow> bool) \<Rightarrow> string \<Rightarrow> nat \<Rightarrow> nat \<Rightarrow> nat" where
  "scan_down P b lo 0 = 0"
| "scan_down P b lo (Suc i) = (if P (b ! Suc i) \<and> lo < Suc i then scan_down P b lo i else Suc i)"

function scan_up :: "(char \<Rightarrow> bool) \<Rightarrow> string \<Rightarrow> nat \<Rightarrow> nat \<Rightarrow> nat" where
  "scan_up P b hi i = (if i < hi \<and> P (b ! i) then scan_up P b hi (i + 1) else i)"
  by pat_completeness auto
termination by (relation "measure (\<lambda>(P, b, hi, i). hi - i)") auto

declare scan_up.simps [simp del]

definition not_alnum :: "char \<Rightarrow> bool" where
  "not_alnum c \<longleftrightarrow> \<not> is_alnum c"

text \<open>The scans read up to \<open>maxpos\<close>, which has to lie inside the buffer.\<close>

definition checked :: "rl_op \<Rightarrow> rl_op" where
  "checked f rl = (if length (rbuf rl) \<le> maxpos rl then Inl OutOfBounds else f rl)"

definition key_history :: "caps \<Rightarrow> int \<Rightarrow> rl_op" where
  "key_history cp inc rl =
     bindE (hist_getcmd (r_hist rl) (histoff rl + inc)) (\<lambda>r.
       case r of
         None \<Rightarrow> buz cp rl
       | Some p \<Rightarrow>
           seq_op (curleft cp (curpos rl - length (prompt rl)))
             (seq_op (with_buf (buf_strcpy (length (prompt rl)) p))
               (seq_op measure_buf
                 (seq_op (showbuf cp False)
                   (upd (\<lambda>r. r\<lparr>curpos := maxpos r, histoff := histoff r + inc\<rparr>))))) rl)"

text \<open>Remove the character under the cursor.\<close>

definition del_at_cursor :: "caps \<Rightarrow> rl_op" where
  "del_at_cursor cp =
     seq_op (\<lambda>r. with_buf (buf_move (curpos r) (curpos r + 1) (r_maxl r - curpos r - 1)) r)
       (seq_op (upd (\<lambda>r. r\<lparr>maxpos := maxpos r - 1\<rparr>)) (showbuf cp True))"

definition key_left :: "caps \<Rightarrow> bool \<Rightarrow> rl_op" where
  "key_left cp erase rl =
     (if curpos rl = length (prompt rl) then buz cp rl
      else seq_op (curleft cp 1) (if erase then del_at_cursor cp else upd id) rl)"

definition key_delete :: "caps \<Rightarrow> rl_op" where
  "key_delete cp rl = (if curpos rl = maxpos rl then buz cp rl else del_at_cursor cp rl)"

definition key_right :: "caps \<Rightarrow> rl_op" where
  "key_right cp rl = (if curpos rl = maxpos rl then buz cp rl else curright cp 1 rl)"

definition key_killline :: "caps \<Rightarrow> rl_op" where
  "key_killline cp rl =
     seq_op (curleft cp (curpos rl - length (prompt rl)))
       (seq_op (upd (\<lambda>r. r\<lparr>maxpos := length (prompt r)\<rparr>))
         (seq_op (with_buf (buf_set (length (prompt rl)) NUL)) (showbuf cp True))) rl"

definition word_start :: "rl_t \<Rightarrow> nat" where
  "word_start rl =
     (let lo = length (prompt rl);
          i1 = scan_down not_alnum (rbuf rl) lo (curpos rl - 1);
          i2 = scan_down is_alnum (rbuf rl) lo i1
      in if i2 < maxpos rl \<and> not_alnum (rbuf rl ! i2) then i2 + 1 else i2)"

definition key_killword :: "caps \<Rightarrow> rl_op" where
  "key_killword cp rl =
     (if curpos rl = length (prompt rl) then buz cp rl
      else checked (\<lambda>rl.
        let i = word_start rl in
        seq_op (with_buf (buf_move i (curpos rl) (r_maxl rl - curpos rl)))
          (seq_op (curleft cp (curpos rl - i)) (seq_op measure_buf (showbuf cp True))) rl) rl)"

definition key_killtobol :: "caps \<Rightarrow> rl_op" where
  "key_killtobol cp rl =
     seq_op (with_buf (buf_move (length (prompt rl)) (curpos rl) (r_maxl rl - curpos rl)))
       (seq_op (curleft cp (curpos rl - length (prompt rl)))
         (seq_op measure_buf (showbuf cp True))) rl"

definition key_killtoeol :: "caps \<Rightarrow> rl_op" where
  "key_killtoeol cp rl =
     seq_op (with_buf (buf_set (curpos rl) NUL)) (seq_op measure_buf (showbuf cp True)) rl"

definition key_gotobol :: "caps \<Rightarrow> rl_op" where
  "key_gotobol cp rl = curleft cp (curpos rl - length (prompt rl)) rl"

definition key_gotoeol :: "caps \<Rightarrow> rl_op" where
  "key_gotoeol cp rl = curright cp (maxpos rl - curpos rl) rl"

definition key_clrscr :: "caps \<Rightarrow> rl_op" where
  "key_clrscr cp rl =
     (case home cp of
        None \<Rightarrow> buz cp rl
      | Some hm \<Rightarrow>
          (let i = curpos rl in
           seq_op (emit (Inr [Put hm]))
             (seq_op (upd (\<lambda>r. r\<lparr>curpos := 0\<rparr>))
               (seq_op (showbuf cp False)
                 (seq_op (upd (\<lambda>r. r\<lparr>curpos := maxpos r\<rparr>))
                   (\<lambda>r. curleft cp (maxpos r - i) r)))) rl))"

definition key_word_forward :: "caps \<Rightarrow> rl_op" where
  "key_word_forward cp rl =
     (if curpos rl = maxpos rl then buz cp rl
      else checked (\<lambda>rl.
        let i1 = scan_up not_alnum (rbuf rl) (maxpos rl) (curpos rl);
            i2 = scan_up is_alnum (rbuf rl) (maxpos rl) i1
        in curright cp (i2 - curpos rl) rl) rl)"

text \<open>The last loop of \<^verbatim>\<open>WORD_BACKWARD\<close> has no upper bound.\<close>

definition key_word_backward :: "caps \<Rightarrow> rl_op" where
  "key_word_backward cp rl =
     (if curpos rl = length (prompt rl) then buz cp rl
      else checked (\<lambda>rl.
        let lo = length (prompt rl);
            i0 = (if lo < curpos rl then curpos rl - 1 else curpos rl);
            i1 = scan_down not_alnum (rbuf rl) lo i0;
            i2 = scan_down is_alnum (rbuf rl) lo i1;
            i3 = (if lo < i2 then scan_up not_alnum (rbuf rl) (length (rbuf rl)) i2 else i2)
        in if length (rbuf rl) \<le> i3 then Inl OutOfBounds
           else curboth cp (- (int (curpos rl) - int i3)) rl) rl)"

definition key_killword_forward :: "caps \<Rightarrow> rl_op" where
  "key_killword_forward cp rl =
     (if curpos rl = maxpos rl then buz cp rl
      else checked (\<lambda>rl.
        let i1 = scan_up not_alnum (rbuf rl) (maxpos rl) (curpos rl);
            i2 = scan_up is_alnum (rbuf rl) (maxpos rl) i1;
            i3 = scan_up not_alnum (rbuf rl) (maxpos rl) i2;
            i4 = (if i3 < maxpos rl \<and> is_alnum (rbuf rl ! i3) then i3 - 1 else i3)
        in seq_op (with_buf (buf_move (curpos rl) i4 (r_maxl rl - i4)))
             (seq_op measure_buf (showbuf cp True)) rl) rl)"

definition key_insert :: "caps \<Rightarrow> char \<Rightarrow> rl_op" where
  "key_insert cp c rl =
     (if maxpos rl = r_maxl rl then buz cp rl
      else
        seq_op (with_buf (buf_move (curpos rl + 1) (curpos rl) (r_maxl rl - curpos rl - 1)))
          (seq_op (with_buf (buf_set (curpos rl) c))
            (seq_op (upd (\<lambda>r. r\<lparr>maxpos := maxpos r + 1\<rparr>))
              (seq_op (showbuf cp True) (curright cp 1)))) rl)"

text \<open>The keys that only edit: every case of the switch but the line's end and the default.\<close>

definition edit_key :: "caps \<Rightarrow> int \<Rightarrow> rl_op" where
  "edit_key cp i =
     (if i = UP_HISTORY then key_history cp 1
      else if i = DOWN_HISTORY then key_history cp (-1)
      else if i = BACKSPACE \<or> i = DEL then key_left cp True
      else if i = CURSOR_LEFT then key_left cp False
      else if i = DELETE then key_delete cp
      else if i = CURSOR_RIGHT then key_right cp
      else if i = KILLLINE then key_killline cp
      else if i = KILLWORD then key_killword cp
      else if i = KILLTOBOL then key_killtobol cp
      else if i = KILLTOEOL then key_killtoeol cp
      else if i = GOTOBOL then key_gotobol cp
      else if i = GOTOEOL then key_gotoeol cp
      else if i = CLRSCR then key_clrscr cp
      else if i = REDRAW then upd id
      else if i = WORD_FORWARD then key_word_forward cp
      else if i = WORD_BACKWARD then key_word_backward cp
      else if i = KILL_WORD_FORWARD then key_killword_forward cp
      else if i = 0 then upd id
      else key_insert cp (char_of (nat i)))"

text \<open>
  What the editor asks of the console: nothing, to close the connection, or to run a command
  line (\<^verbatim>\<open>cliNewCmd\<close>).
\<close>

datatype rl_act = Stay | Close | Line string

text \<open>
  \<^verbatim>\<open>LINEDONE\<close>, up to the call of \<^verbatim>\<open>cliNewCmd\<close>, and \<open>rl_after_cmd\<close>, which follows the call.
\<close>

definition key_linedone ::
  "caps \<Rightarrow> (nat \<Rightarrow> int) \<Rightarrow> rl_t \<Rightarrow> 'a os_scheme \<Rightarrow> fault + rl_act \<times> rl_t \<times> out list \<times> 'a os_scheme" where
  "key_linedone cp junk rl s =
     bindE (curright cp (maxpos rl - curpos rl) rl) (\<lambda>(rl1, o1).
       bindE (hist_cmd junk (cstr (drop (length (prompt rl1)) (rbuf rl1))) (r_hist rl1) s)
         (\<lambda>((p, prts), h, s1).
           let rl2 = rl1\<lparr>r_hist := h\<rparr>;
               o2 = o1 @ [Put [CHR 0x0D, CHR 0x0A]] @ map Prt prts
           in case p of
                Some c \<Rightarrow> bindE (buf_strcpy (length (prompt rl2)) c (rbuf rl2))
                            (\<lambda>b. Inr (Line c, rl2\<lparr>rbuf := b\<rparr>, o2, s1))
              | None \<Rightarrow> bindE (seq_op rl_resetState (rlShowPrompt cp False) rl2)
                          (\<lambda>(rl3, o3). Inr (Stay, rl3, o2 @ o3, s1))))"

definition rl_after_cmd :: "caps \<Rightarrow> bool \<Rightarrow> rl_op" where
  "rl_after_cmd cp again =
     (if again then seq_op rl_resetState (rlShowPrompt cp False) else rl_resetState)"

definition rl_newChar ::
  "caps \<Rightarrow> (nat \<Rightarrow> int) \<Rightarrow> int \<Rightarrow> rl_t \<Rightarrow> 'a os_scheme \<Rightarrow>
   fault + rl_act \<times> rl_t \<times> out list \<times> 'a os_scheme" where
  "rl_newChar cp junk c rl s =
     bindE (getinput cp c rl) (\<lambda>(i, rl1, o1).
       if i = LINEDONE then
         bindE (key_linedone cp junk rl1 s) (\<lambda>(act, rl2, o2, s2). Inr (act, rl2, o1 @ o2, s2))
       else if i = -1 then Inr (Close, rl1, o1, s)
       else bindE (edit_key cp i rl1) (\<lambda>(rl2, o2). Inr (Stay, rl2, o1 @ o2, s)))"

section \<open>Opening a console\<close>

text \<open>
  The sequences \<^verbatim>\<open>rl_init\<close> takes from the terminal database the first time: the constants, then
  the basic ones up to the first that is missing, then the optional ones.
\<close>

definition no_caps :: "caps \<Rightarrow> caps" where
  "no_caps db =
     \<lparr>xenl = False, bol = None, leftN = None, rightN = None, upN = None, downN = None, home = None,
      kup = None, kdown = None, kleft = None, kright = None, kdel = None, kbksp = None,
      bip = Some [CHR 0x07], kwb = Some [CHR 0x1B, CHR 0x7F], cod = None,
      kwf = Some [CHR 0x1B, CHR ''d''], fw = Some [CHR 0x1B, CHR ''f''],
      bw = Some [CHR 0x1B, CHR ''b''], tparm = tparm db\<rparr>"

definition term_caps :: "caps \<Rightarrow> bool \<times> caps" where
  "term_caps db =
     (let c0 = no_caps db;
          c1 = c0\<lparr>upN := upN db\<rparr>;
          c2 = c1\<lparr>downN := downN db\<rparr>;
          c3 = c2\<lparr>leftN := leftN db\<rparr>;
          c4 = c3\<lparr>bol := bol db\<rparr>;
          c5 = c4\<lparr>rightN := rightN db\<rparr>;
          c6 = c5\<lparr>cod := cod db\<rparr>
      in if upN db = None then (False, c1)
         else if downN db = None then (False, c2)
         else if leftN db = None then (False, c3)
         else if bol db = None then (False, c4)
         else if rightN db = None then (False, c5)
         else if cod db = None then (False, c6)
         else (True, c6\<lparr>xenl := xenl db, home := home db, kup := kup db, kdown := kdown db,
                        kleft := kleft db, kright := kright db, kdel := kdel db, kbksp := kbksp db\<rparr>))"

text \<open>
  The result: the handle, or \<^term>\<open>None\<close> for a null one, its output, and the global sequences
  (\<^term>\<open>None\<close> while they are not set up). \<open>db\<close> is the terminal database, \<^term>\<open>None\<close> when
  \<^verbatim>\<open>setupterm\<close> fails. A terminal that lacks a basic sequence leaves the handle without prompt and
  its buffer never set, empty here.
\<close>

definition rl_init ::
  "(nat \<Rightarrow> int) \<Rightarrow> caps option \<Rightarrow> caps option \<Rightarrow> nat \<Rightarrow> 'a os_scheme \<Rightarrow>
   fault + (rl_t option \<times> out list) \<times> caps option \<times> 'a os_scheme" where
  "rl_init junk db cur idx s =
     (case os_malloc s of (ok, s1) \<Rightarrow>
        if \<not> ok then Inl DeadPointer
        else bindE (hist_init junk (int DEF_HIST) DEF_LENGTH idx s1) (\<lambda>(prts, h, s2).
          case os_malloc s2 of (ok2, s3) \<Rightarrow>
            if \<not> ok2 then Inr ((None, map Prt prts), cur, s3)
            else
              (let rl = \<lparr>r_maxh = DEF_HIST, r_maxl = DEF_LENGTH, prompt = ''>'', notty = False,
                         r_width = 80, rbuf = [], curpos = 0, maxpos = 0, curseq = replicate 10 0,
                         seqidx = 0, r_cliIdx = idx, histoff = 0, r_hist = h\<rparr>;
                   start = (\<lambda>cp. bindE (rlShowPrompt cp True rl) (\<lambda>(rl1, o1).
                              Inr ((Some rl1, map Prt prts @ o1), Some cp, s3)))
               in case cur of
                    Some cp \<Rightarrow> start cp
                  | None \<Rightarrow>
                      (case db of
                         None \<Rightarrow> Inl Exit
                       | Some d \<Rightarrow>
                           (case term_caps d of (basics, cp) \<Rightarrow>
                              if \<not> basics
                              then Inr ((Some (rl\<lparr>notty := True\<rparr>), map Prt prts), Some cp, s3)
                              else start cp)))))"

definition rl_shutdown :: "rl_t option \<Rightarrow> rl_t option" where
  "rl_shutdown rl = (case rl of None \<Rightarrow> None | Some r \<Rightarrow> None)"

end
