(* ===== verification/Trx_RlEdit.thy ===== *)
theory Trx_RlEdit imports Trx_Rl
begin

text \<open>
  The line editor of \<open>Trx_Rl\<close> refines a text with a cursor: every editing key, on its display and
  its buffer of bytes, has the effect of a function on the text before and after the cursor. From
  this follow the delivery of typed lines to the console, and where the buffer is overrun.
\<close>

section \<open>What an operation does to the state\<close>

text \<open>\<open>does f rl rl'\<close>: the operation ends without fault in \<open>rl'\<close>, whatever it displays.\<close>

definition does :: "rl_op \<Rightarrow> rl_t \<Rightarrow> rl_t \<Rightarrow> bool" where
  "does f rl rl' \<longleftrightarrow> (\<exists>o1. f rl = Inr (rl', o1))"

named_theorems does_intro "the effect of an operation, by its syntax"

lemma does_seq [does_intro]: "does f rl rl1 \<Longrightarrow> does g rl1 rl2 \<Longrightarrow> does (seq_op f g) rl rl2"
  by (auto simp: does_def seq_op_def)

lemma does_upd [does_intro]: "rl' = f rl \<Longrightarrow> does (upd f) rl rl'"
  by (simp add: does_def upd_def)

lemma does_emit [does_intro]: "rl' = rl \<Longrightarrow> r = Inr os \<Longrightarrow> does (emit r) rl rl'"
  by (simp add: does_def emit_def)

lemma does_with_buf [does_intro]:
  "f (rbuf rl) = Inr b \<Longrightarrow> rl' = rl\<lparr>rbuf := b\<rparr> \<Longrightarrow> does (with_buf f) rl rl'"
  by (simp add: does_def with_buf_def)

lemma does_measure [does_intro]:
  "buf_strlen (rbuf rl) = Inr n \<Longrightarrow> rl' = rl\<lparr>maxpos := n\<rparr> \<Longrightarrow> does measure_buf rl rl'"
  by (simp add: does_def measure_buf_def)

lemma does_lambda: "does (f rl) rl rl' \<Longrightarrow> does (\<lambda>r. f r r) rl rl'"
  by (simp add: does_def)

text \<open>A terminal with all the sequences the editor needs.\<close>

definition full_caps :: "caps \<Rightarrow> bool" where
  "full_caps cp \<longleftrightarrow> bol cp \<noteq> None \<and> leftN cp \<noteq> None \<and> rightN cp \<noteq> None \<and> upN cp \<noteq> None \<and>
     downN cp \<noteq> None \<and> cod cp \<noteq> None \<and> bip cp \<noteq> None"

lemma does_buz: "full_caps cp \<Longrightarrow> does (buz cp) rl rl"
  by (auto simp: full_caps_def buz_def does_def emit_def put_cap_def)

lemma put_parm_ok: "c \<noteq> None \<Longrightarrow> \<exists>o1. put_parm cp c n = Inr o1"
  by (auto simp: put_parm_def)

lemma does_curboth:
  assumes "full_caps cp" and new: "new = nat (int (curpos rl) + n)"
  shows "does (curboth cp n) rl (rl\<lparr>curpos := new\<rparr>)"
proof -
  let ?w = "r_width rl"
  let ?v = "if new div ?w > curpos rl div ?w then put_parm cp (downN cp) (new div ?w - curpos rl div ?w)
            else if curpos rl div ?w > new div ?w then put_parm cp (upN cp) (curpos rl div ?w - new div ?w)
            else Inr []"
  let ?h = "if new mod ?w > curpos rl mod ?w then put_parm cp (rightN cp) (new mod ?w - curpos rl mod ?w)
            else if curpos rl mod ?w > new mod ?w then put_parm cp (leftN cp) (curpos rl mod ?w - new mod ?w)
            else Inr []"
  have "\<exists>o1. ?v = Inr o1" "\<exists>o2. ?h = Inr o2"
    using assms(1) put_parm_ok by (simp_all add: full_caps_def)
  then obtain o1 o2 where "?v = Inr o1" "?h = Inr o2" by blast
  then show ?thesis by (simp only: does_def curboth_def Let_def new [symmetric] bindE_simps) simp
qed

lemma does_curleft: "full_caps cp \<Longrightarrow> does (curleft cp n) rl (rl\<lparr>curpos := curpos rl - n\<rparr>)"
  unfolding curleft_def by (rule does_curboth) simp_all

lemma does_curright: "full_caps cp \<Longrightarrow> does (curright cp n) rl (rl\<lparr>curpos := curpos rl + n\<rparr>)"
  unfolding curright_def by (rule does_curboth) simp_all

lemma show_from_ok:
  assumes "full_caps cp" and "mx < length b"
  shows "\<exists>o1. show_from cp w mx b i = Inr o1"
  using assms
proof (induction cp w mx b i rule: show_from.induct)
  case (1 cp w mx b i)
  show ?case
  proof (cases "i < mx \<and> w \<noteq> 0")
    case True
    define n where "n = (if i + (w - i mod w) > mx then mx - i else w - i mod w)"
    have n: "\<not> length b \<le> i + n" using True "1.prems" by (auto simp: n_def)
    obtain b' where "bol cp = Some b'" using "1.prems"(1) by (auto simp: full_caps_def)
    then have "\<exists>o2. (if (i + n) mod w = 0 \<and> xenl cp
        then bindE (put_cap (bol cp)) (\<lambda>o1. Inr (Put nl # o1)) else Inr []) = Inr o2"
      by (simp add: put_cap_def)
    then obtain o2 where o2: "(if (i + n) mod w = 0 \<and> xenl cp
        then bindE (put_cap (bol cp)) (\<lambda>o1. Inr (Put nl # o1)) else Inr []) = Inr o2" ..
    obtain o3 where o3: "show_from cp w mx b (i + n) = Inr o3"
      using "1.IH" [OF True n_def n] "1.prems" o2 by blast
    show ?thesis
      by (subst show_from.simps)
        (simp only: True if_True Let_def n_def [symmetric] n if_False o2 o3 bindE_simps, simp)
  next
    case False
    then show ?thesis by (subst show_from.simps) (simp only: if_False, simp)
  qed
qed

lemma does_showbuf:
  assumes "full_caps cp" and "maxpos rl < length (rbuf rl)" and "curpos rl \<le> maxpos rl"
  shows "does (showbuf cp repos) rl (rl\<lparr>curpos := if repos then curpos rl else maxpos rl\<rparr>)"
proof -
  obtain c where "put_cap (cod cp) = Inr c"
    using assms(1) by (auto simp: full_caps_def put_cap_def)
  moreover obtain o1 where "show_from cp (r_width rl) (maxpos rl) (rbuf rl) (curpos rl) = Inr o1"
    using show_from_ok [OF assms(1,2)] by blast
  moreover have "does (\<lambda>r. curleft cp (maxpos r - curpos rl) r) (rl\<lparr>curpos := maxpos rl\<rparr>) rl"
    using does_curleft [OF assms(1), of "maxpos rl - curpos rl" "rl\<lparr>curpos := maxpos rl\<rparr>"] assms(3)
    by (auto simp: does_def)
  ultimately show ?thesis
    unfolding showbuf_def does_def Let_def
    by (auto simp: seq_op_def emit_def upd_def)
qed

section \<open>The line being edited\<close>

text \<open>
  \<open>shape rl l r\<close>: the buffer holds the prompt, then the line, of which \<open>l\<close> is before the cursor
  and \<open>r\<close> from the cursor on, then a terminator.
\<close>

definition shape :: "rl_t \<Rightarrow> string \<Rightarrow> string \<Rightarrow> bool" where
  "shape rl l r \<longleftrightarrow>
     (\<exists>t. rbuf rl = prompt rl @ l @ r @ NUL # t) \<and> length (rbuf rl) = r_maxl rl \<and>
     curpos rl = length (prompt rl) + length l \<and>
     maxpos rl = length (prompt rl) + length l + length r \<and>
     NUL \<notin> set (prompt rl) \<and> NUL \<notin> set l \<and> NUL \<notin> set r"

lemma shapeE:
  assumes "shape rl l r"
  obtains t where "rbuf rl = prompt rl @ l @ r @ NUL # t"
    and "length (prompt rl @ l @ r @ NUL # t) = r_maxl rl"
    and "curpos rl = length (prompt rl) + length l"
    and "maxpos rl = length (prompt rl) + length l + length r"
    and "NUL \<notin> set (prompt rl)" and "NUL \<notin> set l" and "NUL \<notin> set r"
  using assms by (auto simp: shape_def)

text \<open>The state after an edit: buffer, cursor and length replaced.\<close>

definition edited :: "rl_t \<Rightarrow> string \<Rightarrow> nat \<Rightarrow> nat \<Rightarrow> rl_t" where
  "edited rl b c m = rl\<lparr>rbuf := b, curpos := c, maxpos := m\<rparr>"

definition edits :: "rl_op \<Rightarrow> rl_t \<Rightarrow> string \<Rightarrow> string \<Rightarrow> bool" where
  "edits f rl l' r' \<longleftrightarrow> (\<exists>b c m. does f rl (edited rl b c m) \<and> shape (edited rl b c m) l' r')"

lemma edited_simps [simp]:
  "rbuf (edited rl b c m) = b" "curpos (edited rl b c m) = c" "maxpos (edited rl b c m) = m"
  "prompt (edited rl b c m) = prompt rl" "r_maxl (edited rl b c m) = r_maxl rl"
  "r_hist (edited rl b c m) = r_hist rl" "histoff (edited rl b c m) = histoff rl"
  "curseq (edited rl b c m) = curseq rl" "seqidx (edited rl b c m) = seqidx rl"
  "r_cliIdx (edited rl b c m) = r_cliIdx rl" "r_width (edited rl b c m) = r_width rl"
  by (simp_all add: edited_def)

lemma strlen_shape:
  assumes "NUL \<notin> set p"
  shows "buf_strlen (p @ NUL # t) = Inr (length p)"
proof -
  have "cstr (p @ NUL # t) = p" using assms by (induction p) (auto simp: cstr_def)
  then show ?thesis by (simp add: buf_strlen_def)
qed

section \<open>Every key as an operation on the line\<close>

lemma edited_id: "edited rl (rbuf rl) (curpos rl) (maxpos rl) = rl"
  by (simp add: edited_def)

lemma edited_edited [simp]: "edited (edited rl b c m) b' c' m' = edited rl b' c' m'"
  by (simp add: edited_def)

lemma edits_same: "does f rl rl \<Longrightarrow> shape rl l r \<Longrightarrow> edits f rl l r"
  unfolding edits_def by (metis edited_id)

lemma edits_seq:
  assumes "edits f rl l1 r1" and "\<And>rl1. shape rl1 l1 r1 \<Longrightarrow> prompt rl1 = prompt rl \<Longrightarrow> edits g rl1 l2 r2"
  shows "edits (seq_op f g) rl l2 r2"
proof -
  obtain b c m where 1: "does f rl (edited rl b c m)" "shape (edited rl b c m) l1 r1"
    using assms(1) by (auto simp: edits_def)
  obtain b' c' m' where "does g (edited rl b c m) (edited rl b' c' m')" "shape (edited rl b' c' m') l2 r2"
    using assms(2) [OF 1(2)] by (auto simp: edits_def)
  with 1(1) show ?thesis unfolding edits_def by (blast intro: does_seq)
qed

lemma edits_move:
  assumes "full_caps cp" and "shape rl l r" and "l @ r = l' @ r'"
    and "int (length l') = int (length l) + n"
  shows "edits (curboth cp n) rl l' r'"
proof -
  let ?c = "length (prompt rl) + length l'"
  have c: "?c = nat (int (curpos rl) + n)" using assms(2,4) by (auto elim!: shapeE)
  have "length l + length r = length l' + length r'" using arg_cong [OF assms(3), of length] by simp
  moreover have "set l \<union> set r = set l' \<union> set r'" using arg_cong [OF assms(3), of set] by simp
  moreover obtain t where t: "rbuf rl = prompt rl @ l @ r @ NUL # t"
    using assms(2) by (auto elim: shapeE)
  then have "rbuf rl = prompt rl @ l' @ r' @ NUL # t" using assms(3) by (metis append.assoc)
  then have "\<exists>t. rbuf rl = prompt rl @ l' @ r' @ NUL # t" ..
  ultimately have "shape (edited rl (rbuf rl) ?c (maxpos rl)) l' r'"
    using assms(2) unfolding shape_def edited_simps by (metis Un_iff add.assoc)
  moreover have "does (curboth cp n) rl (edited rl (rbuf rl) ?c (maxpos rl))"
    using does_curboth [OF assms(1) c] by (simp add: edited_def)
  ultimately show ?thesis unfolding edits_def by blast
qed

lemma edits_curleft:
  "full_caps cp \<Longrightarrow> shape rl (l' @ x) r \<Longrightarrow> n = length x \<Longrightarrow> edits (curleft cp n) rl l' (x @ r)"
  unfolding curleft_def by (rule edits_move [where l = "l' @ x"]) simp_all

lemma edits_curright:
  "full_caps cp \<Longrightarrow> shape rl l (x @ r') \<Longrightarrow> n = length x \<Longrightarrow> edits (curright cp n) rl (l @ x) r'"
  unfolding curright_def by (rule edits_move) simp_all

lemma does_redraw:
  assumes "full_caps cp" and "shape rl l r"
  shows "does (showbuf cp True) rl rl"
  using does_showbuf [OF assms(1), of rl True] assms(2) by (auto elim!: shapeE)

text \<open>A new buffer contents, put on display.\<close>

lemma edits_redraw:
  assumes "full_caps cp" and "f (rbuf rl) = Inr (prompt rl @ l' @ r' @ NUL # t')"
    and "length (prompt rl @ l' @ r' @ NUL # t') = r_maxl rl"
    and "does g (rl\<lparr>rbuf := prompt rl @ l' @ r' @ NUL # t'\<rparr>)
              (edited rl (prompt rl @ l' @ r' @ NUL # t') (length (prompt rl) + length l') m)"
    and "NUL \<notin> set (prompt rl)" and "NUL \<notin> set l'" and "NUL \<notin> set r'"
  shows "edits (seq_op (with_buf f) (seq_op g (seq_op measure_buf (showbuf cp True)))) rl l' r'"
proof -
  let ?b = "prompt rl @ l' @ r' @ NUL # t'"
  let ?c = "length (prompt rl) + length l'"
  let ?m = "length (prompt rl) + length l' + length r'"
  have sh: "shape (edited rl ?b ?c ?m) l' r'" using assms(3,5-7) by (auto simp: shape_def)
  have "buf_strlen ?b = Inr ?m"
    using strlen_shape [of "prompt rl @ l' @ r'" t'] assms(5-7) by (simp add: add.assoc)
  then have "does measure_buf (edited rl ?b ?c m) (edited rl ?b ?c ?m)"
    by (intro does_intro) (simp_all add: edited_def)
  moreover have "does (showbuf cp True) (edited rl ?b ?c ?m) (edited rl ?b ?c ?m)"
    by (rule does_redraw [OF assms(1) sh])
  moreover have "does (with_buf f) rl (rl\<lparr>rbuf := ?b\<rparr>)"
    by (rule does_with_buf) (simp_all add: assms(2))
  ultimately have "does (seq_op (with_buf f) (seq_op g (seq_op measure_buf (showbuf cp True)))) rl
      (edited rl ?b ?c ?m)"
    using assms(4) by (blast intro: does_seq)
  with sh show ?thesis unfolding edits_def by blast
qed

lemma does_seq_upd_id: "does (seq_op f (seq_op (upd id) g)) rl rl' \<Longrightarrow> does (seq_op f g) rl rl'"
  by (auto simp: does_def seq_op_def upd_def bindE_Inr_iff split: prod.splits)

lemma edits_redraw0:
  assumes "full_caps cp" and "f (rbuf rl) = Inr (prompt rl @ l' @ r' @ NUL # t')"
    and "length (prompt rl @ l' @ r' @ NUL # t') = r_maxl rl"
    and "curpos rl = length (prompt rl) + length l'"
    and "NUL \<notin> set (prompt rl)" and "NUL \<notin> set l'" and "NUL \<notin> set r'"
  shows "edits (seq_op (with_buf f) (seq_op measure_buf (showbuf cp True))) rl l' r'"
proof -
  have "edits (seq_op (with_buf f) (seq_op (upd id) (seq_op measure_buf (showbuf cp True)))) rl l' r'"
  proof (rule edits_redraw [where m = "maxpos rl" and t' = t'])
    show "does (upd id) (rl\<lparr>rbuf := prompt rl @ l' @ r' @ NUL # t'\<rparr>)
        (edited rl (prompt rl @ l' @ r' @ NUL # t') (length (prompt rl) + length l') (maxpos rl))"
      by (rule does_upd) (simp add: edited_def assms(4) [symmetric])
  qed (use assms in simp_all)
  then show ?thesis unfolding edits_def using does_seq_upd_id by blast
qed

lemma edits_del_at_cursor:
  assumes "full_caps cp" and "shape rl l (c # r)"
  shows "edits (del_at_cursor cp) rl l r"
  using assms(2)
proof (rule shapeE)
  fix t
  assume t: "rbuf rl = prompt rl @ l @ (c # r) @ NUL # t"
    "length (prompt rl @ l @ (c # r) @ NUL # t) = r_maxl rl"
    "curpos rl = length (prompt rl) + length l"
    "maxpos rl = length (prompt rl) + length l + length (c # r)"
    "NUL \<notin> set (prompt rl)" "NUL \<notin> set l" "NUL \<notin> set (c # r)"
  let ?n = "r_maxl rl - curpos rl - 1"
  let ?b = "prompt rl @ l @ r @ NUL # t @ drop (curpos rl + ?n) (rbuf rl)"
  have n: "curpos rl + 1 + ?n = r_maxl rl" "length (rbuf rl) = r_maxl rl" using t by simp_all
  have "drop (curpos rl + 1) (rbuf rl) = r @ NUL # t" "length (r @ NUL # t) = ?n"
    "take (curpos rl) (rbuf rl) = prompt rl @ l"
    using t by (auto simp: t(1))
  then have mv: "buf_move (curpos rl) (curpos rl + 1) ?n (rbuf rl) = Inr ?b"
    using n by (simp add: buf_move_def)
  have len: "length ?b = r_maxl rl" using t by simp
  let ?m = "length (prompt rl) + length l + length r"
  have sh: "shape (edited rl ?b (curpos rl) ?m) l r"
    using t len by (auto simp: shape_def)
  have 1: "does (\<lambda>r. with_buf (buf_move (curpos r) (curpos r + 1) (r_maxl r - curpos r - 1)) r) rl
      (rl\<lparr>rbuf := ?b\<rparr>)"
    by (rule does_lambda, rule does_with_buf, rule mv, rule refl)
  have 2: "does (upd (\<lambda>r. r\<lparr>maxpos := maxpos r - 1\<rparr>)) (rl\<lparr>rbuf := ?b\<rparr>) (edited rl ?b (curpos rl) ?m)"
    by (rule does_upd) (use t in \<open>simp add: edited_def\<close>)
  show ?thesis
    unfolding edits_def del_at_cursor_def
    using does_seq [OF 1 does_seq [OF 2 does_redraw [OF assms(1) sh]]] sh by blast
qed

lemma shape_cursor:
  "shape rl l r \<Longrightarrow> curpos rl = length (prompt rl) \<longleftrightarrow> l = []"
  "shape rl l r \<Longrightarrow> curpos rl = maxpos rl \<longleftrightarrow> r = []"
  "shape rl l r \<Longrightarrow> curpos rl - length (prompt rl) = length l"
  "shape rl l r \<Longrightarrow> maxpos rl - curpos rl = length r"
  "shape rl l r \<Longrightarrow> maxpos rl < length (rbuf rl)"
  by (auto simp: shape_def)

lemma edits_key_left:
  assumes "full_caps cp" and "shape rl l r"
  shows "edits (key_left cp erase) rl (butlast l) (if l = [] \<or> erase then r else last l # r)"
proof (cases "l = []")
  case True
  with assms show ?thesis
    using does_buz by (auto simp: edits_same key_left_def shape_cursor does_def intro!: edits_same)
next
  case False
  then have l: "shape rl (butlast l @ [last l]) r" using assms(2) by simp
  let ?g = "if erase then del_at_cursor cp else upd id"
  have "edits (seq_op (curleft cp 1) ?g) rl (butlast l) (if erase then r else last l # r)"
  proof (rule edits_seq)
    show "edits (curleft cp 1) rl (butlast l) ([last l] @ r)"
      by (rule edits_curleft [OF assms(1) l]) simp
    show "edits ?g rl1 (butlast l) (if erase then r else last l # r)"
      if "shape rl1 (butlast l) ([last l] @ r)" for rl1
      using that edits_del_at_cursor [OF assms(1), of rl1]
      by (auto intro!: edits_same does_upd)
  qed
  moreover have "key_left cp erase rl = seq_op (curleft cp 1) ?g rl"
    using False assms(2) by (simp add: key_left_def shape_cursor)
  ultimately show ?thesis using False by (simp add: edits_def does_def)
qed

lemma edits_key_delete:
  assumes "full_caps cp" and "shape rl l r"
  shows "edits (key_delete cp) rl l (tl r)"
proof (cases r)
  case Nil
  then have "key_delete cp rl = buz cp rl" using assms(2) by (simp add: key_delete_def shape_cursor)
  then have "does (key_delete cp) rl rl" using does_buz [OF assms(1), of rl] by (simp add: does_def)
  with Nil assms(2) show ?thesis by (intro edits_same) simp_all
next
  case (Cons c r')
  then have "key_delete cp rl = del_at_cursor cp rl"
    using assms(2) by (simp add: key_delete_def shape_cursor)
  with edits_del_at_cursor [OF assms(1), of rl l c r'] assms(2) Cons show ?thesis
    by (simp add: edits_def does_def)
qed

lemma edits_key_right:
  assumes "full_caps cp" and "shape rl l r"
  shows "edits (key_right cp) rl (l @ take 1 r) (tl r)"
proof (cases r)
  case Nil
  then have "key_right cp rl = buz cp rl" using assms(2) by (simp add: key_right_def shape_cursor)
  then have "does (key_right cp) rl rl" using does_buz [OF assms(1), of rl] by (simp add: does_def)
  with Nil assms(2) show ?thesis by (intro edits_same) simp_all
next
  case (Cons c r')
  then have "key_right cp rl = curright cp 1 rl"
    using assms(2) by (simp add: key_right_def shape_cursor)
  with edits_curright [OF assms(1), of rl l "[c]" r' 1] assms(2) Cons show ?thesis
    by (simp add: edits_def does_def)
qed

lemma edits_gotobol: "full_caps cp \<Longrightarrow> shape rl l r \<Longrightarrow> edits (key_gotobol cp) rl [] (l @ r)"
  using edits_curleft [of cp rl "[]" l r "length l"] shape_cursor(3) [of rl l r]
  by (simp add: edits_def does_def key_gotobol_def)

lemma edits_gotoeol: "full_caps cp \<Longrightarrow> shape rl l r \<Longrightarrow> edits (key_gotoeol cp) rl (l @ r) []"
  using edits_curright [of cp rl l r "[]" "length r"] shape_cursor(4) [of rl l r]
  by (simp add: edits_def does_def key_gotoeol_def)

text \<open>Removing the last characters before the cursor, or the first ones after it.\<close>

lemma edits_kill_back:
  assumes cp: "full_caps cp" and "shape rl l r" and k: "k \<le> length l"
    and i: "i = length (prompt rl) + k"
  shows "edits (seq_op (with_buf (buf_move i (curpos rl) (r_maxl rl - curpos rl)))
      (seq_op (curleft cp (curpos rl - i)) (seq_op measure_buf (showbuf cp True)))) rl (take k l) r"
  using assms(2)
proof (rule shapeE)
  fix t
  assume t: "rbuf rl = prompt rl @ l @ r @ NUL # t" "length (prompt rl @ l @ r @ NUL # t) = r_maxl rl"
    "curpos rl = length (prompt rl) + length l" "maxpos rl = length (prompt rl) + length l + length r"
    "NUL \<notin> set (prompt rl)" "NUL \<notin> set l" "NUL \<notin> set r"
  let ?n = "r_maxl rl - curpos rl"
  let ?t' = "t @ drop (i + ?n) (rbuf rl)"
  let ?b = "prompt rl @ take k l @ r @ NUL # ?t'"
  have "drop (curpos rl) (rbuf rl) = r @ NUL # t" "length (r @ NUL # t) = ?n"
    "take i (rbuf rl) = prompt rl @ take k l"
    using t i k by (auto simp: t(1))
  then have mv: "buf_move i (curpos rl) ?n (rbuf rl) = Inr ?b"
    using t i k by (simp add: buf_move_def)
  show ?thesis
  proof (rule edits_redraw [where t' = ?t' and m = "maxpos rl"])
    have "does (curleft cp (curpos rl - i)) (rl\<lparr>rbuf := ?b\<rparr>)
        (rl\<lparr>rbuf := ?b, curpos := curpos rl - (curpos rl - i)\<rparr>)"
      using does_curleft [OF cp, of "curpos rl - i" "rl\<lparr>rbuf := ?b\<rparr>"] by simp
    moreover have "curpos rl - (curpos rl - i) = length (prompt rl) + length (take k l)"
      using t i k by simp
    ultimately show "does (curleft cp (curpos rl - i)) (rl\<lparr>rbuf := ?b\<rparr>)
        (edited rl ?b (length (prompt rl) + length (take k l)) (maxpos rl))"
      by (simp only: edited_def) simp
    show "NUL \<notin> set (take k l)" using t by (auto dest: in_set_takeD)
    show "length ?b = r_maxl rl" using t i k by simp
  qed (rule cp mv t)+
qed

lemma edits_kill_forward:
  assumes cp: "full_caps cp" and "shape rl l r" and k: "k \<le> length r" and i: "i = curpos rl + k"
  shows "edits (seq_op (with_buf (buf_move (curpos rl) i (r_maxl rl - i)))
      (seq_op measure_buf (showbuf cp True))) rl l (drop k r)"
  using assms(2)
proof (rule shapeE)
  fix t
  assume t: "rbuf rl = prompt rl @ l @ r @ NUL # t" "length (prompt rl @ l @ r @ NUL # t) = r_maxl rl"
    "curpos rl = length (prompt rl) + length l" "maxpos rl = length (prompt rl) + length l + length r"
    "NUL \<notin> set (prompt rl)" "NUL \<notin> set l" "NUL \<notin> set r"
  let ?n = "r_maxl rl - i"
  let ?t' = "t @ drop (curpos rl + ?n) (rbuf rl)"
  let ?b = "prompt rl @ l @ drop k r @ NUL # ?t'"
  have "drop i (rbuf rl) = drop k r @ NUL # t" "length (drop k r @ NUL # t) = ?n"
    "take (curpos rl) (rbuf rl) = prompt rl @ l"
    using t i k by (auto simp: t(1))
  then have mv: "buf_move (curpos rl) i ?n (rbuf rl) = Inr ?b"
    using t i k by (simp add: buf_move_def)
  show ?thesis
  proof (rule edits_redraw0 [where t' = ?t'])
    show "NUL \<notin> set (drop k r)" using t by (auto dest: in_set_dropD)
    show "length ?b = r_maxl rl" using t i k by simp
  qed (rule cp mv t)+
qed

lemma edits_killtobol:
  assumes "full_caps cp" and "shape rl l r"
  shows "edits (key_killtobol cp) rl [] r"
  using edits_kill_back [OF assms, of 0 "length (prompt rl)"]
  by (simp add: key_killtobol_def edits_def does_def)

lemma buf_set_at: "b = p @ x # t \<Longrightarrow> i = length p \<Longrightarrow> buf_set i c b = Inr (p @ c # t)"
  by (simp add: buf_set_def list_update_append)

lemma edits_killtoeol:
  assumes cp: "full_caps cp" and "shape rl l r"
  shows "edits (key_killtoeol cp) rl l []"
  using assms(2)
proof (rule shapeE)
  fix t
  assume t: "rbuf rl = prompt rl @ l @ r @ NUL # t" "length (prompt rl @ l @ r @ NUL # t) = r_maxl rl"
    "curpos rl = length (prompt rl) + length l" "maxpos rl = length (prompt rl) + length l + length r"
    "NUL \<notin> set (prompt rl)" "NUL \<notin> set l" "NUL \<notin> set r"
  let ?t' = "tl (r @ NUL # t)"
  have "rbuf rl = (prompt rl @ l) @ hd (r @ NUL # t) # ?t'" by (cases r) (simp_all add: t(1))
  then have "buf_set (curpos rl) NUL (rbuf rl) = Inr (prompt rl @ l @ [] @ NUL # ?t')"
    by (rule buf_set_at [THEN trans]) (simp_all add: t(3))
  moreover have "length (prompt rl @ l @ [] @ NUL # ?t') = r_maxl rl" using t by (cases r) simp_all
  ultimately have "edits (seq_op (with_buf (buf_set (curpos rl) NUL))
      (seq_op measure_buf (showbuf cp True))) rl l []"
    by (intro edits_redraw0 [where t' = ?t'] cp) (use t in simp_all)
  then show ?thesis by (simp add: key_killtoeol_def edits_def does_def)
qed

lemma edits_killline:
  assumes cp: "full_caps cp" and "shape rl l r"
  shows "edits (key_killline cp) rl [] []"
  using assms(2)
proof (rule shapeE)
  fix t
  assume t: "rbuf rl = prompt rl @ l @ r @ NUL # t" "length (prompt rl @ l @ r @ NUL # t) = r_maxl rl"
    "curpos rl = length (prompt rl) + length l" "maxpos rl = length (prompt rl) + length l + length r"
    "NUL \<notin> set (prompt rl)" "NUL \<notin> set l" "NUL \<notin> set r"
  let ?p = "length (prompt rl)"
  let ?t' = "tl (l @ r @ NUL # t)"
  let ?b = "prompt rl @ NUL # ?t'"
  have "rbuf rl = prompt rl @ hd (l @ r @ NUL # t) # ?t'" by (cases l; cases r) (simp_all add: t(1))
  then have set: "buf_set ?p NUL (rbuf rl) = Inr ?b" by (rule buf_set_at) simp
  have len: "length ?b = r_maxl rl" using t by (cases l; cases r) simp_all
  have sh: "shape (edited rl ?b ?p ?p) [] []" using t len by (auto simp: shape_def)
  have 1: "does (curleft cp (curpos rl - ?p)) rl (rl\<lparr>curpos := ?p\<rparr>)"
    using does_curleft [OF cp, of "curpos rl - ?p" rl] t by simp
  have 2: "does (upd (\<lambda>r. r\<lparr>maxpos := length (prompt r)\<rparr>)) (rl\<lparr>curpos := ?p\<rparr>)
      (rl\<lparr>curpos := ?p, maxpos := ?p\<rparr>)"
    by (rule does_upd) simp
  have 3: "does (with_buf (buf_set ?p NUL)) (rl\<lparr>curpos := ?p, maxpos := ?p\<rparr>) (edited rl ?b ?p ?p)"
    by (rule does_with_buf [where b = ?b]) (simp_all add: set edited_def)
  have "does (key_killline cp) rl (edited rl ?b ?p ?p)"
    using does_seq [OF 1 does_seq [OF 2 does_seq [OF 3 does_redraw [OF cp sh]]]]
    by (simp add: key_killline_def does_def)
  with sh show ?thesis unfolding edits_def by blast
qed

lemma edits_clrscr:
  assumes cp: "full_caps cp" and sh: "shape rl l r"
  shows "edits (key_clrscr cp) rl l r"
proof (rule edits_same [OF _ sh])
  show "does (key_clrscr cp) rl rl"
  proof (cases "home cp")
    case None
    then show ?thesis using does_buz [OF cp, of rl] by (simp add: key_clrscr_def does_def)
  next
    case (Some hm)
    have le: "curpos rl \<le> maxpos rl" using sh by (simp add: shape_def)
    have 1: "does (emit (Inr [Put hm])) rl rl" by (rule does_emit) simp_all
    have 2: "does (upd (\<lambda>r. r\<lparr>curpos := 0\<rparr>)) rl (rl\<lparr>curpos := 0\<rparr>)" by (rule does_upd) simp
    have 3: "does (showbuf cp False) (rl\<lparr>curpos := 0\<rparr>) (rl\<lparr>curpos := maxpos rl\<rparr>)"
      using does_showbuf [OF cp, of "rl\<lparr>curpos := 0\<rparr>" False] shape_cursor(5) [OF sh] by simp
    have 4: "does (upd (\<lambda>r. r\<lparr>curpos := maxpos r\<rparr>)) (rl\<lparr>curpos := maxpos rl\<rparr>) (rl\<lparr>curpos := maxpos rl\<rparr>)"
      by (rule does_upd) simp
    have 5: "does (\<lambda>r. curleft cp (maxpos r - curpos rl) r) (rl\<lparr>curpos := maxpos rl\<rparr>) rl"
      using does_curleft [OF cp, of "maxpos rl - curpos rl" "rl\<lparr>curpos := maxpos rl\<rparr>"] le
      by (auto simp: does_def)
    show ?thesis
      using does_seq [OF 1 does_seq [OF 2 does_seq [OF 3 does_seq [OF 4 5]]]] Some
      by (simp add: key_clrscr_def does_def)
  qed
qed

text \<open>Inserting a character needs a byte beyond the terminator.\<close>

lemma edits_insert:
  assumes cp: "full_caps cp" and "shape rl l r" and c: "c \<noteq> NUL"
    and room: "maxpos rl + 1 < r_maxl rl"
  shows "edits (key_insert cp c) rl (l @ [c]) r"
  using assms(2)
proof (rule shapeE)
  fix t
  assume t: "rbuf rl = prompt rl @ l @ r @ NUL # t" "length (prompt rl @ l @ r @ NUL # t) = r_maxl rl"
    "curpos rl = length (prompt rl) + length l" "maxpos rl = length (prompt rl) + length l + length r"
    "NUL \<notin> set (prompt rl)" "NUL \<notin> set l" "NUL \<notin> set r"
  from t room have "t \<noteq> []" by auto
  then have tb: "t = butlast t @ [last t]" by simp
  let ?n = "r_maxl rl - curpos rl - 1"
  let ?x = "hd (r @ NUL # t)"
  let ?b1 = "prompt rl @ l @ ?x # r @ NUL # butlast t"
  let ?b2 = "prompt rl @ l @ (c # r) @ NUL # butlast t"
  have rn: "r @ NUL # t = (r @ NUL # butlast t) @ [last t]" using tb by simp
  have ln: "length (r @ NUL # butlast t) = ?n" using t(3) \<open>t \<noteq> []\<close>
    by (cases t) (simp_all add: t(2) [symmetric])
  have "drop (curpos rl) (rbuf rl) = r @ NUL # t" using t by simp
  then have "drop (curpos rl) (rbuf rl) = (r @ NUL # butlast t) @ [last t]" using rn by (simp only:)
  moreover have "take (length xs) (xs @ ys) = xs" for xs ys :: string by simp
  ultimately have "take ?n (drop (curpos rl) (rbuf rl)) = r @ NUL # butlast t"
    unfolding ln [symmetric] by (simp only:)
  moreover have "take (curpos rl + 1) (rbuf rl) = prompt rl @ l @ [?x]"
    using t by (cases r) simp_all
  moreover have "length (rbuf rl) = r_maxl rl" "curpos rl + 1 + ?n = r_maxl rl" using t by simp_all
  ultimately have mv: "buf_move (curpos rl + 1) (curpos rl) ?n (rbuf rl) = Inr ?b1"
    by (simp add: buf_move_def)
  have len: "length ?b2 = r_maxl rl" using t \<open>t \<noteq> []\<close> by simp
  have set: "buf_set (curpos rl) c ?b1 = Inr ?b2"
    using t \<open>t \<noteq> []\<close> by (simp add: buf_set_def list_update_append)
  have sh: "shape (edited rl ?b2 (curpos rl) (maxpos rl + 1)) l ([c] @ r)"
    using t len c by (auto simp: shape_def)
  have 1: "does (with_buf (buf_move (curpos rl + 1) (curpos rl) ?n)) rl (rl\<lparr>rbuf := ?b1\<rparr>)"
    by (rule does_with_buf, rule mv, rule refl)
  have 2: "does (with_buf (buf_set (curpos rl) c)) (rl\<lparr>rbuf := ?b1\<rparr>) (rl\<lparr>rbuf := ?b2\<rparr>)"
  proof (rule does_with_buf)
    show "buf_set (curpos rl) c (rbuf (rl\<lparr>rbuf := ?b1\<rparr>)) = Inr ?b2" using set by simp
  qed simp
  have 3: "does (upd (\<lambda>r. r\<lparr>maxpos := maxpos r + 1\<rparr>)) (rl\<lparr>rbuf := ?b2\<rparr>)
      (edited rl ?b2 (curpos rl) (maxpos rl + 1))"
    by (rule does_upd) (simp add: edited_def)
  obtain b' c' m' where 4: "does (curright cp 1) (edited rl ?b2 (curpos rl) (maxpos rl + 1)) (edited rl b' c' m')"
      "shape (edited rl b' c' m') (l @ [c]) r"
    using edits_curright [OF cp sh, of 1] by (auto simp: edits_def)
  have "maxpos rl \<noteq> r_maxl rl" using room by simp
  then have "does (key_insert cp c) rl (edited rl b' c' m')"
    using does_seq [OF 1 does_seq [OF 2 does_seq [OF 3 does_seq [OF does_redraw [OF cp sh] 4(1)]]]]
    by (simp add: key_insert_def does_def)
  with 4(2) show ?thesis unfolding edits_def by blast
qed

section \<open>Words\<close>

lemma scan_down_take:
  assumes "b = p @ l @ rest" and "j < length l"
  shows "scan_down P b (length p) (length p + j) =
    length p + (let d = length (takeWhile P (rev (take (Suc j) l))) in if d = Suc j then 0 else j - d)"
  using assms(2)
proof (induction j)
  case 0
  then have "take (Suc 0) l = [hd l]" by (cases l) simp_all
  then show ?case by (cases "length p") auto
next
  case (Suc j)
  then have l: "take (Suc (Suc j)) l = take (Suc j) l @ [l ! Suc j]"
    by (simp add: take_Suc_conv_app_nth)
  have b: "b ! (length p + Suc j) = l ! Suc j"
    using Suc.prems assms(1) by (simp add: nth_append)
  have le: "length (takeWhile P (rev (take (Suc j) l))) \<le> Suc j"
    using length_takeWhile_le [of P "rev (take (Suc j) l)"] by simp
  show ?case
    using Suc b le unfolding l by (simp add: Let_def)
qed

lemma scan_up_drop:
  assumes "i \<le> hi" and "hi \<le> length b"
  shows "scan_up P b hi i = i + length (takeWhile P (take (hi - i) (drop i b)))"
  using assms
proof (induction P b hi i rule: scan_up.induct)
  case (1 P b hi i)
  show ?case
  proof (cases "i < hi")
    case True
    with "1.prems" have "take (hi - i) (drop i b) = b ! i # take (hi - (i + 1)) (drop (i + 1) b)"
      by (simp add: Cons_nth_drop_Suc [symmetric] take_Cons' Suc_diff_Suc)
    with True "1.IH" "1.prems" show ?thesis by (subst scan_up.simps) simp
  qed (use "1.prems" in \<open>simp add: scan_up.simps\<close>)
qed

text \<open>
  What is left of the text before the cursor when its last word is skipped, with the characters
  after the word; and how far the next word reaches.
\<close>

definition back_word :: "string \<Rightarrow> string" where
  "back_word l = rev (dropWhile is_alnum (dropWhile not_alnum (rev l)))"

definition fwd_word :: "string \<Rightarrow> nat" where
  "fwd_word r =
     (let n = length (takeWhile not_alnum r) in n + length (takeWhile is_alnum (drop n r)))"

lemma back_word_split:
  obtains w n where "l = back_word l @ w @ n" and "\<forall>c\<in>set w. is_alnum c" and "\<forall>c\<in>set n. not_alnum c"
    and "back_word l \<noteq> [] \<Longrightarrow> not_alnum (last (back_word l))" and "w = [] \<Longrightarrow> back_word l = []"
proof
  let ?d = "dropWhile not_alnum (rev l)"
  have "rev l = takeWhile not_alnum (rev l) @ takeWhile is_alnum ?d @ dropWhile is_alnum ?d" by simp
  then have "rev (rev l) = rev (dropWhile is_alnum ?d) @ rev (takeWhile is_alnum ?d) @ rev (takeWhile not_alnum (rev l))"
    by (metis append.assoc rev_append)
  then show "l = back_word l @ rev (takeWhile is_alnum ?d) @ rev (takeWhile not_alnum (rev l))"
    by (simp add: back_word_def)
  show "\<forall>c\<in>set (rev (takeWhile is_alnum ?d)). is_alnum c" by (auto dest: set_takeWhileD)
  show "\<forall>c\<in>set (rev (takeWhile not_alnum (rev l))). not_alnum c" by (auto dest: set_takeWhileD)
  show "not_alnum (last (back_word l))" if "back_word l \<noteq> []"
    using that hd_dropWhile [of is_alnum ?d] by (simp add: back_word_def last_rev not_alnum_def)
  show "back_word l = []" if "rev (takeWhile is_alnum ?d) = []"
  proof (cases ?d)
    case (Cons c cs)
    then have "\<not> not_alnum c" using hd_dropWhile [of not_alnum "rev l"] by simp
    with Cons that show ?thesis by (simp add: not_alnum_def)
  next
    case Nil
    then show ?thesis unfolding back_word_def by (simp only: dropWhile.simps rev.simps)
  qed
qed

text \<open>The two backward scans of \<^verbatim>\<open>KILLWORD\<close> and \<^verbatim>\<open>WORD_BACKWARD\<close>.\<close>

lemma takeWhile_rev_append:
  assumes "\<forall>c\<in>set y. P c" and "x \<noteq> [] \<Longrightarrow> \<not> P (last x)"
  shows "takeWhile P (rev (x @ y)) = rev y"
proof -
  have "takeWhile P (rev x) = []" using assms(2) by (cases x rule: rev_cases) simp_all
  with assms(1) takeWhile_append2 [of "rev y" P "rev x"] show ?thesis by simp
qed

lemma scan_back:
  assumes b: "b = p @ l @ rest" and ne: "l \<noteq> []"
  shows "scan_down is_alnum b (length p) (scan_down not_alnum b (length p) (length p + (length l - 1))) =
    length p + (length (back_word l) - 1)"
proof (rule back_word_split)
  let ?a = "back_word l"
  fix w n
  assume l: "l = ?a @ w @ n" and w: "\<forall>c\<in>set w. is_alnum c" and n: "\<forall>c\<in>set n. not_alnum c"
    and a: "?a \<noteq> [] \<Longrightarrow> not_alnum (last ?a)" and wa: "w = [] \<Longrightarrow> ?a = []"
  have "takeWhile not_alnum (rev ((?a @ w) @ n)) = rev n"
  proof (rule takeWhile_rev_append [OF n])
    assume "?a @ w \<noteq> []"
    then have "w \<noteq> []" using wa by auto
    with w show "\<not> not_alnum (last (?a @ w))" by (simp add: not_alnum_def)
  qed
  then have d1: "length (takeWhile not_alnum (rev l)) = length n" using l by simp
  have j: "length l - 1 < length l" "Suc (length l - 1) = length l" using ne by (simp_all add: length_greater_0_conv)
  have i1: "scan_down not_alnum b (length p) (length p + (length l - 1)) =
      length p + (if w = [] then 0 else length (?a @ w) - 1)"
  proof -
    have "length n = length l \<longleftrightarrow> w = []" using arg_cong [OF l, of length] wa by auto
    moreover have "length l = length (?a @ w) + length n" using arg_cong [OF l, of length] by simp
    ultimately show ?thesis
      using scan_down_take [OF b j(1), of not_alnum] d1 j(2) by (auto simp: Let_def)
  qed
  show ?thesis
  proof (cases "w = []")
    case True
    then have "?a = []" "l = n" using wa l by auto
    have "take (Suc 0) l = [hd l]" using ne by (cases l) simp_all
    moreover have "\<not> is_alnum (hd l)" using n ne \<open>l = n\<close> by (auto simp: not_alnum_def)
    ultimately have "scan_down is_alnum b (length p) (length p + 0) = length p + 0"
      using scan_down_take [OF b, of 0 is_alnum] ne by (simp add: Let_def)
    with i1 True \<open>?a = []\<close> show ?thesis by simp
  next
    case False
    let ?j = "length (?a @ w) - 1"
    have jl: "?j < length l" "Suc ?j = length (?a @ w)"
      using False arg_cong [OF l, of length] by (cases w, simp_all)+
    have "take (Suc ?j) l = ?a @ w" unfolding jl(2) by (subst (2) l) simp
    moreover have "takeWhile is_alnum (rev (?a @ w)) = rev w"
      by (rule takeWhile_rev_append [OF w]) (use a in \<open>simp add: not_alnum_def\<close>)
    ultimately have "scan_down is_alnum b (length p) (length p + ?j) =
        length p + (if length w = Suc ?j then 0 else ?j - length w)"
      using scan_down_take [OF b jl(1), of is_alnum] by (simp add: Let_def)
    moreover have "length w = Suc ?j \<longleftrightarrow> ?a = []" using jl(2) by auto
    moreover have "?a \<noteq> [] \<Longrightarrow> ?j - length w = length ?a - 1" by simp
    ultimately show ?thesis using i1 False by auto
  qed
qed

definition back_pos :: "string \<Rightarrow> nat" where
  "back_pos l = (let k = length (back_word l) in if k \<le> 1 then 0 else k)"

definition kill_pos :: "string \<Rightarrow> nat" where
  "kill_pos l = (if \<forall>c\<in>set l. not_alnum c then 1 else length (back_word l))"

definition kill_fwd :: "string \<Rightarrow> nat" where
  "kill_fwd r =
     (let k = fwd_word r; n = k + length (takeWhile not_alnum (drop k r))
      in if n < length r then n - 1 else n)"

lemma back_word_le: "length (back_word l) \<le> length l"
  using length_dropWhile_le [of is_alnum "dropWhile not_alnum (rev l)"]
    length_dropWhile_le [of not_alnum "rev l"]
  by (simp add: back_word_def)

text \<open>Where the backward scans stop, and the character there.\<close>

lemma back_word_char:
  assumes "l \<noteq> []"
  shows "back_word l \<noteq> [] \<Longrightarrow> not_alnum (l ! (length (back_word l) - 1))"
    and "back_word l = [] \<Longrightarrow> not_alnum (l ! 0) \<longleftrightarrow> (\<forall>c\<in>set l. not_alnum c)"
    and "back_word l \<noteq> [] \<Longrightarrow> \<not> (\<forall>c\<in>set l. not_alnum c)"
    and "back_word l \<noteq> [] \<Longrightarrow> length (back_word l) < length l \<and> \<not> not_alnum (l ! length (back_word l))"
proof -
  obtain w n where l: "l = back_word l @ w @ n" and w: "\<forall>c\<in>set w. is_alnum c"
    and n: "\<forall>c\<in>set n. not_alnum c" and a: "back_word l \<noteq> [] \<Longrightarrow> not_alnum (last (back_word l))"
    and wa: "w = [] \<Longrightarrow> back_word l = []"
    using back_word_split [of l] by blast
  define a where "a = back_word l"
  have l': "l = a @ w @ n" using l by (simp add: a_def)
  have w1: "w \<noteq> [] \<Longrightarrow> \<not> not_alnum (hd w)" using w by (simp add: not_alnum_def)
  show "not_alnum (l ! (length (back_word l) - 1))" if "back_word l \<noteq> []"
    using a [OF that] that unfolding a_def [symmetric] unfolding l' by (simp add: nth_append last_conv_nth)
  show "not_alnum (l ! 0) \<longleftrightarrow> (\<forall>c\<in>set l. not_alnum c)" if "back_word l = []"
    using that w1 n assms unfolding a_def [symmetric] unfolding l' by (cases w; cases n) auto
  show "\<not> (\<forall>c\<in>set l. not_alnum c)" if "back_word l \<noteq> []"
    using that w1 wa unfolding a_def [symmetric] unfolding l' by (cases w) auto
  show "length (back_word l) < length l \<and> \<not> not_alnum (l ! length (back_word l))" if "back_word l \<noteq> []"
    using that w1 wa unfolding a_def [symmetric] unfolding l' by (cases w) (auto simp: nth_append)
qed

lemma word_start_pos:
  assumes "shape rl l r" and "l \<noteq> []"
  shows "word_start rl = length (prompt rl) + kill_pos l" and "kill_pos l \<le> length l"
proof -
  obtain t where t: "rbuf rl = prompt rl @ l @ r @ NUL # t" "curpos rl = length (prompt rl) + length l"
      "maxpos rl = length (prompt rl) + length l + length r"
    using assms(1) by (auto elim: shapeE)
  let ?i = "length (prompt rl) + (length (back_word l) - 1)"
  have "curpos rl - 1 = length (prompt rl) + (length l - 1)" using t(2) assms(2) by (cases l) simp_all
  then have i2: "scan_down is_alnum (rbuf rl) (length (prompt rl))
      (scan_down not_alnum (rbuf rl) (length (prompt rl)) (curpos rl - 1)) = ?i"
    using scan_back [OF t(1) assms(2)] by simp
  have lt: "length (back_word l) - 1 < length l"
    using back_word_le [of l] assms(2) by (cases l) auto
  then have ch: "rbuf rl ! ?i = l ! (length (back_word l) - 1)" and "?i < maxpos rl"
    using t by (simp_all add: nth_append)
  with i2 have ws: "word_start rl = (if not_alnum (l ! (length (back_word l) - 1)) then ?i + 1 else ?i)"
    by (simp add: word_start_def Let_def)
  show "word_start rl = length (prompt rl) + kill_pos l"
  proof (cases "back_word l = []")
    case True
    then show ?thesis using ws back_word_char(2) [OF assms(2) True] by (simp add: kill_pos_def)
  next
    case False
    then have "0 < length (back_word l)" by simp
    with False show ?thesis
      using ws back_word_char(1,3) [OF assms(2) False] by (auto simp: kill_pos_def)
  qed
  show "kill_pos l \<le> length l"
    using back_word_le [of l] assms(2) by (cases l) (auto simp: kill_pos_def)
qed

lemma checked_shape: "shape rl l r \<Longrightarrow> checked f rl = f rl"
  using shape_cursor(5) [of rl l r] by (simp add: checked_def)

lemma edits_killword:
  assumes cp: "full_caps cp" and sh: "shape rl l r"
  shows "edits (key_killword cp) rl (take (kill_pos l) l) r"
proof (cases "l = []")
  case True
  then have "key_killword cp rl = buz cp rl" using sh by (simp add: key_killword_def shape_cursor)
  then have "does (key_killword cp) rl rl" using does_buz [OF cp, of rl] by (simp add: does_def)
  with True sh show ?thesis by (intro edits_same) simp_all
next
  case False
  note ws = word_start_pos [OF sh False]
  have "key_killword cp rl = seq_op (with_buf (buf_move (word_start rl) (curpos rl) (r_maxl rl - curpos rl)))
      (seq_op (curleft cp (curpos rl - word_start rl)) (seq_op measure_buf (showbuf cp True))) rl"
    using False sh by (simp add: key_killword_def shape_cursor checked_shape [OF sh] Let_def)
  with edits_kill_back [OF cp sh ws(2,1)] show ?thesis by (simp add: edits_def does_def)
qed

lemma scan_up_shape:
  assumes sh: "shape rl l r" and "j \<le> length r"
  shows "scan_up P (rbuf rl) (maxpos rl) (curpos rl + j) = curpos rl + (j + length (takeWhile P (drop j r)))"
proof -
  obtain t where t: "rbuf rl = prompt rl @ l @ r @ NUL # t" "curpos rl = length (prompt rl) + length l"
      "maxpos rl = length (prompt rl) + length l + length r"
    using sh by (auto elim: shapeE)
  have "take (maxpos rl - (curpos rl + j)) (drop (curpos rl + j) (rbuf rl)) = drop j r"
    using t assms(2) by simp
  then show ?thesis
    using scan_up_drop [of "curpos rl + j" "maxpos rl" "rbuf rl" P] t assms(2) by simp
qed

lemma fwd_word_le: "fwd_word r \<le> length r"
  using length_takeWhile_le [of not_alnum r]
    length_takeWhile_le [of is_alnum "drop (length (takeWhile not_alnum r)) r"]
  by (simp add: fwd_word_def Let_def)

lemma scan_fwd_word:
  assumes "shape rl l r"
  shows "scan_up is_alnum (rbuf rl) (maxpos rl) (scan_up not_alnum (rbuf rl) (maxpos rl) (curpos rl)) =
    curpos rl + fwd_word r"
  using scan_up_shape [OF assms, of 0 not_alnum]
    scan_up_shape [OF assms, of "length (takeWhile not_alnum r)" is_alnum] length_takeWhile_le [of not_alnum r]
  by (simp add: fwd_word_def Let_def)

lemma edits_word_forward:
  assumes cp: "full_caps cp" and sh: "shape rl l r"
  shows "edits (key_word_forward cp) rl (l @ take (fwd_word r) r) (drop (fwd_word r) r)"
proof (cases "r = []")
  case True
  then have "key_word_forward cp rl = buz cp rl" using sh by (simp add: key_word_forward_def shape_cursor)
  then have "does (key_word_forward cp) rl rl" using does_buz [OF cp, of rl] by (simp add: does_def)
  with True sh show ?thesis by (intro edits_same) (simp_all add: fwd_word_def)
next
  case False
  have "key_word_forward cp rl = curright cp (fwd_word r) rl"
    using False sh by (simp add: key_word_forward_def shape_cursor checked_shape [OF sh] Let_def scan_fwd_word)
  moreover have "edits (curright cp (fwd_word r)) rl (l @ take (fwd_word r) r) (drop (fwd_word r) r)"
    by (rule edits_curright [OF cp]) (use sh fwd_word_le [of r] in simp_all)
  ultimately show ?thesis by (simp add: edits_def does_def)
qed

lemma takeWhile_length_nth:
  "length (takeWhile P xs) < length xs \<Longrightarrow> \<not> P (xs ! length (takeWhile P xs))"
  by (rule nth_length_takeWhile)

lemma edits_killword_forward:
  assumes cp: "full_caps cp" and sh: "shape rl l r"
  shows "edits (key_killword_forward cp) rl l (drop (kill_fwd r) r)"
proof (cases "r = []")
  case True
  then have "key_killword_forward cp rl = buz cp rl"
    using sh by (simp add: key_killword_forward_def shape_cursor)
  then have "does (key_killword_forward cp) rl rl" using does_buz [OF cp, of rl] by (simp add: does_def)
  with True sh show ?thesis by (intro edits_same) simp_all
next
  case False
  let ?k = "fwd_word r"
  let ?n = "?k + length (takeWhile not_alnum (drop ?k r))"
  have n: "?n \<le> length r"
    using length_takeWhile_le [of not_alnum "drop ?k r"] fwd_word_le [of r] by simp
  have i3: "scan_up not_alnum (rbuf rl) (maxpos rl) (curpos rl + ?k) = curpos rl + ?n"
    by (rule scan_up_shape [OF sh fwd_word_le])
  obtain t where t: "rbuf rl = prompt rl @ l @ r @ NUL # t" "curpos rl = length (prompt rl) + length l"
      "maxpos rl = length (prompt rl) + length l + length r"
    using sh by (auto elim: shapeE)
  have stop: "curpos rl + ?n < maxpos rl \<and> is_alnum (rbuf rl ! (curpos rl + ?n)) \<longleftrightarrow> ?n < length r"
  proof (cases "?n < length r")
    case True
    then have "\<not> not_alnum (drop ?k r ! length (takeWhile not_alnum (drop ?k r)))"
      by (intro takeWhile_length_nth) simp
    with True t show ?thesis by (simp add: nth_append not_alnum_def)
  qed (use t in simp)
  have pos: "?n < length r \<Longrightarrow> 0 < ?n"
  proof (rule ccontr)
    assume a: "?n < length r" "\<not> 0 < ?n"
    then have z: "?k = 0" "takeWhile not_alnum r = []" by auto
    then have "takeWhile is_alnum r = []" by (simp add: fwd_word_def)
    with z(2) False show False by (cases r) (auto simp: not_alnum_def split: if_splits)
  qed
  define m where "m = ?n"
  have i4: "(if curpos rl + ?n < maxpos rl \<and> is_alnum (rbuf rl ! (curpos rl + ?n))
      then curpos rl + ?n - 1 else curpos rl + ?n) = curpos rl + kill_fwd r"
    unfolding stop using pos by (simp only: kill_fwd_def Let_def m_def [symmetric]) auto
  have "curpos rl \<noteq> maxpos rl" using False sh by (simp add: shape_cursor)
  then have "key_killword_forward cp rl = seq_op (with_buf (buf_move (curpos rl) (curpos rl + kill_fwd r)
        (r_maxl rl - (curpos rl + kill_fwd r)))) (seq_op measure_buf (showbuf cp True)) rl"
    by (simp only: key_killword_forward_def checked_shape [OF sh] Let_def scan_fwd_word [OF sh] i3 i4
        if_False)
  moreover have "kill_fwd r \<le> length r"
    using n le_trans [OF diff_le_self n] by (simp add: kill_fwd_def Let_def)
  ultimately show ?thesis
    using edits_kill_forward [OF cp sh _ refl] by (simp add: edits_def does_def)
qed

lemma edits_word_backward:
  assumes cp: "full_caps cp" and sh: "shape rl l r"
  shows "edits (key_word_backward cp) rl (take (back_pos l) l) (drop (back_pos l) l @ r)"
proof (cases "l = []")
  case True
  then have "key_word_backward cp rl = buz cp rl" using sh by (simp add: key_word_backward_def shape_cursor)
  then have "does (key_word_backward cp) rl rl" using does_buz [OF cp, of rl] by (simp add: does_def)
  with True sh show ?thesis by (intro edits_same) simp_all
next
  case False
  obtain t where t: "rbuf rl = prompt rl @ l @ r @ NUL # t" "curpos rl = length (prompt rl) + length l"
      "maxpos rl = length (prompt rl) + length l + length r"
    using sh by (auto elim: shapeE)
  let ?lo = "length (prompt rl)"
  let ?a = "length (back_word l)"
  let ?i = "?lo + (?a - 1)"
  have "curpos rl - 1 = ?lo + (length l - 1)" "?lo < curpos rl" using t(2) False by (cases l, simp_all)+
  then have i2: "scan_down is_alnum (rbuf rl) ?lo (scan_down not_alnum (rbuf rl) ?lo (curpos rl - 1)) = ?i"
    using scan_back [OF t(1) False] by simp
  have i3: "(if ?lo < ?i then scan_up not_alnum (rbuf rl) (length (rbuf rl)) ?i else ?i) = ?lo + back_pos l"
  proof (cases "?a \<le> 1")
    case True
    then show ?thesis by (simp add: back_pos_def)
  next
    case a: False
    then have ne: "back_word l \<noteq> []" by auto
    note ch = back_word_char [OF False]
    have "not_alnum (rbuf rl ! ?i)" "\<not> not_alnum (rbuf rl ! (?i + 1))" "?i + 1 < length (rbuf rl)"
      using ch(1) [OF ne] ch(4) [OF ne] a t by (auto simp: nth_append)
    then have "scan_up not_alnum (rbuf rl) (length (rbuf rl)) (?i + 1) = ?i + 1"
      and "scan_up not_alnum (rbuf rl) (length (rbuf rl)) ?i =
        scan_up not_alnum (rbuf rl) (length (rbuf rl)) (?i + 1)"
      by (subst scan_up.simps, simp)+
    then have "scan_up not_alnum (rbuf rl) (length (rbuf rl)) ?i = ?i + 1" by (rule trans [rotated])
    moreover have "?lo < ?i" "?i + 1 = ?lo + ?a" "back_pos l = ?a" using a by (simp_all add: back_pos_def)
    ultimately show ?thesis by (simp only: if_True)
  qed
  have bp: "back_pos l \<le> length l" using back_word_le [of l] by (simp add: back_pos_def Let_def)
  have "curpos rl \<noteq> ?lo" "\<not> length (rbuf rl) \<le> ?lo + back_pos l"
    "- (int (curpos rl) - int (?lo + back_pos l)) = int (back_pos l) - int (length l)"
    using \<open>?lo < curpos rl\<close> t bp by simp_all
  then have "key_word_backward cp rl = curboth cp (int (back_pos l) - int (length l)) rl"
    using \<open>?lo < curpos rl\<close>
    by (simp only: key_word_backward_def checked_shape [OF sh] Let_def if_True if_False i2 i3)
  moreover have "edits (curboth cp (int (back_pos l) - int (length l))) rl
      (take (back_pos l) l) (drop (back_pos l) l @ r)"
    by (rule edits_move [OF cp sh]) (use bp in \<open>simp_all add: min_def\<close>)
  ultimately show ?thesis by (simp add: edits_def does_def)
qed

section \<open>The editor refines a line with a cursor\<close>

text \<open>The effect of a key on the text before and after the cursor.\<close>

definition edit :: "int \<Rightarrow> string \<times> string \<Rightarrow> string \<times> string" where
  "edit i lr =
     (case lr of (l, r) \<Rightarrow>
        if i = BACKSPACE \<or> i = DEL then (butlast l, r)
        else if i = CURSOR_LEFT then (butlast l, if l = [] then r else last l # r)
        else if i = DELETE then (l, tl r)
        else if i = CURSOR_RIGHT then (l @ take 1 r, tl r)
        else if i = KILLLINE then ([], [])
        else if i = KILLWORD then (take (kill_pos l) l, r)
        else if i = KILLTOBOL then ([], r)
        else if i = KILLTOEOL then (l, [])
        else if i = GOTOBOL then ([], l @ r)
        else if i = GOTOEOL then (l @ r, [])
        else if i = CLRSCR \<or> i = REDRAW \<or> i = 0 then (l, r)
        else if i = WORD_FORWARD then (l @ take (fwd_word r) r, drop (fwd_word r) r)
        else if i = WORD_BACKWARD then (take (back_pos l) l, drop (back_pos l) l @ r)
        else if i = KILL_WORD_FORWARD then (l, drop (kill_fwd r) r)
        else (l @ [char_of (nat i)], r))"

lemma char_of_NUL: "0 < i \<Longrightarrow> i < 256 \<Longrightarrow> char_of (nat i) \<noteq> NUL"
proof
  assume i: "0 < i" "i < 256" and "char_of (nat i) = NUL"
  then have "of_char (char_of (nat i) :: char) = (of_char NUL :: nat)" by simp
  with i show False by (simp add: NUL_def)
qed

text \<open>
  C14. The line editor refines a text with a cursor: on a terminal with the needed sequences, no
  editing key faults, whatever the line is, and the buffer holds the text that the key's effect on
  the two halves of the line describes; inserting needs a byte beyond the terminator. The keys that
  replace the line by an entry of the history (up and down) and the one that ends it are not among
  them.
\<close>

theorem editor_refines_line:
  assumes cp: "full_caps cp" and sh: "shape rl l r" and "i \<noteq> UP_HISTORY" and "i \<noteq> DOWN_HISTORY"
    and ins: "0 < i \<and> i < 256 \<longrightarrow> maxpos rl + 1 < r_maxl rl" and "0 \<le> i"
    and "i < 256 \<or> UP_HISTORY < i \<and> i \<le> DEL \<and> i \<noteq> LINEDONE \<and> i \<noteq> COMPLETE_LINE"
  shows "edits (edit_key cp i) rl (fst (edit i (l, r))) (snd (edit i (l, r)))"
proof -
  have same: "edits (upd id) rl l r" by (rule edits_same [OF does_upd sh]) simp
  consider "i = BACKSPACE \<or> i = DEL" | "i = CURSOR_LEFT" | "i = DELETE" | "i = CURSOR_RIGHT"
    | "i = KILLLINE" | "i = KILLWORD" | "i = KILLTOBOL" | "i = KILLTOEOL" | "i = GOTOBOL"
    | "i = GOTOEOL" | "i = CLRSCR" | "i = REDRAW" | "i = WORD_FORWARD" | "i = WORD_BACKWARD"
    | "i = KILL_WORD_FORWARD" | "i = 0" | "0 < i \<and> i < 256"
    using assms(3-) unfolding key_defs by atomize_elim presburger
  then show ?thesis
  proof cases
    case 17
    then have "edits (key_insert cp (char_of (nat i))) rl (l @ [char_of (nat i)]) r"
      using ins by (intro edits_insert [OF cp sh] char_of_NUL) simp_all
    with 17 show ?thesis by (simp add: edit_key_def edit_def key_defs)
  next
    case 1
    then show ?thesis using edits_key_left [OF cp sh, of True]
      by (auto simp: edit_key_def edit_def key_defs)
  next
    case 2
    then show ?thesis using edits_key_left [OF cp sh, of False]
      by (simp add: edit_key_def edit_def key_defs split: if_splits)
  qed (use same edits_key_delete [OF cp sh] edits_key_right [OF cp sh] edits_killline [OF cp sh]
      edits_killword [OF cp sh] edits_killtobol [OF cp sh] edits_killtoeol [OF cp sh]
      edits_gotobol [OF cp sh] edits_gotoeol [OF cp sh] edits_clrscr [OF cp sh]
      edits_word_forward [OF cp sh] edits_word_backward [OF cp sh] edits_killword_forward [OF cp sh]
      in \<open>simp add: edit_key_def edit_def key_defs\<close>)+
qed

text \<open>
  The sequences of the \<^verbatim>\<open>xterm\<close> entry of the terminal database, as an example of the parameter, and
  a small editor that shows the text \<^verbatim>\<open>set tag\<close> with the cursor at its end.
\<close>

definition esc :: "string \<Rightarrow> string option" where
  "esc s = Some (CHR 0x1B # s)"

definition xterm :: caps where
  "xterm = \<lparr>xenl = True, bol = Some [CHR 0x0D], leftN = esc ''[%p1%dD'', rightN = esc ''[%p1%dC'',
     upN = esc ''[%p1%dA'', downN = esc ''[%p1%dB'', home = esc ''[H'', kup = esc ''OA'',
     kdown = esc ''OB'', kleft = esc ''OD'', kright = esc ''OC'', kdel = esc ''[3~'',
     kbksp = Some [CHR 0x7F], bip = Some [CHR 0x07], kwb = esc [CHR 0x7F], cod = esc ''[J'',
     kwf = esc ''d'', fw = esc ''f'', bw = esc ''b'', tparm = (\<lambda>s n. s)\<rparr>"

definition rl0 :: rl_t where
  "rl0 = \<lparr>r_maxh = 3, r_maxl = 16, prompt = ''>'', notty = False, r_width = 80,
     rbuf = ''>set tag'' @ replicate 8 NUL, curpos = 8, maxpos = 8, curseq = replicate 10 0,
     seqidx = 0, r_cliIdx = 0, histoff = 0, r_hist = hist0\<lparr>h_maxl := 16\<rparr>\<rparr>"

lemma xterm_full: "full_caps xterm"
  by (simp add: full_caps_def xterm_def esc_def)

lemma rl0_shape: "shape rl0 ''set tag'' []"
proof -
  have "replicate 8 NUL = NUL # replicate 7 NUL" by (simp add: numeral_eq_Suc)
  then show ?thesis by (simp add: shape_def rl0_def NUL_def)
qed

theorem editor_refines_line_witness:
  "edits (edit_key xterm KILLWORD) rl0 (fst (edit KILLWORD (''set tag'', [])))
     (snd (edit KILLWORD (''set tag'', [])))"
  by (rule editor_refines_line [OF xterm_full rl0_shape]) (simp_all add: key_defs)

section \<open>A line that is typed reaches the console\<close>

text \<open>No key sequence starts with a printable character.\<close>

definition plain_caps :: "caps \<Rightarrow> bool" where
  "plain_caps cp \<longleftrightarrow> full_caps cp \<and>
     (\<forall>sq\<in>set (seqs cp). \<forall>c cs. sq = Some (c # cs) \<longrightarrow> \<not> is_print c)"

text \<open>Input characters until one ends the line or closes the connection.\<close>

fun rl_type ::
  "caps \<Rightarrow> (nat \<Rightarrow> int) \<Rightarrow> int list \<Rightarrow> rl_t \<Rightarrow> 'a os_scheme \<Rightarrow>
   fault + rl_act \<times> rl_t \<times> out list \<times> 'a os_scheme" where
  "rl_type cp junk [] rl s = Inr (Stay, rl, [], s)"
| "rl_type cp junk (c # cs) rl s =
     bindE (rl_newChar cp junk c rl s) (\<lambda>(act, rl1, o1, s1).
       if act \<noteq> Stay then Inr (act, rl1, o1, s1)
       else bindE (rl_type cp junk cs rl1 s1) (\<lambda>(act2, rl2, o2, s2). Inr (act2, rl2, o1 @ o2, s2)))"

definition key_codes :: "string \<Rightarrow> int list" where
  "key_codes t = map (\<lambda>c. int (ord_c c)) t"

lemma key_codes_simps [simp]: "key_codes [] = []" "key_codes (c # t) = int (ord_c c) # key_codes t"
  by (simp_all add: key_codes_def)

definition ready :: "rl_t \<Rightarrow> bool" where
  "ready rl \<longleftrightarrow> seqidx rl = 0 \<and> length (curseq rl) = 10"

lemma seq_scan_miss:
  assumes "sq = [] \<or> int (ord_c (hd sq)) \<noteq> c"
  shows "seq_scan sq [c] n 0 found = Inr (False, found)"
  using assms by (cases sq) auto

lemma bind_scan_miss:
  assumes "\<And>code sq. (code, Some sq) \<in> set bs \<Longrightarrow> sq = [] \<or> int (ord_c (hd sq)) \<noteq> c"
  shows "bind_scan bs [c] found = Inr (None, found)"
  using assms
proof (induction bs)
  case (Cons b bs)
  then have IH: "bind_scan bs [c] found = Inr (None, found)" by auto
  obtain code o1 where b: "b = (code, o1)" by (cases b)
  show ?case
  proof (cases o1)
    case (Some sq)
    have "seq_scan sq [c] (length [c]) 0 found = Inr (False, found)"
      using Cons.prems [of code sq] b Some by (intro seq_scan_miss) simp
    with IH b Some show ?thesis by simp
  qed (use IH b in simp)
qed simp

lemma getinput_printable:
  assumes "plain_caps cp" and "ready rl" and "is_print c"
  shows "\<exists>q. getinput cp (int (ord_c c)) rl = Inr (int (ord_c c), rl\<lparr>curseq := q, seqidx := 0\<rparr>, []) \<and>
    length q = 10"
proof -
  let ?c = "int (ord_c c)"
  let ?q = "(curseq rl)[0 := ?c]"
  have c: "32 \<le> ?c" "?c \<le> 126" using assms(3) by (simp_all add: is_print_def)
  have "find (\<lambda>(code, k). k = ?c) ctrls = None"
    using c by (auto simp: find_None_iff ctrls_def ctrl_def ord_c_def)
  moreover have "bind_scan (zip codes (seqs cp)) [?c] False = Inr (None, False)"
  proof (rule bind_scan_miss)
    fix code sq assume "(code, Some sq) \<in> set (zip codes (seqs cp))"
    then have sq: "Some sq \<in> set (seqs cp)" by (rule set_zip_rightD)
    show "sq = [] \<or> int (ord_c (hd sq)) \<noteq> ?c"
    proof (cases sq)
      case (Cons d ds)
      then have "\<not> is_print d" using sq assms(1) by (auto simp: plain_caps_def)
      with assms(3) have "d \<noteq> c" by auto
      with Cons show ?thesis by (simp add: ord_c_def)
    qed simp
  qed
  moreover have "take 1 ?q = [?c]" using assms(2) by (cases "curseq rl") (simp_all add: ready_def)
  moreover have "char_of (nat ?c) = c" by (simp add: ord_c_def)
  ultimately show ?thesis
    using assms c by (intro exI [of _ ?q]) (simp add: getinput_def ready_def Let_def)
qed

lemma type_char:
  assumes "plain_caps cp" and "ready rl" and "is_print c" and "shape rl l r"
    and "maxpos rl + 1 < r_maxl rl"
  shows "\<exists>rl' o1. rl_newChar cp junk (int (ord_c c)) rl s = Inr (Stay, rl', o1, s) \<and> ready rl' \<and>
    shape rl' (l @ [c]) r \<and> prompt rl' = prompt rl \<and> r_maxl rl' = r_maxl rl \<and> r_hist rl' = r_hist rl \<and>
    maxpos rl' = maxpos rl + 1"
proof -
  let ?c = "int (ord_c c)"
  have c: "32 \<le> ?c" "?c \<le> 126" using assms(3) by (simp_all add: is_print_def)
  obtain q where q: "getinput cp ?c rl = Inr (?c, rl\<lparr>curseq := q, seqidx := 0\<rparr>, [])" "length q = 10"
    using getinput_printable [OF assms(1-3)] by blast
  let ?rl = "rl\<lparr>curseq := q, seqidx := 0\<rparr>"
  have sh: "shape ?rl l r" using assms(4) by (simp add: shape_def)
  have "c \<noteq> NUL" using assms(3) by (auto simp: is_print_def NUL_def ord_c_def)
  then have "edits (key_insert cp c) ?rl (l @ [c]) r"
    using assms by (intro edits_insert [OF _ sh]) (simp_all add: plain_caps_def)
  then obtain b p m o1 where e: "key_insert cp c ?rl = Inr (edited ?rl b p m, o1)"
      "shape (edited ?rl b p m) (l @ [c]) r"
    by (auto simp: edits_def does_def)
  have "char_of (nat ?c) = c" by (simp add: ord_c_def)
  then have "edit_key cp ?c ?rl = key_insert cp c ?rl"
    using c by (simp add: edit_key_def key_defs)
  moreover have "m = maxpos rl + 1" using e(2) assms(4) by (simp add: shape_def)
  ultimately show ?thesis
    using q e c by (auto simp: rl_newChar_def key_defs ready_def)
qed

lemma type_chars:
  assumes "plain_caps cp" and "ready rl" and "\<forall>c\<in>set cs. is_print c" and "shape rl l r"
    and "maxpos rl + length cs + 1 \<le> r_maxl rl"
  shows "\<exists>rl' o1. rl_type cp junk (key_codes cs @ rest) rl s =
      bindE (rl_type cp junk rest rl' s) (\<lambda>(act2, rl2, o2, s2). Inr (act2, rl2, o1 @ o2, s2)) \<and>
    ready rl' \<and> shape rl' (l @ cs) r \<and> prompt rl' = prompt rl \<and> r_maxl rl' = r_maxl rl \<and>
    r_hist rl' = r_hist rl"
  using assms(2-)
proof (induction cs arbitrary: rl l)
  case Nil
  then show ?case
    by (intro exI [of _ rl] exI [of _ "[]"]) (auto simp: bindE_def split: sum.splits)
next
  case (Cons c cs)
  obtain rl1 o1 where 1: "rl_newChar cp junk (int (ord_c c)) rl s = Inr (Stay, rl1, o1, s)" "ready rl1"
      "shape rl1 (l @ [c]) r" "prompt rl1 = prompt rl" "r_maxl rl1 = r_maxl rl" "r_hist rl1 = r_hist rl"
      "maxpos rl1 = maxpos rl + 1"
    using type_char [OF assms(1) Cons.prems(1) _ Cons.prems(3), of c junk s] Cons.prems by auto
  obtain rl2 o2 where "rl_type cp junk (key_codes cs @ rest) rl1 s =
      bindE (rl_type cp junk rest rl2 s) (\<lambda>(act2, rl3, o3, s2). Inr (act2, rl3, o2 @ o3, s2))"
      "ready rl2" "shape rl2 ((l @ [c]) @ cs) r" "prompt rl2 = prompt rl1" "r_maxl rl2 = r_maxl rl1"
      "r_hist rl2 = r_hist rl1"
    using Cons.IH [OF 1(2) _ 1(3)] Cons.prems 1 by auto
  with 1 show ?case
    by (intro exI [of _ rl2] exI [of _ "o1 @ o2"]) (auto simp: bindE_def split: sum.splits)
qed

lemma linedone:
  assumes "full_caps cp" and "shape rl l r" and "hist_ok (r_hist rl)" and "oom s = []"
    and "plain_line (h_maxl (r_hist rl)) (l @ r)"
  shows "\<exists>rl' o1. key_linedone cp junk rl s = Inr (Line (dropWhile is_blank (l @ r)), rl', o1, s) \<and>
    r_hist rl' = hist_put (dropWhile is_blank (l @ r)) (r_hist rl)"
proof -
  obtain t where t: "rbuf rl = prompt rl @ l @ r @ NUL # t" "length (prompt rl @ l @ r @ NUL # t) = r_maxl rl"
      "NUL \<notin> set l" "NUL \<notin> set r"
    using assms(2) by (auto elim: shapeE)
  let ?cmd = "dropWhile is_blank (l @ r)"
  obtain o1 where cr: "curright cp (maxpos rl - curpos rl) rl =
      Inr (rl\<lparr>curpos := curpos rl + (maxpos rl - curpos rl)\<rparr>, o1)"
    using does_curright [OF assms(1)] by (auto simp: does_def)
  have "takeWhile (\<lambda>c. c \<noteq> NUL) ((l @ r) @ NUL # t) = l @ r"
    using t(3,4) by (intro takeWhile_append2 [THEN trans]) auto
  then have "cstr (drop (length (prompt rl)) (rbuf rl)) = l @ r" by (simp add: t(1) cstr_def)
  moreover have "length ?cmd \<le> length (l @ r)" by (rule length_dropWhile_le)
  then have "buf_strcpy (length (prompt rl)) ?cmd (rbuf rl) =
      Inr (take (length (prompt rl)) (rbuf rl) @ ?cmd @ [NUL] @ drop (length (prompt rl) + length ?cmd + 1) (rbuf rl))"
    using t by (simp add: buf_strcpy_def)
  ultimately show ?thesis
    using cr hist_cmd_plain [OF assms(3-5)] by (simp add: key_linedone_def)
qed

text \<open>
  C21. A line typed at an empty prompt is delivered: on a terminal whose sequences do not start
  with printable characters, typing the characters of a line that fits, then return, runs without
  fault and hands exactly that line, without its leading blanks, to the command interpreter, and
  the history ends with it.
\<close>

theorem typed_line_delivered:
  assumes "plain_caps cp" and "ready rl" and "shape rl [] []" and "hist_ok (r_hist rl)" and "oom s = []"
    and "\<forall>c\<in>set t. is_print c" and "plain_line (h_maxl (r_hist rl)) t"
    and "length (prompt rl) + length t + 1 \<le> r_maxl rl"
  shows "\<exists>rl' o1. rl_type cp junk (key_codes t @ [13]) rl s =
      Inr (Line (dropWhile is_blank t), rl', o1, s) \<and>
    hist_log (r_hist rl') = lastn (h_nbuf (r_hist rl)) (hist_log (r_hist rl) @ [dropWhile is_blank t])"
proof -
  have "maxpos rl + length t + 1 \<le> r_maxl rl" using assms(3,8) by (simp add: shape_def)
  from type_chars [OF assms(1,2,6,3) this, of junk "[13]" s]
  obtain rl1 o1 where 1: "rl_type cp junk (key_codes t @ [13]) rl s =
      bindE (rl_type cp junk [13] rl1 s) (\<lambda>(act2, rl2, o2, s2). Inr (act2, rl2, o1 @ o2, s2))"
    and 2: "shape rl1 t []" "r_hist rl1 = r_hist rl" by auto
  have "plain_line (h_maxl (r_hist rl1)) (t @ [])" "hist_ok (r_hist rl1)" "full_caps cp"
    using 2 assms by (simp_all add: plain_caps_def)
  from linedone [OF this(3) 2(1) this(2) assms(5) this(1), of junk]
  obtain rl2 o2 where 3: "key_linedone cp junk rl1 s = Inr (Line (dropWhile is_blank t), rl2, o2, s)"
      "r_hist rl2 = hist_put (dropWhile is_blank t) (r_hist rl)"
    using 2 by auto
  have "find (\<lambda>(code, k). k = (13 :: int)) ctrls = Some (LINEDONE, 13)"
    by (simp add: ctrls_def ctrl_def ord_c_def)
  then have "getinput cp 13 rl1 = Inr (LINEDONE, rl1, [])" by (simp add: getinput_def)
  then have "rl_type cp junk [13] rl1 s = Inr (Line (dropWhile is_blank t), rl2, o2, s)"
    using 3 by (simp add: rl_newChar_def)
  with 1 3 show ?thesis using hist_put_log [OF assms(4)] by auto
qed

definition rl_empty :: rl_t where
  "rl_empty = rl0\<lparr>rbuf := ''>'' @ replicate 15 NUL, curpos := 1, maxpos := 1\<rparr>"

theorem typed_line_delivered_witness:
  "\<exists>rl' o1. rl_type xterm (\<lambda>i. 0) (key_codes '' list'' @ [13]) rl_empty os0 =
      Inr (Line ''list'', rl', o1, os0) \<and>
    hist_log (r_hist rl') = lastn 3 (hist_log (r_hist rl_empty) @ [''list''])"
proof -
  have "\<exists>rl' o1. rl_type xterm (\<lambda>i. 0) (key_codes '' list'' @ [13]) rl_empty os0 =
      Inr (Line (dropWhile is_blank '' list''), rl', o1, os0) \<and>
    hist_log (r_hist rl') = lastn (h_nbuf (r_hist rl_empty))
      (hist_log (r_hist rl_empty) @ [dropWhile is_blank '' list''])"
  proof (rule typed_line_delivered)
    show "plain_caps xterm"
      by (simp add: plain_caps_def xterm_full seqs_def) (simp add: xterm_def esc_def is_print_def ord_c_def)
    have "replicate 15 NUL = NUL # replicate 14 NUL" by (simp add: numeral_eq_Suc)
    then show "shape rl_empty [] []" by (simp add: shape_def rl_empty_def rl0_def NUL_def)
    show "hist_ok (r_hist rl_empty)"
      using hist0_ok by (simp add: rl_empty_def rl0_def hist_ok_def hist0_def less_Suc_eq numeral_2_eq_2)
  qed (simp_all add: ready_def rl_empty_def rl0_def os0_def is_print_def ord_c_def plain_line_def
      is_blank_def is_word_def hist0_def)
  then show ?thesis by (simp add: is_blank_def rl_empty_def rl0_def hist0_def)
qed

section \<open>Where the buffer is too small\<close>

lemma seq_op_fault:
  "f rl = Inl e \<Longrightarrow> seq_op f g rl = Inl e"
  "does f rl rl1 \<Longrightarrow> g rl1 = Inl e \<Longrightarrow> seq_op f g rl = Inl e"
  by (auto simp: seq_op_def does_def)

lemma buf_move_ok:
  assumes "src + n \<le> length b" and "dst + n \<le> length b"
  shows "\<exists>b1. buf_move dst src n b = Inr b1 \<and> length b1 = length b"
  using assms by (simp add: buf_move_def)

lemma show_from_over:
  assumes "full_caps cp" and "i < length b" and "0 < w"
  shows "show_from cp w (length b) b i = Inl OutOfBounds"
  using assms
proof (induction cp w "length b" b i rule: show_from.induct)
  case (1 cp w b i)
  define n where "n = (if i + (w - i mod w) > length b then length b - i else w - i mod w)"
  have cond: "i < length b \<and> w \<noteq> 0" using "1.prems" by simp
  obtain b' where "bol cp = Some b'" using "1.prems"(1) by (auto simp: full_caps_def)
  then have "\<exists>o2. (if (i + n) mod w = 0 \<and> xenl cp
      then bindE (put_cap (bol cp)) (\<lambda>o1. Inr (Put nl # o1)) else Inr []) = Inr o2"
    by (simp add: put_cap_def)
  then obtain o2 where o2: "(if (i + n) mod w = 0 \<and> xenl cp
      then bindE (put_cap (bol cp)) (\<lambda>o1. Inr (Put nl # o1)) else Inr []) = Inr o2" ..
  show ?case
  proof (cases "length b \<le> i + n")
    case True
    then show ?thesis
      by (subst show_from.simps) (simp only: cond if_True Let_def n_def [symmetric] True, simp)
  next
    case False
    then have "show_from cp w (length b) b (i + n) = Inl OutOfBounds"
      using "1.hyps" [OF cond n_def False] "1.prems" by simp
    then show ?thesis
      by (subst show_from.simps)
        (simp only: cond if_True if_False Let_def n_def [symmetric] False o2 bindE_simps, simp)
  qed
qed

text \<open>
  C40. A character typed into a line that fills the buffer but for its terminator is inserted, and
  \<^verbatim>\<open>showbuf\<close> then stores a byte beyond the buffer: the guard of the insertion tests
  \<^verbatim>\<open>maxpos==maxl\<close>, one too late.
\<close>

theorem full_line_overruns:
  assumes "full_caps cp" and "shape rl l r" and "maxpos rl + 1 = r_maxl rl" and "0 < r_width rl"
    and "0 < i" and "i < 256"
  shows "edit_key cp i rl = Inl OutOfBounds"
proof -
  have key: "edit_key cp i rl = key_insert cp (char_of (nat i)) rl"
    using assms(5,6) by (simp add: edit_key_def key_defs)
  have t: "length (rbuf rl) = r_maxl rl" "curpos rl \<le> maxpos rl"
    using assms(2) by (auto simp: shape_def)
  obtain b1 where b1: "buf_move (curpos rl + 1) (curpos rl) (r_maxl rl - curpos rl - 1) (rbuf rl) = Inr b1"
      "length b1 = r_maxl rl"
    using buf_move_ok [of "curpos rl" "r_maxl rl - curpos rl - 1" "rbuf rl" "curpos rl + 1"] t assms(3)
    by auto
  let ?b2 = "b1[curpos rl := char_of (nat i)]"
  let ?rl2 = "rl\<lparr>rbuf := ?b2, maxpos := maxpos rl + 1\<rparr>"
  obtain c where cod: "put_cap (cod cp) = Inr c" using assms(1) by (auto simp: full_caps_def put_cap_def)
  have "show_from cp (r_width rl) (r_maxl rl) ?b2 (curpos rl) = Inl OutOfBounds"
    using show_from_over [OF assms(1), of "curpos rl" ?b2 "r_width rl"] b1(2) t assms(3,4) by simp
  then have disp: "showbuf cp True ?rl2 = Inl OutOfBounds"
    using cod assms(3) by (simp add: showbuf_def seq_op_def emit_def)
  have 1: "does (with_buf (buf_move (curpos rl + 1) (curpos rl) (r_maxl rl - curpos rl - 1))) rl
      (rl\<lparr>rbuf := b1\<rparr>)"
    by (rule does_with_buf, rule b1(1), rule refl)
  have 2: "does (with_buf (buf_set (curpos rl) (char_of (nat i)))) (rl\<lparr>rbuf := b1\<rparr>) (rl\<lparr>rbuf := ?b2\<rparr>)"
    by (rule does_with_buf [where b = ?b2]) (use b1(2) t assms(3) in \<open>simp_all add: buf_set_def\<close>)
  have 3: "does (upd (\<lambda>r. r\<lparr>maxpos := maxpos r + 1\<rparr>)) (rl\<lparr>rbuf := ?b2\<rparr>) ?rl2"
    by (rule does_upd) simp
  have "maxpos rl \<noteq> r_maxl rl" using assms(3) by simp
  then show ?thesis
    unfolding key key_insert_def
    by (simp only: if_False) (rule seq_op_fault(2) [OF 1], rule seq_op_fault(2) [OF 2],
        rule seq_op_fault(2) [OF 3], rule seq_op_fault(1), rule disp)
qed

theorem full_line_overruns_witness:
  "edit_key xterm 120 (rl0\<lparr>r_maxl := 9, rbuf := ''>set tag'' @ [NUL]\<rparr>) = Inl OutOfBounds"
  by (rule full_line_overruns [OF xterm_full, where l = "''set tag''" and r = "[]"])
    (simp_all add: shape_def rl0_def NUL_def)

end
