(* ===== verification/Trx_Common.thy ===== *)
theory Trx_Common imports Trx_Os
begin

text \<open>
  \<^verbatim>\<open>trxcommon.c\<close> and the protocol part of \<^verbatim>\<open>trx.h\<close>: the commands the manager and its clients
  exchange, the flag table, and the send and receive routines both sides are built on. A
  command is a 24-byte packet, optionally followed by a payload, and is answered by an
  acknowledgement packet that carries the sequence number and a result.
\<close>

section \<open>Commands and flags\<close>

text \<open>The anonymous enum of commands, by the numbers the compiler gives it.\<close>

definition CMD_SET :: nat where "CMD_SET = 0"
definition CMD_GET :: nat where "CMD_GET = 1"
definition CMD_ENABLE :: nat where "CMD_ENABLE = 2"
definition CMD_VALIDATE :: nat where "CMD_VALIDATE = 3"
definition CMD_POISON :: nat where "CMD_POISON = 4"
definition CMD_TRACK :: nat where "CMD_TRACK = 5"
definition CMD_TAG :: nat where "CMD_TAG = 6"
definition CMD_REPORT :: nat where "CMD_REPORT = 7"
definition CMD_PUSH :: nat where "CMD_PUSH = 8"
definition CMD_POP :: nat where "CMD_POP = 9"
definition CMD_DONE :: nat where "CMD_DONE = 10"
definition CMD_REGISTER :: nat where "CMD_REGISTER = 11"
definition CMD_ACK :: nat where "CMD_ACK = 12"

lemmas cmd_defs = CMD_SET_def CMD_GET_def CMD_ENABLE_def CMD_VALIDATE_def CMD_POISON_def
  CMD_TRACK_def CMD_TAG_def CMD_REPORT_def CMD_PUSH_def CMD_POP_def CMD_DONE_def
  CMD_REGISTER_def CMD_ACK_def

definition FLAG_ENABLE :: u32 where "FLAG_ENABLE = 1"
definition FLAG_POISON :: u32 where "FLAG_POISON = 2"
definition FLAG_VALIDATE :: u32 where "FLAG_VALIDATE = 4"
definition FLAG_TRACK :: u32 where "FLAG_TRACK = 8"

lemmas flag_defs = FLAG_ENABLE_def FLAG_POISON_def FLAG_VALIDATE_def FLAG_TRACK_def

definition TAGCUR :: int where "TAGCUR = 100"

record flgmap_t =
  flgstr :: string
  fmask :: u32
  fcmd :: nat

text \<open>The table as it stands in the source, entry by entry.\<close>

definition flgmap :: "flgmap_t list" where
  "flgmap =
     [\<lparr>flgstr = ''enable'', fmask = FLAG_ENABLE, fcmd = CMD_ENABLE\<rparr>,
      \<lparr>flgstr = ''poison'', fmask = FLAG_POISON, fcmd = CMD_POISON\<rparr>,
      \<lparr>flgstr = ''validate'', fmask = FLAG_TRACK, fcmd = CMD_TRACK\<rparr>,
      \<lparr>flgstr = ''track'', fmask = FLAG_VALIDATE, fcmd = CMD_VALIDATE\<rparr>]"

text \<open>\<^verbatim>\<open>flagMask\<close>: the mask of a flag name, \<^term>\<open>None\<close> for the \<^verbatim>\<open>-1\<close> of an unknown one.\<close>

definition flagMask :: "string \<Rightarrow> u32 option" where
  "flagMask flag = map_option fmask (find (\<lambda>e. strcaseeq (flgstr e) flag) flgmap)"

section \<open>The packet\<close>

record cmd_t =
  magic :: bytes
  plen :: u32
  pseq :: u32
  pcmd :: u8
  aux0 :: u32
  aux1 :: u32

definition TPCMD_MAGIC :: bytes where
  "TPCMD_MAGIC = bytes_of ''TpMd''"

definition CMDLEN :: int where "CMDLEN = 24"

text \<open>
  The bytes of the C structure: \<^verbatim>\<open>cmd\<close> is one \<^verbatim>\<open>char\<close> followed by three bytes of padding, which
  the sender leaves as they are (zero here) and the receiver never reads.
\<close>

definition encode_cmd :: "cmd_t \<Rightarrow> bytes" where
  "encode_cmd p = magic p @ bytes32 (plen p) @ bytes32 (pseq p) @ [pcmd p, 0, 0, 0] @
                  bytes32 (aux0 p) @ bytes32 (aux1 p)"

definition decode_cmd :: "bytes \<Rightarrow> cmd_t" where
  "decode_cmd b =
     \<lparr>magic = take 4 b, plen = word32 (take 4 (drop 4 b)), pseq = word32 (take 4 (drop 8 b)),
      pcmd = b ! 12, aux0 = word32 (take 4 (drop 16 b)), aux1 = word32 (take 4 (drop 20 b))\<rparr>"

lemma length_encode_cmd: "length (magic p) = 4 \<Longrightarrow> length (encode_cmd p) = 24"
  by (simp add: encode_cmd_def)

lemma take_bytes32 [simp]: "take 4 (bytes32 v) = bytes32 v" "drop 4 (bytes32 v @ r) = r"
  "take 4 (bytes32 v @ r) = bytes32 v"
  by (simp_all add: bytes32_def)

lemma length4_Cons: "length (b :: 'a list) = 4 \<Longrightarrow> \<exists>w x y z. b = [w, x, y, z]"
  by (auto simp: eval_nat_numeral length_Suc_conv)

lemma decode_encode_cmd:
  assumes "length (magic p) = 4"
  shows "decode_cmd (encode_cmd p) = p"
proof -
  obtain w x y z where m: "magic p = [w, x, y, z]" using length4_Cons [OF assms] by auto
  have "word32 [ucast v, ucast (drop_bit 8 v), ucast (drop_bit 16 v), ucast (drop_bit 24 v)] = v"
    for v using word32_bytes32 [of v] by (simp add: bytes32_def)
  with m show ?thesis by (simp add: decode_cmd_def encode_cmd_def bytes32_def)
qed

interpretation pkt: codec encode_cmd decode_cmd 24 "\<lambda>p. length (magic p) = 4"
  by unfold_locales (simp_all add: length_encode_cmd decode_encode_cmd)

section \<open>Sending\<close>

text \<open>The write loops: \<^verbatim>\<open>while(left) { nw=write(...); if(nw<0) return 0; ... }\<close>.\<close>

function write_all :: "int \<Rightarrow> bytes \<Rightarrow> 'a os_scheme \<Rightarrow> bool \<times> 'a os_scheme" where
  "write_all fd b s =
     (if b = [] then (True, s)
      else case os_write fd b s of (nw, s') \<Rightarrow>
        if nw < 0 then (False, s') else write_all fd (drop (nat nw) b) s')"
  by pat_completeness auto
termination
  by (relation "measure (\<lambda>(fd, b, s). length b + length (wq (chans s fd)))")
    (use os_write_progress in \<open>force simp: not_less\<close>)+

declare write_all.simps [simp del]

text \<open>\<^verbatim>\<open>while((nr=(*cb)(&buf)))\<close>: the callback's buffers, until it returns 0.\<close>

fun write_cb :: "int \<Rightarrow> bytes list \<Rightarrow> 'a os_scheme \<Rightarrow> bool \<times> 'a os_scheme" where
  "write_cb fd [] s = (True, s)"
| "write_cb fd (b # bs) s =
     (if b = [] then (True, s)
      else case write_all fd b s of (ok, s') \<Rightarrow> if ok then write_cb fd bs s' else (False, s'))"

text \<open>
  \<open>pmore\<close> is the payload buffer (\<^term>\<open>None\<close> for a null pointer), \<open>mlen\<close> its announced size and
  \<open>cb\<close> what the callback yields, call by call.
\<close>

definition mk_cmd :: "int \<Rightarrow> nat \<Rightarrow> int \<Rightarrow> int \<Rightarrow> int \<Rightarrow> cmd_t" where
  "mk_cmd sq cmd a1 a2 mlen =
     \<lparr>magic = TPCMD_MAGIC, plen = i32 (CMDLEN + mlen), pseq = i32 sq, pcmd = of_nat cmd,
      aux0 = i32 a1, aux1 = i32 a2\<rparr>"

definition sendCmdMore ::
  "int \<Rightarrow> int \<Rightarrow> nat \<Rightarrow> int \<Rightarrow> int \<Rightarrow> int \<Rightarrow> bytes option \<Rightarrow> bytes list \<Rightarrow> 'a os_scheme \<Rightarrow>
   bool \<times> 'a os_scheme" where
  "sendCmdMore fd sq cmd a1 a2 mlen pmore cb s =
     (case os_write fd (encode_cmd (mk_cmd sq cmd a1 a2 mlen)) s of (n, s1) \<Rightarrow>
        if n \<noteq> CMDLEN then (False, s1)
        else case pmore of
          Some b \<Rightarrow> write_all fd (take (nat mlen) b) s1
        | None \<Rightarrow> if mlen \<noteq> 0 then write_cb fd cb s1 else (True, s1))"

definition sendAck :: "int \<Rightarrow> cmd_t \<Rightarrow> int \<Rightarrow> 'a os_scheme \<Rightarrow> 'a os_scheme" where
  "sendAck fd cmd val s = snd (sendCmdMore fd (int_of (pseq cmd)) CMD_ACK val 0 0 None [] s)"

section \<open>Receiving\<close>

text \<open>
  \<^verbatim>\<open>recvAck\<close>: wait for the acknowledgement of the command with sequence number \<open>sq\<close>; the
  result is the value acknowledged or \<^verbatim>\<open>-1\<close>, and the next sequence number.
\<close>

definition recvAck :: "int \<Rightarrow> u32 \<Rightarrow> 'a os_scheme \<Rightarrow> (int \<times> u32) \<times> 'a os_scheme" where
  "recvAck fd sq s =
     (case os_select s of (n, s1) \<Rightarrow>
        if n > 0 then
          (case os_read fd CMDLEN s1 of ((r, b), s2) \<Rightarrow>
             (let p = decode_cmd b;
                  val = (if r \<noteq> CMDLEN then -1
                         else if pcmd p \<noteq> of_nat CMD_ACK then -1
                         else if sq \<noteq> pseq p then -1
                         else int_of (aux0 p))
              in ((val, sq + 1), s2)))
        else ((-1, sq), s1))"

text \<open>
  The payload loop \<^verbatim>\<open>while(left && (nr=read(fd, pmore+pos, left))>0)\<close>: the bytes read and the
  last \<^verbatim>\<open>nr\<close>.
\<close>

function read_all ::
  "int \<Rightarrow> int \<Rightarrow> bytes \<Rightarrow> 'a os_scheme \<Rightarrow> fault + (int \<times> bytes) \<times> 'a os_scheme" where
  "read_all fd left acc s =
     (if left = 0 then Inr ((1, acc), s)
      else case os_wait_read fd left s of
        Inl f \<Rightarrow> Inl f
      | Inr ((nr, b), s') \<Rightarrow>
          (if nr > 0 then read_all fd (left - nr) (acc @ b) s' else Inr ((nr, acc), s')))"
  by pat_completeness auto
termination
  by (relation "measure (\<lambda>(fd, left, acc, s). nat left)")
    (auto simp: os_wait_read_def os_read_def Let_def split: if_splits list.splits)

declare read_all.simps [simp del]

text \<open>
  \<^verbatim>\<open>rcvCmd\<close>: one command with its payload, handed to the callback, whose result is sent back in
  the acknowledgement. A negative result is \<^verbatim>\<open>-1\<close>: a short header, a wrong magic, a payload that
  does not arrive or that finds no memory; reading into the null pointer of a failed \<^verbatim>\<open>malloc\<close>
  waits for input, fails (\<^verbatim>\<open>EFAULT\<close>) and takes no bytes off the channel. Every \<^verbatim>\<open>read\<close> here waits.
\<close>

definition rcvCmd ::
  "int \<Rightarrow> (cmd_t \<Rightarrow> int \<Rightarrow> bytes option \<Rightarrow> 'a os_scheme \<Rightarrow> fault + int \<times> 'a os_scheme) \<Rightarrow>
   'a os_scheme \<Rightarrow> fault + int \<times> 'a os_scheme" where
  "rcvCmd fd cb s =
     bindE (os_wait_read fd CMDLEN s) (\<lambda>((r, b), s1).
        if r \<noteq> CMDLEN then Inr (-1, s1)
        else if magic (decode_cmd b) \<noteq> TPCMD_MAGIC then Inr (-1, s1)
        else
          (let pkt = decode_cmd b;
               left = int_of (plen pkt - i32 CMDLEN);
               finish = (\<lambda>pmore s2. bindE (cb pkt left pmore s2)
                           (\<lambda>(ackval, s3). Inr (ackval, sendAck fd pkt ackval s3)))
           in if left = 0 then finish None s1
              else case os_malloc s1 of (ok, s2) \<Rightarrow>
                if \<not> ok then (if would_wait fd left s2 then Inl Blocked else Inr (-1, s2))
                else bindE (read_all fd left [] s2) (\<lambda>((nr, p), s3).
                  if nr \<le> 0 then Inr (-1, s3) else finish (Some p) s3)))"

section \<open>What is sent arrives\<close>

lemma length_magic [simp]: "length TPCMD_MAGIC = 4"
  by (simp add: TPCMD_MAGIC_def)

lemma magic_mk_cmd [simp]: "magic (mk_cmd sq cmd a1 a2 n) = TPCMD_MAGIC"
  by (simp add: mk_cmd_def)

lemma write_all_tx:
  "write_all fd b s = (True, s') \<Longrightarrow> tx (chans s' fd) = tx (chans s fd) @ b"
proof (induction fd b s rule: write_all.induct)
  case (1 fd b s)
  show ?case
  proof (cases "b = []")
    case True
    with "1.prems" show ?thesis by (simp add: write_all.simps [of fd "[]" s])
  next
    case False
    obtain nw s1 where w: "os_write fd b s = (nw, s1)" by force
    with False "1.prems" have nw: "0 \<le> nw" and rest: "write_all fd (drop (nat nw) b) s1 = (True, s')"
      by (auto simp: write_all.simps [of fd b s] split: if_splits)
    from "1.IH" [OF False w [symmetric] _ rest] nw
    have "tx (chans s' fd) = tx (chans s1 fd) @ drop (nat nw) b" by simp
    with os_write_tx [OF w nw] show ?thesis by simp
  qed
qed

lemma sendCmdMore_tx:
  assumes "sendCmdMore fd sq cmd a1 a2 mlen pmore [] s = (True, s')"
  shows "tx (chans s' fd) = tx (chans s fd) @ encode_cmd (mk_cmd sq cmd a1 a2 mlen) @
           (case pmore of None \<Rightarrow> [] | Some b \<Rightarrow> take (nat mlen) b)"
proof -
  let ?h = "encode_cmd (mk_cmd sq cmd a1 a2 mlen)"
  obtain n s1 where w: "os_write fd ?h s = (n, s1)" by force
  with assms have n: "n = 24" by (auto simp: sendCmdMore_def CMDLEN_def split: if_splits)
  have "length ?h = 24" by (simp add: length_encode_cmd)
  with os_write_tx [OF w] n have t: "tx (chans s1 fd) = tx (chans s fd) @ ?h" by simp
  show ?thesis
  proof (cases pmore)
    case None
    with assms w n t show ?thesis by (auto simp: sendCmdMore_def CMDLEN_def split: if_splits)
  next
    case (Some b)
    with assms w n have "write_all fd (take (nat mlen) b) s1 = (True, s')"
      by (simp add: sendCmdMore_def CMDLEN_def)
    with t Some show ?thesis by (simp add: write_all_tx)
  qed
qed

text \<open>A peer that keeps accepting bytes, however few at a time, gets the whole packet.\<close>

lemma os_read_chunk:
  assumes "isopen (chans s fd)" and "rx (chans s fd) = b # bs" and "int (length b) = n"
  shows "os_read fd n s = ((n, b), set_chan fd ((chans s fd)\<lparr>rx := bs\<rparr>) s)"
  using assms by (auto simp: os_read_def Let_def)

lemma os_wait_read_Inr:
  "os_wait_read fd n s = Inr r \<Longrightarrow> os_read fd n s = r"
  "\<not> would_wait fd n s \<Longrightarrow> os_wait_read fd n s = Inr (os_read fd n s)"
  "rx (chans s fd) \<noteq> [] \<Longrightarrow> \<not> would_wait fd n s"
  by (auto simp: os_wait_read_def would_wait_def Let_def split: if_splits)

lemma read_all_chunks:
  assumes "isopen (chans s fd)" and "[] \<notin> set (rx (chans s fd))"
    and "concat (rx (chans s fd)) = p" and "int (length p) = left"
  shows "\<exists>nr. 0 < nr \<and> read_all fd left acc s =
           Inr ((nr, acc @ p), set_chan fd ((chans s fd)\<lparr>rx := []\<rparr>) s)"
  using assms
proof (induction "rx (chans s fd)" arbitrary: s acc left p)
  case Nil
  then have "set_chan fd ((chans s fd)\<lparr>rx := []\<rparr>) s = s"
    by (metis chan.surjective chan.update_convs(2) set_chan_id)
  with Nil show ?case by (auto simp: read_all.simps [of fd 0] intro!: exI [of _ 1])
next
  case (Cons b bs)
  define s1 where "s1 = set_chan fd ((chans s fd)\<lparr>rx := bs\<rparr>) s"
  from Cons.hyps(2) Cons.prems have b: "b \<noteq> []" and p: "p = b @ concat bs"
    by (metis list.set_intros(1), metis concat.simps(2))
  from p Cons.prems have left: "int (length b) + int (length (concat bs)) = left" by auto
  have "os_read fd left s = ((int (length b), b), s1)"
    using Cons.prems(1) left b by (auto simp: os_read_def Let_def s1_def Cons.hyps(2) [symmetric])
  then have r: "os_wait_read fd left s = Inr ((int (length b), b), s1)"
    using os_wait_read_Inr(2) [OF os_wait_read_Inr(3), of s fd left] Cons.hyps(2) by (metis list.distinct(1))
  have "\<exists>nr. 0 < nr \<and> read_all fd (left - int (length b)) (acc @ b) s1 =
     Inr ((nr, (acc @ b) @ concat bs), set_chan fd ((chans s1 fd)\<lparr>rx := []\<rparr>) s1)"
    by (rule Cons.hyps(1)) (use Cons.prems Cons.hyps(2) [symmetric] left in \<open>auto simp: s1_def\<close>)
  moreover have lb: "0 < length b" using b by simp
  moreover from lb left have "left \<noteq> 0" by linarith
  ultimately show ?case
    using r by (auto simp: read_all.simps [of fd left] p s1_def)
qed

lemma int_of_diff_CMDLEN:
  assumes "0 \<le> n" and "n < 2147483000"
  shows "int_of (i32 (CMDLEN + n) - i32 CMDLEN) = n"
proof -
  have "i32 (CMDLEN + n) - i32 CMDLEN = i32 n" by (simp add: i32_def)
  with assms show ?thesis by simp
qed

text \<open>
  The receiving side: a header that arrives in one piece, and its payload in any number of
  pieces, reach the callback as they were sent, and the result goes back in the acknowledgement.
\<close>

lemma rcvCmd_delivers:
  assumes p: "magic p = TPCMD_MAGIC" "plen p = i32 (CMDLEN + n)" "0 \<le> n" "n < 2147483000"
    and s: "isopen (chans s fd)" "rx (chans s fd) = encode_cmd p # bs" "[] \<notin> set bs"
      "int (length (concat bs)) = n" "oom s = []"
  shows "rcvCmd fd cb s =
    bindE (cb p n (if n = 0 then None else Some (concat bs))
              (set_chan fd ((chans s fd)\<lparr>rx := []\<rparr>) s))
      (\<lambda>(v, s'). Inr (v, sendAck fd p v s'))"
proof -
  let ?s1 = "set_chan fd ((chans s fd)\<lparr>rx := bs\<rparr>) s"
  have m: "length (magic p) = 4" using p by simp
  have "os_read fd CMDLEN s = ((CMDLEN, encode_cmd p), ?s1)"
    using s m by (intro os_read_chunk) (auto simp: length_encode_cmd CMDLEN_def)
  then have r: "os_wait_read fd CMDLEN s = Inr ((CMDLEN, encode_cmd p), ?s1)"
    using os_wait_read_Inr(2) [OF os_wait_read_Inr(3), of s fd CMDLEN] s(2) by simp
  have len: "int_of (plen p - i32 CMDLEN) = n" using p by (simp add: int_of_diff_CMDLEN)
  show ?thesis
  proof (cases "n = 0")
    case True
    with s have "concat bs = []" by simp
    with s(3) have "bs = []" by (cases bs) auto
    with True r m p len show ?thesis by (simp add: rcvCmd_def decode_encode_cmd)
  next
    case False
    obtain nr where nr: "0 < nr" "read_all fd n [] ?s1 =
        Inr ((nr, concat bs), set_chan fd ((chans s fd)\<lparr>rx := []\<rparr>) s)"
      using read_all_chunks [of ?s1 fd "concat bs" n "[]"] s by auto
    have "os_malloc ?s1 = (True, ?s1)" using s by (simp add: os_malloc_def)
    with False r m p len nr show ?thesis by (simp add: rcvCmd_def decode_encode_cmd)
  qed
qed

text \<open>The acknowledgement is accepted by the sender that waits for it.\<close>

lemma recvAck_of_ack:
  assumes "isopen (chans s fd)" and "sels s = n # ns" and "0 < n"
    and "rx (chans s fd) = encode_cmd (mk_cmd (int_of sq) CMD_ACK v 0 0) # bs"
    and "- 2147483648 \<le> v" and "v < 2147483648"
  shows "fst (recvAck fd sq s) = (v, sq + 1)"
proof -
  let ?p = "mk_cmd (int_of sq) CMD_ACK v 0 0"
  have sel: "os_select s = (n, s\<lparr>sels := ns\<rparr>)" using assms by (simp add: os_select_def)
  have "os_read fd CMDLEN (s\<lparr>sels := ns\<rparr>) =
      ((CMDLEN, encode_cmd ?p), set_chan fd ((chans s fd)\<lparr>rx := bs\<rparr>) (s\<lparr>sels := ns\<rparr>))"
    by (rule os_read_chunk [where s = "s\<lparr>sels := ns\<rparr>", simplified])
      (use assms in \<open>auto simp: CMDLEN_def length_encode_cmd\<close>)
  moreover have "decode_cmd (encode_cmd ?p) = ?p" by (simp add: decode_encode_cmd)
  moreover have "pseq ?p = sq" by (simp add: mk_cmd_def i32_def int_of_def)
  moreover have "int_of (aux0 ?p) = v" using assms by (simp add: mk_cmd_def)
  moreover have "pcmd ?p = of_nat CMD_ACK" by (simp add: mk_cmd_def)
  ultimately show ?thesis using sel assms(3) by (simp add: recvAck_def Let_def)
qed

text \<open>A value is accepted only from an acknowledgement packet with the awaited sequence number.\<close>

lemma recvAck_accepts:
  assumes "recvAck fd sq s = ((v, sq'), s')" and "v \<noteq> -1"
  shows "\<exists>b. snd (fst (os_read fd CMDLEN (snd (os_select s)))) = b \<and>
    fst (fst (os_read fd CMDLEN (snd (os_select s)))) = CMDLEN \<and>
    pcmd (decode_cmd b) = of_nat CMD_ACK \<and> pseq (decode_cmd b) = sq \<and>
    v = int_of (aux0 (decode_cmd b)) \<and> sq' = sq + 1"
  using assms by (auto simp: recvAck_def Let_def split: prod.splits if_splits)

section \<open>The input of a channel only shrinks\<close>

definition pending :: "int \<Rightarrow> 'a os_scheme \<Rightarrow> nat" where
  "pending fd s = length (concat (rx (chans s fd)))"

lemma os_read_pending:
  assumes "os_read fd n s = ((r, b), s')"
  shows "pending fd s' + length b = pending fd s" and "0 < r \<Longrightarrow> int (length b) = r"
    and "fd \<noteq> fd' \<Longrightarrow> pending fd' s' = pending fd' s"
  using assms
  by (auto simp: os_read_def Let_def pending_def min_def split: if_splits list.splits)

lemma os_write_pending: "os_write fd b s = (r, s') \<Longrightarrow> pending fd' s' = pending fd' s"
  by (auto simp: os_write_def Let_def pending_def split: if_splits list.splits)

lemma write_all_pending: "write_all fd b s = (ok, s') \<Longrightarrow> pending fd' s' = pending fd' s"
proof (induction fd b s rule: write_all.induct)
  case (1 fd b s)
  obtain nw s1 where w: "os_write fd b s = (nw, s1)" by force
  show ?case
  proof (cases "b = [] \<or> nw < 0")
    case True
    with "1.prems" w os_write_pending [OF w] show ?thesis
      by (auto simp: write_all.simps [of fd b s] split: if_splits)
  next
    case False
    with "1.prems" w have "write_all fd (drop (nat nw) b) s1 = (ok, s')"
      by (auto simp: write_all.simps [of fd b s] split: if_splits)
    with "1.IH" [OF _ w [symmetric]] False os_write_pending [OF w] show ?thesis by simp
  qed
qed

lemma write_cb_pending: "write_cb fd bs s = (ok, s') \<Longrightarrow> pending fd' s' = pending fd' s"
proof (induction fd bs s rule: write_cb.induct)
  case (2 fd b bs s)
  obtain ok1 s1 where w: "write_all fd b s = (ok1, s1)" by force
  with 2 write_all_pending [OF w] show ?case by (auto split: if_splits)
qed simp

lemma sendCmdMore_pending:
  assumes "sendCmdMore fd sq cmd a1 a2 n p cb s = (ok, s')"
  shows "pending fd' s' = pending fd' s"
proof -
  obtain r s1 where w: "os_write fd (encode_cmd (mk_cmd sq cmd a1 a2 n)) s = (r, s1)" by force
  show ?thesis
    using assms w os_write_pending [OF w, of fd'] write_all_pending [of fd _ s1 ok s' fd']
      write_cb_pending [of fd cb s1 ok s' fd']
    by (auto simp: sendCmdMore_def split: if_splits option.splits)
qed

lemma sendAck_pending [simp]: "pending fd' (sendAck fd c v s) = pending fd' s"
  unfolding sendAck_def by (metis prod.collapse sendCmdMore_pending)

lemma os_select_pending: "os_select s = (n, s') \<Longrightarrow> pending fd s' = pending fd s"
  by (auto simp: os_select_def pending_def split: list.splits)

lemma os_malloc_pending: "os_malloc s = (n, s') \<Longrightarrow> pending fd s' = pending fd s"
  by (auto simp: os_malloc_def pending_def split: list.splits)

lemma recvAck_pending:
  assumes "recvAck fd sq s = (r, s')"
  shows "pending fd' s' \<le> pending fd' s"
proof -
  obtain n s1 where sel: "os_select s = (n, s1)" by force
  obtain r' b s2 where rd: "os_read fd CMDLEN s1 = ((r', b), s2)" by (metis prod.collapse)
  have "pending fd' s2 \<le> pending fd' s1"
    using os_read_pending(1,3) [OF rd] by (cases "fd' = fd") auto
  with assms sel rd os_select_pending [OF sel, of fd'] show ?thesis
    by (auto simp: recvAck_def Let_def split: if_splits)
qed

lemma read_all_pending:
  "read_all fd left acc s = Inr ((nr, p), s') \<Longrightarrow> pending fd' s' \<le> pending fd' s"
proof (induction fd left acc s rule: read_all.induct)
  case (1 fd left acc s)
  show ?case
  proof (cases "os_wait_read fd left s")
    case (Inl f)
    with "1.prems" show ?thesis by (auto simp: read_all.simps [of fd left acc s] split: if_splits)
  next
    case (Inr x)
    obtain r b s1 where x: "x = ((r, b), s1)" by (metis prod.collapse)
    note rd = os_wait_read_Inr(1) [OF Inr [unfolded x]]
    have le: "pending fd' s1 \<le> pending fd' s"
      using os_read_pending(1,3) [OF rd] by (cases "fd' = fd") auto
    show ?thesis
    proof (cases "left \<noteq> 0 \<and> r > 0")
      case True
      then have "read_all fd (left - r) (acc @ b) s1 = Inr ((nr, p), s')"
        using "1.prems" Inr x by (simp add: read_all.simps [of fd left acc s])
      then have "pending fd' s' \<le> pending fd' s1"
        using "1.IH" [OF _ Inr [unfolded x] refl refl] True by blast
      with le show ?thesis by simp
    next
      case False
      with "1.prems" Inr x le show ?thesis
        by (cases "left = 0") (auto simp: read_all.simps [of fd left acc s] read_all.simps [of fd 0])
    qed
  qed
qed

section \<open>The protocol routines touch the channels only\<close>

lemma write_all_more: "write_all fd b s = (ok, s') \<Longrightarrow> os.more s' = os.more s"
proof (induction fd b s rule: write_all.induct)
  case (1 fd b s)
  obtain nw s1 where w: "os_write fd b s = (nw, s1)" by force
  show ?case
  proof (cases "b = [] \<or> nw < 0")
    case True
    with "1.prems" w os_write_more [OF w] show ?thesis
      by (auto simp: write_all.simps [of fd b s] split: if_splits)
  next
    case False
    with "1.prems" w have "write_all fd (drop (nat nw) b) s1 = (ok, s')"
      by (auto simp: write_all.simps [of fd b s] split: if_splits)
    with "1.IH" [OF _ w [symmetric]] False os_write_more [OF w] show ?thesis by simp
  qed
qed

lemma write_cb_more: "write_cb fd bs s = (ok, s') \<Longrightarrow> os.more s' = os.more s"
proof (induction fd bs s rule: write_cb.induct)
  case (2 fd b bs s)
  obtain ok1 s1 where w: "write_all fd b s = (ok1, s1)" by force
  with 2 write_all_more [OF w] show ?case by (auto split: if_splits)
qed simp

lemma sendCmdMore_more:
  assumes "sendCmdMore fd sq cmd a1 a2 n p cb s = (ok, s')"
  shows "os.more s' = os.more s"
proof -
  obtain r s1 where w: "os_write fd (encode_cmd (mk_cmd sq cmd a1 a2 n)) s = (r, s1)" by force
  show ?thesis
    using assms w os_write_more [OF w] write_all_more [of fd _ s1 ok s']
      write_cb_more [of fd cb s1 ok s']
    by (auto simp: sendCmdMore_def split: if_splits option.splits)
qed

lemma sendAck_more [simp]: "os.more (sendAck fd c v s) = os.more s"
  unfolding sendAck_def by (metis prod.collapse sendCmdMore_more)

lemma os_select_more: "os_select s = (n, s') \<Longrightarrow> os.more s' = os.more s"
  by (auto simp: os_select_def split: list.splits)

lemma os_malloc_more: "os_malloc s = (n, s') \<Longrightarrow> os.more s' = os.more s"
  by (auto simp: os_malloc_def split: list.splits)

lemma recvAck_more:
  assumes "recvAck fd sq s = (r, s')"
  shows "os.more s' = os.more s"
proof -
  obtain n s1 where sel: "os_select s = (n, s1)" by force
  obtain r' b s2 where rd: "os_read fd CMDLEN s1 = ((r', b), s2)" by (metis prod.collapse)
  from assms sel rd os_select_more [OF sel] os_read_more [OF rd] show ?thesis
    by (auto simp: recvAck_def Let_def split: if_splits)
qed

lemma read_all_more: "read_all fd left acc s = Inr ((nr, p), s') \<Longrightarrow> os.more s' = os.more s"
proof (induction fd left acc s rule: read_all.induct)
  case (1 fd left acc s)
  show ?case
  proof (cases "os_wait_read fd left s")
    case (Inl f)
    with "1.prems" show ?thesis by (auto simp: read_all.simps [of fd left acc s] split: if_splits)
  next
    case (Inr x)
    obtain r b s1 where x: "x = ((r, b), s1)" by (metis prod.collapse)
    note rd = os_wait_read_Inr(1) [OF Inr [unfolded x]]
    show ?thesis
    proof (cases "left \<noteq> 0 \<and> r > 0")
      case True
      then have "read_all fd (left - r) (acc @ b) s1 = Inr ((nr, p), s')"
        using "1.prems" Inr x by (simp add: read_all.simps [of fd left acc s])
      then have "os.more s' = os.more s1"
        using "1.IH" [OF _ Inr [unfolded x] refl refl] True by blast
      with os_read_more [OF rd] show ?thesis by simp
    next
      case False
      with "1.prems" Inr x os_read_more [OF rd] show ?thesis
        by (cases "left = 0") (auto simp: read_all.simps [of fd left acc s] read_all.simps [of fd 0])
    qed
  qed
qed

text \<open>The ways \<^verbatim>\<open>rcvCmd\<close> returns: without a header, without a payload, or from the callback.\<close>

lemma rcvCmd_cases:
  assumes "rcvCmd fd cb s = Inr (v, s')"
  obtains (short) r1 b where "os_read fd CMDLEN s = ((r1, b), s')" "v = -1"
  | (failed) b s1 where "os_read fd CMDLEN s = ((CMDLEN, b), s1)" "v = -1" "pending fd s' \<le> pending fd s1"
      "os.more s' = os.more s1"
  | (answered) b s1 t c n pm where "os_read fd CMDLEN s = ((CMDLEN, b), s1)" "pending fd t \<le> pending fd s1"
      "os.more t = os.more s1" "bindE (cb c n pm t) (\<lambda>(w, t'). Inr (w, sendAck fd c w t')) = Inr (v, s')"
proof -
  obtain r1 b s1 where w: "os_wait_read fd CMDLEN s = Inr ((r1, b), s1)"
    using assms by (auto simp: rcvCmd_def)
  note rd = os_wait_read_Inr(1) [OF w]
  obtain ok s2 where ma: "os_malloc s1 = (ok, s2)" by force
  note m = os_malloc_pending [OF ma, of fd] os_malloc_more [OF ma]
  define left where "left = int_of (plen (decode_cmd b) - i32 CMDLEN)"
  consider (a) "r1 \<noteq> CMDLEN" | (b) "r1 = CMDLEN" "magic (decode_cmd b) \<noteq> TPCMD_MAGIC"
    | (c) "r1 = CMDLEN" "magic (decode_cmd b) = TPCMD_MAGIC" "left = 0"
    | (d) "r1 = CMDLEN" "magic (decode_cmd b) = TPCMD_MAGIC" "left \<noteq> 0" "\<not> ok"
    | (e) "r1 = CMDLEN" "magic (decode_cmd b) = TPCMD_MAGIC" "left \<noteq> 0" "ok" by blast
  then show thesis
  proof cases
    case a
    with assms w rd show thesis by (intro short [of r1 b]) (simp_all add: rcvCmd_def)
  next
    case b
    with assms w rd show thesis by (intro failed [of b s1]) (simp_all add: rcvCmd_def)
  next
    case c
    with assms w rd show thesis
      by (intro answered [of b s1 s1 "decode_cmd b" left None]) (simp_all add: rcvCmd_def left_def Let_def)
  next
    case d
    with assms w rd ma m show thesis
      by (intro failed [of b s1]) (auto simp: rcvCmd_def left_def Let_def split: if_splits)
  next
    case e
    then obtain nr p s3 where ra: "read_all fd left [] s2 = Inr ((nr, p), s3)"
      using assms w ma by (auto simp: rcvCmd_def left_def Let_def)
    note n = read_all_pending [OF ra, of fd] read_all_more [OF ra]
    show thesis
    proof (cases "nr \<le> 0")
      case True
      with assms w rd ma m n ra e show thesis
        by (intro failed [of b s1]) (auto simp: rcvCmd_def left_def Let_def)
    next
      case False
      with assms w rd ma m n ra e show thesis
        by (intro answered [of b s1 s3 "decode_cmd b" left "Some p"]) (auto simp: rcvCmd_def left_def Let_def)
    qed
  qed
qed

text \<open>Every command received takes its header off the channel, so a receive loop ends.\<close>

lemma rcvCmd_pending:
  assumes r: "rcvCmd fd cb s = Inr (v, s')"
    and cb: "\<And>p n pm t w t'. cb p n pm t = Inr (w, t') \<Longrightarrow> pending fd t' \<le> pending fd t"
  shows "pending fd s' \<le> pending fd s" and "0 \<le> v \<Longrightarrow> pending fd s' + nat CMDLEN \<le> pending fd s"
proof -
  have "pending fd s' \<le> pending fd s \<and> (0 \<le> v \<longrightarrow> pending fd s' + nat CMDLEN \<le> pending fd s)"
    using r
  proof (cases rule: rcvCmd_cases)
    case (short r1 b)
    with os_read_pending(1) [OF short(1)] show ?thesis by simp
  next
    case (failed b s1)
    with os_read_pending(1) [OF failed(1)] show ?thesis by simp
  next
    case (answered b s1 t c n pm)
    have "pending fd s' \<le> pending fd t" using answered(4) cb by (auto split: prod.splits)
    with answered(2) os_read_pending(1,2) [OF answered(1)] show ?thesis by (simp add: CMDLEN_def)
  qed
  then show "pending fd s' \<le> pending fd s" and "0 \<le> v \<Longrightarrow> pending fd s' + nat CMDLEN \<le> pending fd s" by auto
qed

text \<open>
  A property of the rest of the state that the callback keeps is kept by \<^verbatim>\<open>rcvCmd\<close>.
\<close>

lemma rcvCmd_inv:
  assumes r: "rcvCmd fd cb s = Inr (v, s')"
    and P: "\<And>t t'. os.more t = os.more t' \<Longrightarrow> P t = P t'"
    and cb: "\<And>p n pm t w t'. cb p n pm t = Inr (w, t') \<Longrightarrow> P t \<Longrightarrow> P t'"
    and s: "P s"
  shows "P s'"
  using r
proof (cases rule: rcvCmd_cases)
  case (short r1 b)
  with P [OF os_read_more [OF short(1)]] s show ?thesis by simp
next
  case (failed b s1)
  with P [OF failed(4)] P [OF os_read_more [OF failed(1)]] s show ?thesis by simp
next
  case (answered b s1 t c n pm)
  have "P t" using P [OF answered(3)] P [OF os_read_more [OF answered(1)]] s by simp
  with answered(4) cb [of c n pm t] P [OF sendAck_more] show ?thesis by (auto split: prod.splits)
qed

end
