(* ===== verification/Trx_MgrState.thy ===== *)
theory Trx_MgrState imports Trx_Common Trx_Rl
begin

text \<open>
  The state of the manager, \<^verbatim>\<open>trxmgr\<close>: the tables of its traced clients (\<^verbatim>\<open>trxmgrClient.c\<close>), its
  consoles (\<^verbatim>\<open>trxmgrCli.c\<close>) and its configuration (\<^verbatim>\<open>trxmgr.c\<close>), and the routines on a console
  that all the others use: output, closing, the countdown of pending answers, input. The kernel's
  answers are part of the state, as in \<open>Trx_Os\<close>.
\<close>

section \<open>State\<close>

text \<open>A \<^verbatim>\<open>char *\<close> variable: null, a string, or a string that was freed.\<close>

datatype sptr = SNull | SStr string | SFreed

definition MAXCNAME :: nat where "MAXCNAME = 100"

record appdata_t =
  cname :: string
  aflags :: u32
  atag :: u32

text \<open>A pointer to a configuration: into \<^verbatim>\<open>apps\<close>, to one of the two defaults, or null.\<close>

datatype app_ptr = ANull | AApp nat | ADefault | ANoMatch

record cdata_t =
  c_fd :: int
  c_pid :: int
  c_total :: int
  needConfig :: bool
  produceFinalReport :: bool
  c_more :: int
  reportTo :: nat
  c_subCmd :: int
  c_pmore :: "bytes option"
  c_name :: sptr
  c_seq :: u32
  c_adata :: app_ptr
  snap :: "bytes option"
  snapsize :: nat

record cli_t =
  t_fd :: int
  t_ffd :: int
  t_iac :: int
  waiting :: int
  curval :: int
  curcmd :: int
  t_tag :: int
  t_subCmd :: int
  ipStr :: string
  t_rl :: "rl_t option"
  scope :: "sptr list"

definition MAXCLIENTS :: nat where "MAXCLIENTS = 100"
definition MAXCLI :: nat where "MAXCLI = 10"
definition MAXSCOPE :: nat where "MAXSCOPE = 20"
definition MAXAPPS :: nat where "MAXAPPS = 100"

record mgr = os +
  \<comment> \<open>\<^verbatim>\<open>trxmgrClient.c\<close>\<close>
  clients :: "cdata_t list"
  serverFd :: int
  \<comment> \<open>\<^verbatim>\<open>trxmgrCli.c\<close>\<close>
  cli :: "cli_t list"
  summary :: int
  cliFd :: int
  \<comment> \<open>\<^verbatim>\<open>trxmgr.c\<close>; \<open>apps\<close> holds the \<^verbatim>\<open>nApps\<close> entries in use\<close>
  apps :: "appdata_t list"
  defaultsValid :: bool
  defaultFlags :: u32
  conffile :: string
  redoConf :: bool
  \<comment> \<open>\<^verbatim>\<open>trxmgrRl.c\<close>: the terminal sequences, once set up\<close>
  termcaps :: "caps option"
  \<comment> \<open>the system: results of the calls to come, by kind, and what the files hold\<close>
  sys :: "int list"
  readys :: "int list list"
  eintrs :: "bool list"
  files :: "string \<Rightarrow> string option"
  procStatus :: "int \<Rightarrow> string option"
  procStatm :: "int \<Rightarrow> string option"
  msegs :: "int \<Rightarrow> bytes option"
  mshmats :: "bool list"
  mshmstats :: "bool list"
  terminfo :: "caps option"
  mjunk :: "nat \<Rightarrow> int"
  peer :: string
  errstr :: string

type_synonym mgr_op = "mgr \<Rightarrow> fault + mgr"

text \<open>Access to the tables. The indices come from loops over the tables.\<close>

definition upd_cli :: "nat \<Rightarrow> (cli_t \<Rightarrow> cli_t) \<Rightarrow> mgr \<Rightarrow> mgr" where
  "upd_cli idx f s = s\<lparr>cli := (cli s)[idx := f (cli s ! idx)]\<rparr>"

definition upd_client :: "nat \<Rightarrow> (cdata_t \<Rightarrow> cdata_t) \<Rightarrow> mgr \<Rightarrow> mgr" where
  "upd_client idx f s = s\<lparr>clients := (clients s)[idx := f (clients s ! idx)]\<rparr>"

text \<open>
  A system call whose result is a number: \<^verbatim>\<open>socket\<close>, \<^verbatim>\<open>bind\<close>, \<^verbatim>\<open>listen\<close>, \<^verbatim>\<open>accept\<close>, \<^verbatim>\<open>open\<close>,
  \<^verbatim>\<open>fork\<close>. A new descriptor is open; an opened file is empty.
\<close>

definition sys_call :: "mgr \<Rightarrow> int \<times> mgr" where
  "sys_call s = (case sys s of [] \<Rightarrow> (-1, s) | r # rs \<Rightarrow> (r, s\<lparr>sys := rs\<rparr>))"

definition sys_newfd :: "bool \<Rightarrow> mgr \<Rightarrow> int \<times> mgr" where
  "sys_newfd trunc s =
     (case sys_call s of (r, s1) \<Rightarrow>
        (r, if r < 0 then s1
            else set_chan r ((chans s1 r)\<lparr>isopen := True,
                               tx := (if trunc then [] else tx (chans s1 r))\<rparr>) s1))"

text \<open>\<^verbatim>\<open>strdup\<close>, and the use of a string pointer: by the program, or by \<^verbatim>\<open>printf("%s")\<close>.\<close>

definition os_strdup :: "string \<Rightarrow> 'a os_scheme \<Rightarrow> sptr \<times> 'a os_scheme" where
  "os_strdup t s = (case os_malloc s of (ok, s1) \<Rightarrow> (if ok then SStr t else SNull, s1))"

definition str_of :: "sptr \<Rightarrow> fault + string" where
  "str_of p = (case p of SStr t \<Rightarrow> Inr t | _ \<Rightarrow> Inl DeadPointer)"

definition prt_of :: "sptr \<Rightarrow> fault + string" where
  "prt_of p = (case p of SStr t \<Rightarrow> Inr t | SNull \<Rightarrow> Inr ''(null)'' | SFreed \<Rightarrow> Inl DeadPointer)"

definition free_str :: "sptr \<Rightarrow> fault + sptr" where
  "free_str p = (case p of SNull \<Rightarrow> Inr SNull | SStr t \<Rightarrow> Inr SFreed | SFreed \<Rightarrow> Inl DeadPointer)"

section \<open>Output to a console\<close>

text \<open>\<^verbatim>\<open>\n\<close> becomes \<^verbatim>\<open>\r\n\<close>.\<close>

definition crlf :: "string \<Rightarrow> string" where
  "crlf f = concat (map (\<lambda>c. if c = CHR 0x0A then [CHR 0x0D, c] else [c]) f)"

text \<open>
  \<^verbatim>\<open>cliPrt\<close>: the format is copied to a buffer of 300 bytes, converted when it goes to the
  terminal, and the output is cut at 298 characters.
\<close>

definition PRTBUF :: nat where "PRTBUF = 300"

definition cliPrt :: "nat \<Rightarrow> prt \<Rightarrow> mgr_op" where
  "cliPrt idx p s =
     (case p of (fmt, args) \<Rightarrow>
        let c = cli s ! idx; myfmt = (if t_ffd c < 0 then crlf fmt else fmt) in
        if PRTBUF \<le> length myfmt then Inl OutOfBounds
        else case printf myfmt args of
          None \<Rightarrow> Inl Indeterminate
        | Some full \<Rightarrow>
            (let out = cstr (take (PRTBUF - 2) full) in
             Inr (snd (os_write (if t_ffd c \<ge> 0 then t_ffd c else t_fd c) (bytes_of out) s))))"

definition cliPutStr :: "nat \<Rightarrow> string \<Rightarrow> mgr \<Rightarrow> mgr" where
  "cliPutStr idx t s = snd (os_write (t_fd (cli s ! idx)) (bytes_of t) s)"

text \<open>The output of the editor and the report code, call by call.\<close>

definition run_out :: "nat \<Rightarrow> out \<Rightarrow> mgr_op" where
  "run_out idx x s = (case x of Put t \<Rightarrow> Inr (cliPutStr idx t s) | Prt p \<Rightarrow> cliPrt idx p s)"

definition run_outs :: "nat \<Rightarrow> out list \<Rightarrow> mgr_op" where
  "run_outs idx = eachE (run_out idx)"

section \<open>Closing a console, and pending answers\<close>

text \<open>\<^verbatim>\<open>while(*one) { free(*one); one++; }\<close>: the pointers are left as they are.\<close>

fun free_scope :: "sptr list \<Rightarrow> fault + sptr list" where
  "free_scope [] = Inl OutOfBounds"
| "free_scope (p # ps) =
     (if p = SNull then Inr (p # ps)
      else bindE (free_str p) (\<lambda>q. bindE (free_scope ps) (\<lambda>qs. Inr (q # qs))))"

definition closeCli :: "nat \<Rightarrow> mgr_op" where
  "closeCli idx s =
     (let s1 = upd_cli idx (\<lambda>c. c\<lparr>t_fd := -1\<rparr>) (os_close (t_fd (cli s ! idx)) s)
      in bindE (free_scope (scope (cli s1 ! idx))) (\<lambda>sc. Inr (upd_cli idx (\<lambda>c. c\<lparr>scope := sc\<rparr>) s1)))"

definition cliClose :: "nat \<Rightarrow> mgr_op" where
  "cliClose idx = closeCli idx"

text \<open>An operation of the console's editor.\<close>

definition on_rl :: "nat \<Rightarrow> (caps \<Rightarrow> rl_op) \<Rightarrow> mgr_op" where
  "on_rl idx f s =
     (case (t_rl (cli s ! idx), termcaps s) of
        (Some rl, Some cp) \<Rightarrow>
          bindE (f cp rl) (\<lambda>(rl1, out). run_outs idx out (upd_cli idx (\<lambda>c. c\<lparr>t_rl := Some rl1\<rparr>) s))
      | _ \<Rightarrow> Inl DeadPointer)"

definition cliDecWait :: "nat \<Rightarrow> mgr_op" where
  "cliDecWait idx s =
     (if waiting (cli s ! idx) = 0 then Inr s
      else
        (let s1 = upd_cli idx (\<lambda>c. c\<lparr>waiting := waiting c - 1\<rparr>) s in
         if waiting (cli s1 ! idx) \<noteq> 0 then Inr s1
         else
           (let s2 = (if t_ffd (cli s1 ! idx) \<ge> 0
                      then upd_cli idx (\<lambda>c. c\<lparr>t_ffd := -1\<rparr>) (os_close (t_ffd (cli s1 ! idx)) s1)
                      else s1)
            in on_rl idx (\<lambda>cp. rlShowPrompt cp True) s2)))"

section \<open>Input from a console\<close>

definition IAC :: int where "IAC = 255"
definition IAC_BREAK :: int where "IAC_BREAK = 243"

text \<open>
  The filter for telnet's negotiation: one byte read, in the state \<open>iac\<close>; the new state and the
  result, 0 for a byte taken out.
\<close>

definition iac_step :: "int \<Rightarrow> int \<Rightarrow> int \<times> int" where
  "iac_step iac c =
     (if iac \<noteq> 0 then
        (if iac + 1 = 3 then (0, 0)
         else if c = IAC \<or> c = IAC_BREAK then (0, 0) else (iac + 1, 0))
      else if c = IAC then (1, 0)
      else (iac, c))"

definition cliGetchar :: "nat \<Rightarrow> mgr \<Rightarrow> int \<times> mgr" where
  "cliGetchar idx s =
     (case os_read (t_fd (cli s ! idx)) 1 s of ((n, b), s1) \<Rightarrow>
        if n = 1 then
          (case iac_step (t_iac (cli s1 ! idx)) (uint (hd b)) of (iac, r) \<Rightarrow>
             (r, upd_cli idx (\<lambda>c. c\<lparr>t_iac := iac\<rparr>) s1))
        else (-1, s1))"

section \<open>The configuration of an application\<close>

definition getAppConfig :: "string \<Rightarrow> mgr \<Rightarrow> app_ptr" where
  "getAppConfig name s =
     (case find (\<lambda>i. cname (apps s ! i) = name) [0..<length (apps s)] of
        Some i \<Rightarrow> AApp i
      | None \<Rightarrow> if defaultsValid s then ADefault else ANoMatch)"

text \<open>The flags it points to; an entry beyond those in use holds what the last copy left there.\<close>

definition app_flags :: "app_ptr \<Rightarrow> mgr \<Rightarrow> fault + u32" where
  "app_flags p s =
     (case p of
        ANull \<Rightarrow> Inl DeadPointer
      | AApp i \<Rightarrow> if i < length (apps s) then Inr (aflags (apps s ! i)) else Inl Indeterminate
      | ADefault \<Rightarrow> Inr (defaultFlags s)
      | ANoMatch \<Rightarrow> Inr 0)"

end
