(* ===== verification/Trx_List.thy ===== *)
theory Trx_List imports Trx_Mem
begin

text \<open>
  The intrusive lists of \<^verbatim>\<open>trxlist.h\<close>. An element at address \<open>x\<close> carries at offset \<open>f\<close> the
  linkage \<^verbatim>\<open>{ le_next, le_prev }\<close>, two 32-bit cells; \<^verbatim>\<open>le_prev\<close> holds the address of the cell that
  points at the element (the \<^verbatim>\<open>lh_first\<close> cell of the head or the \<^verbatim>\<open>le_next\<close> cell of the previous
  element). The macros are the memory transformers below, statement by statement; \<open>dlist\<close> relates
  a head cell to the HOL list it stands for, and the lemmas show each macro to be the list
  operation it names.
\<close>

section \<open>The macros\<close>

definition le_next :: "u32 \<Rightarrow> u32 \<Rightarrow> u32" where
  "le_next f elm = elm + f"

definition le_prev :: "u32 \<Rightarrow> u32 \<Rightarrow> u32" where
  "le_prev f elm = elm + f + 4"

definition LIST_INIT :: "mem \<Rightarrow> u32 \<Rightarrow> mem" where
  "LIST_INIT m head = st32 m head 0"

definition LIST_INSERT_AFTER :: "mem \<Rightarrow> u32 \<Rightarrow> u32 \<Rightarrow> u32 \<Rightarrow> mem" where
  "LIST_INSERT_AFTER m listelm elm f =
     (let m1 = st32 m (le_next f elm) (ld32 m (le_next f listelm));
          m2 = (if ld32 m1 (le_next f elm) \<noteq> 0
                then st32 m1 (le_prev f (ld32 m1 (le_next f listelm))) (le_next f elm)
                else m1);
          m3 = st32 m2 (le_next f listelm) elm
      in st32 m3 (le_prev f elm) (le_next f listelm))"

definition LIST_INSERT_BEFORE :: "mem \<Rightarrow> u32 \<Rightarrow> u32 \<Rightarrow> u32 \<Rightarrow> mem" where
  "LIST_INSERT_BEFORE m listelm elm f =
     (let m1 = st32 m (le_prev f elm) (ld32 m (le_prev f listelm));
          m2 = st32 m1 (le_next f elm) listelm;
          m3 = st32 m2 (ld32 m2 (le_prev f listelm)) elm
      in st32 m3 (le_prev f listelm) (le_next f elm))"

definition LIST_INSERT_HEAD :: "mem \<Rightarrow> u32 \<Rightarrow> u32 \<Rightarrow> u32 \<Rightarrow> mem" where
  "LIST_INSERT_HEAD m head elm f =
     (let m1 = st32 m (le_next f elm) (ld32 m head);
          m2 = (if ld32 m1 (le_next f elm) \<noteq> 0
                then st32 m1 (le_prev f (ld32 m1 head)) (le_next f elm)
                else m1);
          m3 = st32 m2 head elm
      in st32 m3 (le_prev f elm) head)"

definition LIST_REMOVE :: "mem \<Rightarrow> u32 \<Rightarrow> u32 \<Rightarrow> mem" where
  "LIST_REMOVE m elm f =
     (let m1 = (if ld32 m (le_next f elm) \<noteq> 0
                then st32 m (le_prev f (ld32 m (le_next f elm))) (ld32 m (le_prev f elm))
                else m)
      in st32 m1 (ld32 m1 (le_prev f elm)) (ld32 m1 (le_next f elm)))"

text \<open>
  \<^verbatim>\<open>LIST_FOREACH\<close> visits the elements until a null \<^verbatim>\<open>le_next\<close>; the loop has no other bound, so
  the list of visited elements is an option, \<^term>\<open>None\<close> for a traversal that never ends.
\<close>

partial_function (option) foreach_from :: "mem \<Rightarrow> u32 \<Rightarrow> u32 \<Rightarrow> u32 list option" where
  "foreach_from m f var =
     (if var = 0 then Some []
      else Option.bind (foreach_from m f (ld32 m (le_next f var))) (\<lambda>xs. Some (var # xs)))"

definition LIST_FOREACH :: "mem \<Rightarrow> u32 \<Rightarrow> u32 \<Rightarrow> u32 list option" where
  "LIST_FOREACH m head f = foreach_from m f (ld32 m head)"

definition LIST_EMPTY :: "mem \<Rightarrow> u32 \<Rightarrow> bool" where
  "LIST_EMPTY m head \<longleftrightarrow> ld32 m head = 0"

definition LIST_FIRST :: "mem \<Rightarrow> u32 \<Rightarrow> u32" where
  "LIST_FIRST m head = ld32 m head"

definition LIST_NEXT :: "mem \<Rightarrow> u32 \<Rightarrow> u32 \<Rightarrow> u32" where
  "LIST_NEXT m elm f = ld32 m (le_next f elm)"

text \<open>\<^verbatim>\<open>LIST_PREV\<close> is \<^verbatim>\<open>*(elm)->field.le_prev\<close>: the content of the cell that points at \<open>elm\<close>.\<close>

definition LIST_PREV :: "mem \<Rightarrow> u32 \<Rightarrow> u32 \<Rightarrow> u32" where
  "LIST_PREV m elm f = ld32 m (ld32 m (le_prev f elm))"

section \<open>The list a head cell stands for\<close>

fun dlseg :: "mem \<Rightarrow> u32 \<Rightarrow> u32 \<Rightarrow> u32 list \<Rightarrow> bool" where
  "dlseg m f pc [] = True"
| "dlseg m f pc (x # xs) =
     (ld32 m pc = x \<and> x \<noteq> 0 \<and> ld32 m (le_prev f x) = pc \<and> dlseg m f (le_next f x) xs)"

text \<open>The cell that points at the element after the list \<open>xs\<close>.\<close>

fun last_cell :: "u32 \<Rightarrow> u32 \<Rightarrow> u32 list \<Rightarrow> u32" where
  "last_cell f pc [] = pc"
| "last_cell f pc (x # xs) = last_cell f (le_next f x) xs"

definition dlist :: "mem \<Rightarrow> u32 \<Rightarrow> u32 \<Rightarrow> u32 list \<Rightarrow> bool" where
  "dlist m f head xs \<longleftrightarrow> dlseg m f head xs \<and> ld32 m (last_cell f head xs) = 0"

text \<open>Head cell and linkages of a set of elements do not overlap.\<close>

definition nodes_apart :: "u32 \<Rightarrow> u32 \<Rightarrow> u32 set \<Rightarrow> bool" where
  "nodes_apart f head X \<longleftrightarrow>
     (\<forall>x\<in>X. apart head 4 (x + f) 8) \<and>
     (\<forall>x\<in>X. \<forall>y\<in>X. x \<noteq> y \<longrightarrow> apart (x + f) 8 (y + f) 8)"

lemma nodes_apart_mono: "nodes_apart f h Y \<Longrightarrow> X \<subseteq> Y \<Longrightarrow> nodes_apart f h X"
  by (auto simp: nodes_apart_def)

lemma cell_within_node:
  "within (le_next f x) 4 (x + f) 8" "within (le_prev f x) 4 (x + f) 8" "within a n a n"
  by (simp_all add: within_def le_next_def le_prev_def)

lemma apart_neq: "apart a (Suc n) b k \<Longrightarrow> a \<noteq> b"
  by (auto simp: apart_def)

lemma node_cells:
  assumes "nodes_apart f h X" and "x \<in> X"
  shows "apart h 4 (le_next f x) 4" "apart h 4 (le_prev f x) 4"
    "apart (le_next f x) 4 h 4" "apart (le_prev f x) 4 h 4"
    "apart (le_next f x) 4 (le_prev f x) 4" "apart (le_prev f x) 4 (le_next f x) 4"
proof -
  from assms have h: "apart h 4 (x + f) 8" by (auto simp: nodes_apart_def)
  show 1: "apart h 4 (le_next f x) 4" "apart h 4 (le_prev f x) 4"
    by (rule apart_within [OF h]; simp add: cell_within_node)+
  then show "apart (le_next f x) 4 h 4" "apart (le_prev f x) 4 h 4"
    by (simp_all add: apart_commute)
  show "apart (le_next f x) 4 (le_prev f x) 4" "apart (le_prev f x) 4 (le_next f x) 4"
    by (simp_all add: apart_def le_next_def le_prev_def)
qed

lemma node_cells_other:
  assumes "nodes_apart f h X" and "x \<in> X" and "y \<in> X" and "x \<noteq> y"
  shows "apart (le_next f x) 4 (le_next f y) 4" "apart (le_next f x) 4 (le_prev f y) 4"
    "apart (le_prev f x) 4 (le_next f y) 4" "apart (le_prev f x) 4 (le_prev f y) 4"
proof -
  from assms have h: "apart (x + f) 8 (y + f) 8" by (auto simp: nodes_apart_def)
  show "apart (le_next f x) 4 (le_next f y) 4" "apart (le_next f x) 4 (le_prev f y) 4"
    "apart (le_prev f x) 4 (le_next f y) 4" "apart (le_prev f x) 4 (le_prev f y) 4"
    by (rule apart_within [OF h]; simp add: cell_within_node)+
qed

lemma dlseg_append:
  "dlseg m f pc (xs @ ys) \<longleftrightarrow> dlseg m f pc xs \<and> dlseg m f (last_cell f pc xs) ys"
  by (induction xs arbitrary: pc) auto

lemma last_cell_append [simp]: "last_cell f pc (xs @ ys) = last_cell f (last_cell f pc xs) ys"
  by (induction xs arbitrary: pc) auto

lemma last_cell_nonempty: "xs \<noteq> [] \<Longrightarrow> last_cell f pc xs = le_next f (last xs)"
  by (induction xs arbitrary: pc) auto

lemma last_cell_cases:
  "last_cell f pc xs = pc \<and> xs = [] \<or> (\<exists>x\<in>set xs. last_cell f pc xs = le_next f x)"
  using last_cell_nonempty [of xs f pc] last_in_set [of xs] by (cases "xs = []") auto

text \<open>A write that avoids every cell of a list leaves the list as it is.\<close>

lemma dlseg_frame:
  assumes "\<forall>x\<in>set xs. ld32 m' (le_next f x) = ld32 m (le_next f x) \<and>
                      ld32 m' (le_prev f x) = ld32 m (le_prev f x)"
    and "ld32 m' pc = ld32 m pc"
  shows "dlseg m' f pc xs = dlseg m f pc xs"
  using assms by (induction xs arbitrary: pc) auto

lemma dlist_frame:
  assumes "\<forall>x\<in>set xs. ld32 m' (le_next f x) = ld32 m (le_next f x) \<and>
                      ld32 m' (le_prev f x) = ld32 m (le_prev f x)"
    and "ld32 m' h = ld32 m h"
  shows "dlist m' f h xs = dlist m f h xs"
proof -
  have "ld32 m' (last_cell f h xs) = ld32 m (last_cell f h xs)"
    using last_cell_cases [of f h xs] assms by auto
  with dlseg_frame [OF assms] show ?thesis by (simp add: dlist_def)
qed

lemma dlist_Nil [simp]: "dlist m f h [] \<longleftrightarrow> ld32 m h = 0"
  by (simp add: dlist_def)

lemma dlist_Cons:
  "dlist m f h (x # xs) \<longleftrightarrow>
     ld32 m h = x \<and> x \<noteq> 0 \<and> ld32 m (le_prev f x) = h \<and> dlist m f (le_next f x) xs"
  by (auto simp: dlist_def)

lemma dlist_append:
  "dlist m f h (xs @ ys) \<longleftrightarrow> dlseg m f h xs \<and> dlist m f (last_cell f h xs) ys"
  by (auto simp: dlist_def dlseg_append)

lemma dlist_unique: "dlist m f c xs \<Longrightarrow> dlist m f c ys \<Longrightarrow> xs = ys"
proof (induction xs arbitrary: c ys)
  case Nil
  then show ?case by (cases ys) (auto simp: dlist_Cons)
next
  case (Cons x xs)
  then show ?case by (cases ys) (auto simp: dlist_Cons)
qed

lemma dlist_distinct: "dlist m f c xs \<Longrightarrow> distinct xs"
proof (induction xs arbitrary: c)
  case Nil
  then show ?case by simp
next
  case (Cons x xs)
  then have tl: "dlist m f (le_next f x) xs" by (simp add: dlist_Cons)
  have "x \<notin> set xs"
  proof
    assume "x \<in> set xs"
    then obtain as bs where xs: "xs = as @ x # bs" by (auto simp: in_set_conv_decomp)
    with tl have "dlist m f (le_next f x) bs" by (simp add: dlist_append dlist_Cons)
    with tl have "xs = bs" by (rule dlist_unique)
    with xs show False by simp
  qed
  with tl Cons.IH show ?case by auto
qed

section \<open>The macros are the list operations they name\<close>

lemma dlist_init: "dlist (LIST_INIT m h) f h []"
  by (simp add: LIST_INIT_def)

lemma dlist_insert_head:
  assumes l: "dlist m f h xs" and n: "nodes_apart f h (insert e (set xs))"
    and e: "e \<notin> set xs" "e \<noteq> 0"
  shows "dlist (LIST_INSERT_HEAD m h e f) f h (e # xs)"
proof -
  note ce = node_cells [OF n insertI1]
  note cs = node_cells [OF n insertI2] and oth = node_cells_other [OF n insertI1 insertI2]
    and oth2 = node_cells_other [OF n insertI2 insertI1]
  show ?thesis
  proof (cases xs)
    case Nil
    with l e ce show ?thesis
      by (simp add: LIST_INSERT_HEAD_def dlist_Cons frame_simps Let_def)
  next
    case (Cons y ys)
    from l have d: "y \<notin> set ys" using dlist_distinct [of m f h xs] Cons by auto
    from e have ey: "e \<noteq> y" "y \<noteq> e" using Cons by auto
    let ?m = "LIST_INSERT_HEAD m h e f"
    have tl: "dlist m f (le_next f y) ys" using l Cons by (simp add: dlist_Cons)
    have y: "y \<in> set xs" using Cons by simp
    have fr: "ld32 ?m (le_next f z) = ld32 m (le_next f z) \<and>
              (z \<noteq> y \<longrightarrow> ld32 ?m (le_prev f z) = ld32 m (le_prev f z))" if z: "z \<in> set xs" for z
    proof -
      from z e have ze: "e \<noteq> z" by auto
      have "z \<noteq> y \<Longrightarrow> apart (le_prev f y) 4 (le_next f z) 4 \<and> apart (le_prev f y) 4 (le_prev f z) 4"
        using node_cells_other [OF n insertI2 insertI2, OF y z] by auto
      then show ?thesis
        using ce cs [OF z] cs [OF y] oth [OF z ze] oth [OF y ey(1)] l Cons
        by (cases "z = y") (simp_all add: LIST_INSERT_HEAD_def Let_def frame_simps dlist_Cons)
    qed
    have "dlist ?m f (le_next f y) ys"
      by (subst dlist_frame [OF _ , where m = m]) (use fr tl d Cons in auto)
    moreover have "ld32 ?m h = e" "ld32 ?m (le_prev f e) = h" "ld32 ?m (le_next f e) = y"
      "ld32 ?m (le_prev f y) = le_next f e"
      using ce cs [OF y] oth [OF y ey(1)] oth2 [OF y ey(2)] l Cons
      by (simp_all add: LIST_INSERT_HEAD_def Let_def frame_simps dlist_Cons)
    ultimately show ?thesis using l e Cons by (simp add: dlist_Cons)
  qed
qed

text \<open>The cells a segment reads: not the one that points past its end.\<close>

lemma dlseg_frame_butlast:
  assumes "\<forall>x\<in>set (butlast xs). ld32 m' (le_next f x) = ld32 m (le_next f x)"
    and "\<forall>x\<in>set xs. ld32 m' (le_prev f x) = ld32 m (le_prev f x)"
    and "xs \<noteq> [] \<Longrightarrow> ld32 m' pc = ld32 m pc"
  shows "dlseg m' f pc xs = dlseg m f pc xs"
  using assms
proof (induction xs arbitrary: pc)
  case Nil
  then show ?case by simp
next
  case (Cons x xs)
  have "dlseg m' f (le_next f x) xs = dlseg m f (le_next f x) xs"
    by (rule Cons.IH) (use Cons.prems in \<open>auto split: if_splits\<close>)
  with Cons.prems show ?case by auto
qed

text \<open>
  The pointer cell of an element of a list, seen from the segment before it: it is apart from
  every cell the segment reads and from the linkages that follow.
\<close>

lemma last_cell_apart:
  assumes n: "nodes_apart f h (set (as @ bs))" and d: "distinct (as @ bs)"
  shows "\<forall>x\<in>set (butlast as). apart (last_cell f h as) 4 (le_next f x) 4"
    and "\<forall>x\<in>set (as @ bs). apart (last_cell f h as) 4 (le_prev f x) 4"
    and "\<forall>x\<in>set bs. apart (last_cell f h as) 4 (le_next f x) 4"
    and "as \<noteq> [] \<Longrightarrow> apart (last_cell f h as) 4 h 4"
proof -
  let ?c = "last_cell f h as"
  consider "as = []" | a where "as = butlast as @ [a]" "?c = le_next f a" "a \<in> set as"
    using last_cell_nonempty [of as f h] append_butlast_last_id [of as] last_in_set [of as]
    by metis
  then have "(\<forall>x\<in>set (butlast as). apart ?c 4 (le_next f x) 4) \<and>
    (\<forall>x\<in>set (as @ bs). apart ?c 4 (le_prev f x) 4) \<and>
    (\<forall>x\<in>set bs. apart ?c 4 (le_next f x) 4) \<and> (as \<noteq> [] \<longrightarrow> apart ?c 4 h 4)"
  proof cases
    case 1
    then show ?thesis using node_cells [OF n] by auto
  next
    case 2
    have a: "a \<in> set (as @ bs)" using 2 by simp
    have neq: "x \<noteq> a" if "x \<in> set (butlast as) \<or> x \<in> set bs" for x
      using d 2 that by (metis distinct_append disjoint_iff not_distinct_conv_prefix
          append_butlast_last_id butlast_snoc distinct_butlast in_set_butlastD)
    have "apart (le_next f a) 4 (le_next f x) 4" if "x \<in> set (butlast as) \<or> x \<in> set bs" for x
      using node_cells_other(1) [OF n a _ neq [OF that, symmetric]] that
      by (auto dest: in_set_butlastD)
    moreover have "apart (le_next f a) 4 (le_prev f x) 4" if "x \<in> set (as @ bs)" for x
      using node_cells_other(2) [OF n a that] node_cells(5) [OF n a] by (cases "x = a") auto
    ultimately show ?thesis using 2 node_cells(3) [OF n a] by auto
  qed
  then show "\<forall>x\<in>set (butlast as). apart ?c 4 (le_next f x) 4"
    and "\<forall>x\<in>set (as @ bs). apart ?c 4 (le_prev f x) 4"
    and "\<forall>x\<in>set bs. apart ?c 4 (le_next f x) 4"
    and "as \<noteq> [] \<Longrightarrow> apart ?c 4 h 4" by simp_all
qed

lemma dlist_remove:
  assumes l: "dlist m f h (as @ e # bs)" and n: "nodes_apart f h (set (as @ e # bs))"
  shows "dlist (LIST_REMOVE m e f) f h (as @ bs)"
proof -
  let ?c = "last_cell f h as" and ?m = "LIST_REMOVE m e f"
  from l have d: "distinct (as @ e # bs)" by (rule dlist_distinct)
  from l have as: "dlseg m f h as" and e: "ld32 m ?c = e" "ld32 m (le_prev f e) = ?c"
    and bs: "dlist m f (le_next f e) bs" by (auto simp: dlist_append dlist_Cons)
  note c = last_cell_apart [OF n d]
  have e_in: "e \<in> set (as @ e # bs)" by simp
  show ?thesis
  proof (cases bs)
    case Nil
    then have m: "?m = st32 m ?c 0" using bs e by (simp add: LIST_REMOVE_def)
    have "dlseg ?m f h as"
      by (subst dlseg_frame_butlast [where m = m]) (use as c m in \<open>auto simp: frame_simps\<close>)
    with m Nil show ?thesis by (simp add: dlist_def)
  next
    case (Cons y ys)
    have y: "y \<in> set (as @ e # bs)" "y \<noteq> e" "y \<noteq> 0" "ld32 m (le_next f e) = y"
      using Cons d bs by (auto simp: dlist_Cons)
    have ye: "e \<noteq> y" using y by simp
    have m: "?m = st32 (st32 m (le_prev f y) ?c) ?c y"
      using y e node_cells_other [OF n y(1) e_in y(2)]
      by (simp add: LIST_REMOVE_def Let_def frame_simps)
    have py: "apart (le_prev f y) 4 (le_next f x) 4 \<and> (x \<noteq> y \<longrightarrow> apart (le_prev f y) 4 (le_prev f x) 4)"
      if "x \<in> set (as @ e # bs)" for x
      using node_cells_other [OF n y(1) that] node_cells(6) [OF n y(1)] by (cases "x = y") auto
    have yd: "y \<notin> set as" "y \<notin> set ys" using d Cons by auto
    have "dlseg ?m f h as"
    proof (subst dlseg_frame_butlast [where m = m])
      show "\<forall>x\<in>set (butlast as). ld32 ?m (le_next f x) = ld32 m (le_next f x)"
        using c py by (auto simp: m frame_simps dest: in_set_butlastD)
      show "\<forall>x\<in>set as. ld32 ?m (le_prev f x) = ld32 m (le_prev f x)"
      proof
        fix x assume x: "x \<in> set as"
        with yd have "x \<noteq> y" by auto
        with py [of x] c x show "ld32 ?m (le_prev f x) = ld32 m (le_prev f x)"
          by (simp add: m frame_simps)
      qed
      show "ld32 ?m h = ld32 m h" if "as \<noteq> []"
        using c that node_cells(4) [OF n y(1)] by (auto simp: m frame_simps)
      show "dlseg m f h as" by (rule as)
    qed
    moreover have "ld32 ?m ?c = y" by (simp add: m)
    moreover have "ld32 ?m (le_prev f y) = ?c" using c y by (auto simp: m frame_simps)
    moreover have "dlist ?m f (le_next f y) ys"
    proof (subst dlist_frame [where m = m])
      show "\<forall>x\<in>set ys. ld32 ?m (le_next f x) = ld32 m (le_next f x) \<and>
                        ld32 ?m (le_prev f x) = ld32 m (le_prev f x)"
      proof
        fix x assume x: "x \<in> set ys"
        with yd have "x \<noteq> y" by auto
        with py [of x] c x Cons show "ld32 ?m (le_next f x) = ld32 m (le_next f x) \<and>
            ld32 ?m (le_prev f x) = ld32 m (le_prev f x)"
          by (simp add: m frame_simps)
      qed
      show "ld32 ?m (le_next f y) = ld32 m (le_next f y)"
        using c py [OF y(1)] Cons by (auto simp: m frame_simps)
      show "dlist m f (le_next f y) ys" using bs Cons by (simp add: dlist_Cons)
    qed
    ultimately show ?thesis using Cons y by (simp add: dlist_append dlist_Cons)
  qed
qed

text \<open>What the two macros write: nothing but linkages and the pointer cell.\<close>

lemma LIST_INSERT_HEAD_frame:
  assumes "apart (le_next f e) 4 h 4"
    and "apart (le_next f e) 4 c k" "apart (le_prev f e) 4 c k" "apart h 4 c k"
    and "ld32 m h \<noteq> 0 \<Longrightarrow> apart (le_prev f (ld32 m h)) 4 c k"
  shows "mem_read (LIST_INSERT_HEAD m h e f) c k = mem_read m c k"
  using assms by (auto simp: LIST_INSERT_HEAD_def Let_def frame_simps)

lemma LIST_REMOVE_frame:
  assumes "ld32 m (le_prev f e) = pc" and "ld32 m (le_next f e) = nx"
    and "nx \<noteq> 0 \<Longrightarrow> apart (le_prev f nx) 4 (le_prev f e) 4 \<and> apart (le_prev f nx) 4 (le_next f e) 4 \<and>
           apart (le_prev f nx) 4 c k"
    and "apart pc 4 c k"
  shows "mem_read (LIST_REMOVE m e f) c k = mem_read m c k"
  using assms by (auto simp: LIST_REMOVE_def Let_def frame_simps)

lemma LIST_REMOVE_dlist_frame:
  assumes d: "dlist m f h (as @ e # bs)" and n: "nodes_apart f h (set (as @ e # bs))"
    and c: "\<And>x. x \<in> set (as @ e # bs) \<Longrightarrow> apart (le_next f x) 4 c k \<and> apart (le_prev f x) 4 c k"
    and h: "apart h 4 c k"
  shows "mem_read (LIST_REMOVE m e f) c k = mem_read m c k"
proof (rule LIST_REMOVE_frame)
  show "ld32 m (le_prev f e) = last_cell f h as"
    and "ld32 m (le_next f e) = (case bs of [] \<Rightarrow> 0 | y # _ \<Rightarrow> y)"
    using d by (auto simp: dlist_append dlist_Cons split: list.splits)
  show "apart (last_cell f h as) 4 c k" using last_cell_cases [of f h as] c h by auto
  assume "(case bs of [] \<Rightarrow> 0 | y # _ \<Rightarrow> y) \<noteq> 0"
  then obtain y ys where y: "bs = y # ys" by (auto split: list.splits)
  with dlist_distinct [OF d] have "y \<noteq> e" by auto
  then show "apart (le_prev f (case bs of [] \<Rightarrow> 0 | y # _ \<Rightarrow> y)) 4 (le_prev f e) 4 \<and>
    apart (le_prev f (case bs of [] \<Rightarrow> 0 | y # _ \<Rightarrow> y)) 4 (le_next f e) 4 \<and>
    apart (le_prev f (case bs of [] \<Rightarrow> 0 | y # _ \<Rightarrow> y)) 4 c k"
    using node_cells_other [OF n, of y e] c [of y] y by auto
qed

text \<open>\<^verbatim>\<open>LIST_INSERT_AFTER\<close> is the head insertion at the \<^verbatim>\<open>le_next\<close> cell of the element.\<close>

lemma LIST_INSERT_AFTER_head:
  "LIST_INSERT_AFTER m a e f = LIST_INSERT_HEAD m (le_next f a) e f"
  by (simp add: LIST_INSERT_AFTER_def LIST_INSERT_HEAD_def)

text \<open>A traversal of a well-formed list ends and visits its elements in order.\<close>

lemma foreach_dlist:
  "dlist m f c xs \<Longrightarrow> foreach_from m f (ld32 m c) = Some xs"
proof (induction xs arbitrary: c)
  case Nil
  then show ?case by (simp add: foreach_from.simps)
next
  case (Cons x xs)
  then have "foreach_from m f (ld32 m (le_next f x)) = Some xs" and "ld32 m c = x" "x \<noteq> 0"
    by (auto simp: dlist_Cons)
  then show ?case by (simp add: foreach_from.simps [of m f x])
qed

lemma LIST_FOREACH_dlist: "dlist m f h xs \<Longrightarrow> LIST_FOREACH m h f = Some xs"
  by (simp add: LIST_FOREACH_def foreach_dlist)

text \<open>
  What \<^verbatim>\<open>LIST_PREV\<close> yields on a well-formed list: the element itself, since the cell that
  \<^verbatim>\<open>le_prev\<close> addresses is the one that points at it.
\<close>

lemma LIST_PREV_self: "dlist m f h xs \<Longrightarrow> e \<in> set xs \<Longrightarrow> LIST_PREV m e f = e"
  by (auto simp: in_set_conv_decomp LIST_PREV_def dlist_append dlist_Cons)

lemma LIST_NEXT_dlist:
  "dlist m f h (as @ e # bs) \<Longrightarrow> LIST_NEXT m e f = (case bs of [] \<Rightarrow> 0 | y # _ \<Rightarrow> y)"
  by (auto simp: LIST_NEXT_def dlist_append dlist_Cons split: list.splits)

section \<open>The interface\<close>

text \<open>
  What a client of an intrusive list relies on: a representation of the list, room for the
  linkages involved, and the effect of the three operations the tracker uses. The client
  lemmas speak of whole histories of insertions and removals.
\<close>

datatype 'e list_op = Insert 'e | Remove 'e

fun list_op_spec :: "'e list \<Rightarrow> 'e list_op \<Rightarrow> 'e list" where
  "list_op_spec xs (Insert e) = e # xs"
| "list_op_spec xs (Remove e) = remove1 e xs"

fun list_op_ok :: "'e list \<Rightarrow> 'e list_op \<Rightarrow> bool" where
  "list_op_ok xs (Insert e) = (e \<notin> set xs)"
| "list_op_ok xs (Remove e) = (e \<in> set xs)"

fun list_ops_ok :: "'e list \<Rightarrow> 'e list_op list \<Rightarrow> bool" where
  "list_ops_ok xs [] = True"
| "list_ops_ok xs (p # ps) = (list_op_ok xs p \<and> list_ops_ok (list_op_spec xs p) ps)"

fun list_op_elem :: "'e list_op \<Rightarrow> 'e" where
  "list_op_elem (Insert e) = e"
| "list_op_elem (Remove e) = e"

locale intrusive_list =
  fixes repr :: "'m \<Rightarrow> 'h \<Rightarrow> 'e list \<Rightarrow> bool"
    and room :: "'h \<Rightarrow> 'e set \<Rightarrow> bool"
    and init :: "'m \<Rightarrow> 'h \<Rightarrow> 'm"
    and insert_head :: "'m \<Rightarrow> 'h \<Rightarrow> 'e \<Rightarrow> 'm"
    and remove :: "'m \<Rightarrow> 'e \<Rightarrow> 'm"
    and null :: "'e"
  assumes repr_init: "repr (init m h) h []"
    and repr_insert: "repr m h xs \<Longrightarrow> room h (insert e (set xs)) \<Longrightarrow> e \<notin> set xs \<Longrightarrow> e \<noteq> null \<Longrightarrow>
      repr (insert_head m h e) h (e # xs)"
    and repr_remove: "repr m h (as @ e # bs) \<Longrightarrow> room h (set (as @ e # bs)) \<Longrightarrow>
      repr (remove m e) h (as @ bs)"
    and repr_distinct: "repr m h xs \<Longrightarrow> distinct xs"
    and room_mono: "room h Y \<Longrightarrow> X \<subseteq> Y \<Longrightarrow> room h X"
begin

fun run :: "'m \<Rightarrow> 'h \<Rightarrow> 'e list_op list \<Rightarrow> 'm" where
  "run m h [] = m"
| "run m h (Insert e # ps) = run (insert_head m h e) h ps"
| "run m h (Remove e # ps) = run (remove m e) h ps"

lemma repr_remove1:
  assumes "repr m h xs" and "room h (set xs)" and "e \<in> set xs"
  shows "repr (remove m e) h (remove1 e xs)"
proof -
  from assms obtain as bs where xs: "xs = as @ e # bs" by (auto simp: in_set_conv_decomp)
  with assms repr_distinct have "e \<notin> set as" by fastforce
  then have "remove1 e xs = as @ bs" by (simp add: xs remove1_append)
  with repr_remove assms xs show ?thesis by simp
qed

lemma insert_remove:
  assumes "repr m h xs" and "room h (insert e (set xs))" and "e \<notin> set xs" and "e \<noteq> null"
  shows "repr (remove (insert_head m h e) e) h xs"
proof -
  from assms have "repr (insert_head m h e) h (e # xs)" by (rule repr_insert)
  with assms(2) show ?thesis using repr_remove1 [of "insert_head m h e" h "e # xs" e] by simp
qed

lemma repr_run:
  assumes "repr m h xs" and "list_ops_ok xs ps" and "room h (set xs \<union> list_op_elem ` set ps)"
    and "null \<notin> list_op_elem ` set ps"
  shows "repr (run m h ps) h (foldl list_op_spec xs ps)"
  using assms
proof (induction ps arbitrary: m xs)
  case Nil
  then show ?case by simp
next
  case (Cons p ps)
  have room: "room h (set (list_op_spec xs p) \<union> list_op_elem ` set ps)"
    by (rule room_mono [OF Cons.prems(3)]) (cases p; use set_remove1_subset in fastforce)
  show ?case
  proof (cases p)
    case (Insert e)
    with Cons.prems have "repr (insert_head m h e) h (e # xs)"
      by (intro repr_insert) (auto intro: room_mono)
    with Cons Insert room show ?thesis by simp
  next
    case (Remove e)
    with Cons.prems have "repr (remove m e) h (remove1 e xs)"
      by (intro repr_remove1) (auto intro: room_mono)
    with Cons Remove room show ?thesis by simp
  qed
qed

end

interpretation il: intrusive_list
  "\<lambda>m h xs. dlist m f h xs" "nodes_apart f" LIST_INIT
  "\<lambda>m h e. LIST_INSERT_HEAD m h e f" "\<lambda>m e. LIST_REMOVE m e f" 0 for f
  by unfold_locales
    (auto simp: LIST_INIT_def intro: dlist_insert_head dlist_remove dlist_distinct nodes_apart_mono)


section \<open>Property\<close>

text \<open>
  C13. Whatever sequence of head insertions and removals is run on an initialised list head (each
  element inserted only while it is out of the list, removed only while in it, with linkages that
  do not overlap), the cells in memory are the doubly linked list that the same operations make
  of the empty HOL list, and the traversal by \<^verbatim>\<open>LIST_FOREACH\<close> ends and visits exactly its elements.
\<close>

theorem list_history:
  assumes "list_ops_ok [] ps" and "nodes_apart f h (list_op_elem ` set ps)" and "0 \<notin> list_op_elem ` set ps"
  shows "dlist (il.run f (LIST_INIT m h) h ps) f h (foldl list_op_spec [] ps) \<and>
     LIST_FOREACH (il.run f (LIST_INIT m h) h ps) h f = Some (foldl list_op_spec [] ps)"
proof -
  have "dlist (il.run f (LIST_INIT m h) h ps) f h (foldl list_op_spec [] ps)"
    by (rule il.repr_run [OF dlist_init]) (use assms in simp_all)
  then show ?thesis by (simp add: LIST_FOREACH_dlist)
qed

theorem list_history_witness:
  "LIST_FOREACH (il.run 0 (LIST_INIT (\<lambda>_. 0) 100) 100 [Insert 200, Insert 300, Remove 200, Insert 400])
     100 0 = Some [400, 300]"
  using list_history [of "[Insert 200, Insert 300, Remove 200, Insert 400]" 0 100 "\<lambda>_. 0"]
  by (simp add: nodes_apart_def apart_def)

end
