(* ===== verification/Trx_State.thy ===== *)
theory Trx_State imports Trx_Common Trx_List
begin

text \<open>
  The state of the tracking library inside a traced process: the static variables of
  \<^verbatim>\<open>trxclient.c\<close> and \<^verbatim>\<open>trxlib.c\<close>, the memory of the process with the structures the library
  keeps in it, and the answers of the C library and the kernel still to come. The layout of
  the block header is computed from the C rules for both word sizes the source accepts.
\<close>

section \<open>Structure layout\<close>

text \<open>
  Members as (size, alignment) pairs: the offset of each, padded to its alignment, and the size
  of the structure, padded to the largest alignment.
\<close>

definition pad_to :: "nat \<Rightarrow> nat \<Rightarrow> nat" where
  "pad_to al n = (n + al - 1) div al * al"

fun member_offsets :: "nat \<Rightarrow> (nat \<times> nat) list \<Rightarrow> nat list \<times> nat" where
  "member_offsets at [] = ([], at)"
| "member_offsets at ((sz, al) # ms) =
     (let off = pad_to al at; (offs, e) = member_offsets (off + sz) ms in (off # offs, e))"

definition struct_layout :: "(nat \<times> nat) list \<Rightarrow> nat list \<times> nat" where
  "struct_layout ms =
     (let (offs, e) = member_offsets 0 ms in (offs, pad_to (Max (set (map snd ms))) e))"

definition MAXCALLERS :: nat where "MAXCALLERS = 10"
definition MAXFREERS :: nat where "MAXFREERS = 4"
definition MAXTAGS :: nat where "MAXTAGS = 255"

text \<open>
  \<^verbatim>\<open>struct trxblk_s\<close> with words of \<open>w\<close> bytes: \<^verbatim>\<open>le_next\<close>, \<^verbatim>\<open>le_prev\<close>, \<^verbatim>\<open>tag\<close>, \<^verbatim>\<open>callers\<close>,
  \<^verbatim>\<open>freers\<close>, \<^verbatim>\<open>offset\<close>, \<^verbatim>\<open>size\<close>, \<^verbatim>\<open>magic\<close>.
\<close>

definition trxblk_members :: "nat \<Rightarrow> (nat \<times> nat) list" where
  "trxblk_members w =
     [(w, w), (w, w), (4, 4), (MAXCALLERS * w, w), (MAXFREERS * w, w), (w, w), (w, w), (4, 4)]"

definition trxblk_layout :: "nat \<Rightarrow> nat list \<times> nat" where
  "trxblk_layout w = struct_layout (trxblk_members w)"

lemma trxblk_layout_ilp32: "trxblk_layout 4 = ([0, 4, 8, 12, 52, 68, 72, 76], 80)"
  by code_simp

lemma trxblk_layout_lp64: "trxblk_layout 8 = ([0, 8, 16, 24, 104, 136, 144, 152], 160)"
  by code_simp

text \<open>The ILP32 layout the rest of the development works with.\<close>

definition TRXBLK :: u32 where "TRXBLK = 80"
definition o_tag :: u32 where "o_tag = 8"
definition o_callers :: u32 where "o_callers = 12"
definition o_freers :: u32 where "o_freers = 52"
definition o_offset :: u32 where "o_offset = 68"
definition o_size :: u32 where "o_size = 72"
definition o_magic :: u32 where "o_magic = 76"

lemma trxblk_offsets:
  "trxblk_layout 4 = ([0, 4, unat o_tag, unat o_callers, unat o_freers, unat o_offset,
                       unat o_size, unat o_magic], unat TRXBLK)"
  by (simp add: trxblk_layout_ilp32 o_tag_def o_callers_def o_freers_def o_offset_def o_size_def
      o_magic_def TRXBLK_def)

lemmas layout_defs [layout_simps] = TRXBLK_def o_tag_def o_callers_def o_freers_def o_offset_def
  o_size_def o_magic_def

text \<open>The words before a user buffer: \<^verbatim>\<open>pw[OFFSET_OFFSET]\<close>, \<^verbatim>\<open>pw[OFFSET_SIZE]\<close>, \<^verbatim>\<open>pw[OFFSET_MAGIC]\<close>.\<close>

definition OFFSET_NWORDS :: nat where "OFFSET_NWORDS = 3"

definition pw_offset :: "u32 \<Rightarrow> u32" where "pw_offset ptr = ptr - 12"
definition pw_size :: "u32 \<Rightarrow> u32" where "pw_size ptr = ptr - 8"
definition pw_magic :: "u32 \<Rightarrow> u32" where "pw_magic ptr = ptr - 4"

definition MAGIC1 :: u32 where "MAGIC1 = 0x1badc0de"
definition MAGIC2 :: u32 where "MAGIC2 = 0xc0defee0"

lemma magic_facts [simp]:
  "MAGIC1 \<noteq> MAGIC2" "MAGIC2 \<noteq> MAGIC1" "MAGIC1 + 1 \<noteq> MAGIC1" "MAGIC1 + 1 \<noteq> MAGIC2"
  "MAGIC2 + 1 \<noteq> MAGIC1" "MAGIC1 OR 1 = MAGIC1 + 1" "MAGIC2 OR 1 = MAGIC2 + 1"
  "MAGIC1 \<noteq> 0" "MAGIC2 \<noteq> 0"
  by (simp_all add: MAGIC1_def MAGIC2_def)

text \<open>In a tracked block the three words are the last three members of the header.\<close>

lemma pw_header:
  "pw_offset (tp + TRXBLK) = tp + o_offset" "pw_size (tp + TRXBLK) = tp + o_size"
  "pw_magic (tp + TRXBLK) = tp + o_magic"
  by (simp_all add: pw_offset_def pw_size_def pw_magic_def layout_simps)

section \<open>The state\<close>

definition MAXFDS :: int where "MAXFDS = 1024"
definition MAXOPENERS :: nat where "MAXOPENERS = 6"
definition MAXCLOSERS :: nat where "MAXCLOSERS = 4"

record fd_t =
  opener :: "u32 list"
  closer :: "u32 list"
  fdtag :: u32
  inUse :: int

text \<open>Calls of the real allocator, with their arguments.\<close>

datatype real_call =
    RMalloc u32
  | RCalloc u32 u32
  | RRealloc u32 u32
  | RMemalign u32 u32
  | RValloc u32
  | RFree u32

record lib = os +
  \<comment> \<open>\<^verbatim>\<open>trxclient.c\<close>\<close>
  enable :: u32
  tracking :: u32
  validate :: u32
  poison :: u32
  alloctag :: u32
  needDoneTrigger :: int
  sendReport :: int
  sock :: int
  seqno :: u32
  \<comment> \<open>\<^verbatim>\<open>trxlib.c\<close>\<close>
  pagesize :: u32
  curalloc :: u32
  initted :: u32
  ininit :: u32
  epos :: u32
  fds :: "fd_t list"
  memory :: mem
  \<comment> \<open>where the linker put \<^verbatim>\<open>alist\<close> and \<^verbatim>\<open>earlybuf\<close>, and the frame address of the call\<close>
  alist_at :: u32
  early_at :: u32
  frame :: u32
  \<comment> \<open>the real allocator: what it will answer, and what it was asked\<close>
  answers :: "u32 list"
  calls :: "real_call list"
  \<comment> \<open>the kernel: descriptors it will hand out, outcomes of \<^verbatim>\<open>connect\<close>, \<^verbatim>\<open>pthread_create\<close>, ...\<close>
  newfds :: "int list"
  connects :: "bool list"
  threads :: "bool list"
  forks :: "int list"
  pid :: int
  \<comment> \<open>whether \<^verbatim>\<open>dlsym\<close> finds every overloaded function, and \<^verbatim>\<open>sysconf(_SC_PAGESIZE)\<close>\<close>
  resolved :: bool
  sys_pagesize :: u32
  \<comment> \<open>System V shared memory: the segments by key, and whether \<^verbatim>\<open>shmget\<close> and \<^verbatim>\<open>shmat\<close> succeed\<close>
  segs :: "int \<Rightarrow> bytes option"
  shmgets :: "bool list"
  shmats :: "bool list"

text \<open>The cells of \<^verbatim>\<open>alist[tag]\<close>.\<close>

definition alist_total :: "u32 \<Rightarrow> u32 \<Rightarrow> u32" where
  "alist_total at tag = at + 8 * tag"

definition alist_list :: "u32 \<Rightarrow> u32 \<Rightarrow> u32" where
  "alist_list at tag = at + 8 * tag + 4"

text \<open>A call of the real allocator that answers with a pointer, and the one that does not.\<close>

definition real_alloc :: "real_call \<Rightarrow> lib \<Rightarrow> u32 \<times> lib" where
  "real_alloc c s =
     (case answers s of
        [] \<Rightarrow> (0, s\<lparr>calls := calls s @ [c]\<rparr>)
      | p # ps \<Rightarrow> (p, s\<lparr>calls := calls s @ [c], answers := ps\<rparr>))"

definition real_free :: "u32 \<Rightarrow> lib \<Rightarrow> lib" where
  "real_free p s = s\<lparr>calls := calls s @ [RFree p]\<rparr>"

text \<open>A system call that returns a new descriptor, \<^verbatim>\<open>close\<close> and \<^verbatim>\<open>connect\<close>.\<close>

definition real_newfd :: "lib \<Rightarrow> int \<times> lib" where
  "real_newfd s =
     (case newfds s of
        [] \<Rightarrow> (-1, s)
      | fd # rest \<Rightarrow>
          (if fd < 0 then (-1, s\<lparr>newfds := rest\<rparr>)
           else (fd, set_chan fd ((chans s fd)\<lparr>isopen := True\<rparr>) (s\<lparr>newfds := rest\<rparr>))))"

definition real_close :: "int \<Rightarrow> lib \<Rightarrow> int \<times> lib" where
  "real_close fd s = (if isopen (chans s fd) then (0, os_close fd s) else (-1, s))"

definition real_connect :: "lib \<Rightarrow> bool \<times> lib" where
  "real_connect s =
     (case connects s of [] \<Rightarrow> (False, s) | b # bs \<Rightarrow> (b, s\<lparr>connects := bs\<rparr>))"

definition real_thread :: "lib \<Rightarrow> bool \<times> lib" where
  "real_thread s =
     (case threads s of [] \<Rightarrow> (True, s) | b # bs \<Rightarrow> (b, s\<lparr>threads := bs\<rparr>))"

definition real_fork :: "lib \<Rightarrow> int \<times> lib" where
  "real_fork s = (case forks s of [] \<Rightarrow> (-1, s) | p # ps \<Rightarrow> (p, s\<lparr>forks := ps\<rparr>))"

section \<open>Arrays of words in memory\<close>

definition ld_words :: "mem \<Rightarrow> u32 \<Rightarrow> nat \<Rightarrow> u32 list" where
  "ld_words m a n = map (\<lambda>i. ld32 m (a + 4 * of_nat i)) [0..<n]"

definition st_words :: "mem \<Rightarrow> u32 \<Rightarrow> u32 list \<Rightarrow> mem" where
  "st_words m a ws = mem_write m a (concat (map bytes32 ws))"

lemma length_words [simp]: "length (concat (map bytes32 ws)) = 4 * length ws"
  using w32.length_pack by simp

lemma length_ld_words [simp]: "length (ld_words m a n) = n"
  by (simp add: ld_words_def)

lemma mem_read_st_words_apart:
  "apart a (4 * length ws) b k \<Longrightarrow> mem_read (st_words m a ws) b k = mem_read m b k"
  by (simp add: st_words_def mem_read_write_apart)

lemma ld32_st_words_apart:
  "apart a (4 * length ws) b 4 \<Longrightarrow> ld32 (st_words m a ws) b = ld32 m b"
  by (simp add: ld32_def mem_read_st_words_apart)

end
