(* ===== verification/Trx_Fd.thy ===== *)
theory Trx_Fd imports Trx_State
begin

text \<open>
  Back traces and the descriptor table of \<^verbatim>\<open>trxlib.c\<close>: \<^verbatim>\<open>tp_gettrace\<close>, the table \<^verbatim>\<open>fds\<close> with the
  functions that record the opening and closing of descriptors, and the overloaded system calls
  as they run once the library is initialised (\<^verbatim>\<open>chkinit()\<close> is a no-op by then; the entry points
  with their \<^verbatim>\<open>chkinit()\<close> are in \<^verbatim>\<open>Trx_Init\<close>).
\<close>

section \<open>Back traces\<close>

text \<open>
  \<^verbatim>\<open>__i386\<close>: the return address is one word above the saved frame pointer, and one frame is
  jumped over. The two loops of \<^verbatim>\<open>tp_gettrace\<close> share their condition and body; the remaining
  iterations \<open>k\<close> are \<^verbatim>\<open>JUMPOVER-i1\<close> and \<^verbatim>\<open>max-i\<close>. The array is apart from the frames.
\<close>

definition JUMPOVER :: nat where "JUMPOVER = 1"

definition frame_ok :: "mem \<Rightarrow> u32 \<Rightarrow> u32 \<Rightarrow> bool" where
  "frame_ok m base fr \<longleftrightarrow>
     fr \<noteq> 0 \<and> fr > 0x1000000 \<and> fr - base < 16 * 1024 * 1024 \<and> ld32 m (fr + 4) \<noteq> 0"

fun walk_frames :: "mem \<Rightarrow> u32 \<Rightarrow> nat \<Rightarrow> nat \<Rightarrow> u32 \<Rightarrow> u32 list \<Rightarrow> nat \<times> u32 \<times> u32 list" where
  "walk_frames m base i 0 fr pc = (i, fr, pc)"
| "walk_frames m base i (Suc k) fr pc =
     (if frame_ok m base fr
      then walk_frames m base (Suc i) k (ld32 m fr) (pc[i := ld32 m (fr + 4)])
      else (i, fr, pc))"

definition tp_gettrace :: "mem \<Rightarrow> u32 \<Rightarrow> u32 list \<Rightarrow> nat \<Rightarrow> nat \<times> u32 list" where
  "tp_gettrace m fr0 pc mx =
     (case walk_frames m fr0 0 JUMPOVER fr0 pc of (i1, fr, pc1) \<Rightarrow>
        if i1 < JUMPOVER then (0, pc1)
        else case walk_frames m fr0 0 mx fr pc1 of (n, _, pc2) \<Rightarrow>
          (n, take n pc2 @ replicate (mx - n) 0 @ drop mx pc2))"

lemma length_walk_frames:
  "walk_frames m base i k fr pc = (j, fr', pc') \<Longrightarrow> length pc' = length pc"
  by (induction k arbitrary: i fr pc) (auto split: if_splits)

lemma walk_frames_bounds:
  "walk_frames m base i k fr pc = (j, fr', pc') \<Longrightarrow> i \<le> j \<and> j \<le> i + k"
  by (induction k arbitrary: i fr pc) (force split: if_splits)+

lemma tp_gettrace_bounds:
  assumes "tp_gettrace m fr0 pc mx = (n, pc')" and "length pc = mx"
  shows "n \<le> mx" and "length pc' = mx"
proof -
  obtain i1 fr pc1 where w1: "walk_frames m fr0 0 JUMPOVER fr0 pc = (i1, fr, pc1)"
    by (cases "walk_frames m fr0 0 JUMPOVER fr0 pc")
  obtain j fr2 pc2 where w2: "walk_frames m fr0 0 mx fr pc1 = (j, fr2, pc2)"
    by (cases "walk_frames m fr0 0 mx fr pc1")
  have "length pc1 = mx" using length_walk_frames [OF w1] assms by simp
  moreover have "length pc2 = length pc1" by (rule length_walk_frames [OF w2])
  moreover have "j \<le> mx" using walk_frames_bounds [OF w2] by simp
  ultimately show "n \<le> mx" and "length pc' = mx"
    using assms w1 w2 by (auto simp: tp_gettrace_def split: if_splits)
qed

lemma length_tp_gettrace [simp]:
  "length pc = mx \<Longrightarrow> length (snd (tp_gettrace m fr0 pc mx)) = mx"
  using tp_gettrace_bounds(2) by (metis prod.collapse)

text \<open>
  The recorded entries are never zero and the rest of the array is: a trace is terminated,
  unless the frame of \<^verbatim>\<open>tp_gettrace\<close> itself is not usable.
\<close>

lemma walk_frames_nonzero:
  assumes "walk_frames m base i k fr pc = (j, fr', pc')" and "\<forall>x<i. pc ! x \<noteq> 0"
    and "i + k \<le> length pc"
  shows "\<forall>x<j. pc' ! x \<noteq> 0"
  using assms
proof (induction k arbitrary: i fr pc)
  case 0
  then show ?case by simp
next
  case (Suc k)
  show ?case
  proof (cases "frame_ok m base fr")
    case True
    let ?pc = "pc[i := ld32 m (fr + 4)]"
    have "\<forall>x<Suc i. ?pc ! x \<noteq> 0"
      using True Suc.prems by (auto simp: frame_ok_def nth_list_update less_Suc_eq)
    then show ?thesis
      using True Suc.prems by (intro Suc.IH [of "Suc i" "ld32 m fr" ?pc]) auto
  next
    case False
    with Suc.prems show ?thesis by simp
  qed
qed

lemma tp_gettrace_terminated:
  assumes "tp_gettrace m fr0 pc mx = (n, pc')" and "length pc = mx"
    and "JUMPOVER \<le> fst (walk_frames m fr0 0 JUMPOVER fr0 pc)"
  shows "(\<forall>x<n. pc' ! x \<noteq> 0) \<and> (\<forall>x. n \<le> x \<and> x < mx \<longrightarrow> pc' ! x = 0)"
proof -
  obtain i1 fr pc1 where w1: "walk_frames m fr0 0 JUMPOVER fr0 pc = (i1, fr, pc1)"
    by (cases "walk_frames m fr0 0 JUMPOVER fr0 pc")
  obtain j fr2 pc2 where w2: "walk_frames m fr0 0 mx fr pc1 = (j, fr2, pc2)"
    by (cases "walk_frames m fr0 0 mx fr pc1")
  have l: "length pc1 = mx" "length pc2 = mx"
    using length_walk_frames [OF w1] length_walk_frames [OF w2] assms by simp_all
  have "j \<le> mx" using walk_frames_bounds [OF w2] by simp
  moreover have "\<forall>x<j. pc2 ! x \<noteq> 0" using walk_frames_nonzero [OF w2] l by simp
  moreover have "n = j" "pc' = take j pc2 @ replicate (mx - j) 0 @ drop mx pc2"
    using assms w1 w2 by (auto simp: tp_gettrace_def)
  ultimately show ?thesis using l by (auto simp: nth_append)
qed

section \<open>The descriptor table\<close>

definition empty_fd :: fd_t where
  "empty_fd = \<lparr>opener = replicate MAXOPENERS 0, closer = replicate MAXCLOSERS 0,
               fdtag = 0, inUse = 0\<rparr>"

definition fdIsValid :: "int \<Rightarrow> bool" where
  "fdIsValid fd \<longleftrightarrow> fd \<ge> 0 \<and> fd < MAXFDS"

definition set_fd :: "int \<Rightarrow> fd_t \<Rightarrow> lib \<Rightarrow> lib" where
  "set_fd fd e s = s\<lparr>fds := (fds s)[nat fd := e]\<rparr>"

definition newFd :: "int \<Rightarrow> lib \<Rightarrow> lib" where
  "newFd fd s =
     (if enable s = 0 then s
      else if fdIsValid fd then
        (let e = fds s ! nat fd;
             e1 = e\<lparr>opener := snd (tp_gettrace (memory s) (frame s) (opener e) MAXOPENERS)\<rparr>;
             e2 = (if inUse e1 = 0 then e1\<lparr>inUse := 1, fdtag := alloctag s\<rparr> else e1)
         in set_fd fd e2 s)
      else s)"

definition closeFd :: "int \<Rightarrow> lib \<Rightarrow> int \<times> lib" where
  "closeFd fd s =
     (case real_close fd s of (ret, s1) \<Rightarrow>
        if enable s1 = 0 then (ret, s1)
        else if ret = 0 \<and> fdIsValid fd then
          (let e = fds s1 ! nat fd;
               e1 = e\<lparr>closer := snd (tp_gettrace (memory s1) (frame s1) (closer e) MAXCLOSERS)\<rparr>;
               e2 = (if inUse e1 \<noteq> 0 then e1\<lparr>inUse := 0\<rparr> else e1)
           in (ret, set_fd fd e2 s1))
        else (ret, s1))"

text \<open>
  The overloads that return one new descriptor (\<^verbatim>\<open>open\<close>, \<^verbatim>\<open>creat\<close>, \<^verbatim>\<open>socket\<close>, \<^verbatim>\<open>accept\<close>) share
  their shape: the real call, then \<^verbatim>\<open>newFd\<close>.
\<close>

definition tracked_newfd :: "lib \<Rightarrow> int \<times> lib" where
  "tracked_newfd s = (case real_newfd s of (fd, s1) \<Rightarrow> (fd, newFd fd s1))"

definition countFds :: "u32 \<Rightarrow> lib \<Rightarrow> nat" where
  "countFds tag s = length (filter (\<lambda>e. inUse e \<noteq> 0 \<and> fdtag e = tag) (take (nat MAXFDS) (fds s)))"

section \<open>The table's invariant\<close>

text \<open>The table has its declared size, and every entry its arrays.\<close>

definition fds_ok :: "lib \<Rightarrow> bool" where
  "fds_ok s \<longleftrightarrow> length (fds s) = nat MAXFDS \<and>
     (\<forall>e\<in>set (fds s). length (opener e) = MAXOPENERS \<and> length (closer e) = MAXCLOSERS \<and>
                      (inUse e = 0 \<or> inUse e = 1))"

lemma fds_ok_entry:
  "fds_ok s \<Longrightarrow> fdIsValid fd \<Longrightarrow> fds s ! nat fd \<in> set (fds s) \<and> nat fd < length (fds s)"
  by (auto simp: fds_ok_def fdIsValid_def MAXFDS_def)

lemma fds_ok_set_fd:
  assumes "fds_ok s" and "length (opener e) = MAXOPENERS" and "length (closer e) = MAXCLOSERS"
    and "inUse e = 0 \<or> inUse e = 1"
  shows "fds_ok (set_fd fd e s)"
  using assms by (auto simp: fds_ok_def set_fd_def dest!: set_update_subset_insert [THEN subsetD])

lemma newFd_ok: "fds_ok s \<Longrightarrow> fds_ok (newFd fd s)"
proof -
  assume ok: "fds_ok s"
  have "length (opener (fds s ! nat fd)) = MAXOPENERS \<Longrightarrow>
      length (snd (tp_gettrace (memory s) (frame s) (opener (fds s ! nat fd)) MAXOPENERS)) = MAXOPENERS"
    using tp_gettrace_bounds(2) by (metis prod.collapse)
  moreover have "fdIsValid fd \<Longrightarrow> length (opener (fds s ! nat fd)) = MAXOPENERS \<and>
      length (closer (fds s ! nat fd)) = MAXCLOSERS \<and>
      (inUse (fds s ! nat fd) = 0 \<or> inUse (fds s ! nat fd) = 1)"
    using ok fds_ok_entry [OF ok] by (auto simp: fds_ok_def)
  ultimately show ?thesis using ok by (auto simp: newFd_def Let_def intro!: fds_ok_set_fd)
qed

lemma real_close_fields:
  assumes "real_close fd s = (r, s')"
  shows "fds s' = fds s" "enable s' = enable s" "memory s' = memory s" "frame s' = frame s"
    "alloctag s' = alloctag s" "sock s' = sock s" "needDoneTrigger s' = needDoneTrigger s"
  using assms by (auto simp: real_close_def os_close_def set_chan_def split: if_splits)

lemma closeFd_ok:
  assumes ok: "fds_ok s" and c: "closeFd fd s = (r, s')"
  shows "fds_ok s'"
proof -
  obtain ret s1 where rc: "real_close fd s = (ret, s1)" by force
  have ok1: "fds_ok s1" using ok real_close_fields(1) [OF rc] by (simp add: fds_ok_def)
  have "length (closer (fds s1 ! nat fd)) = MAXCLOSERS \<Longrightarrow>
      length (snd (tp_gettrace (memory s1) (frame s1) (closer (fds s1 ! nat fd)) MAXCLOSERS)) = MAXCLOSERS"
    using tp_gettrace_bounds(2) by (metis prod.collapse)
  moreover have "fdIsValid fd \<Longrightarrow> length (opener (fds s1 ! nat fd)) = MAXOPENERS \<and>
      length (closer (fds s1 ! nat fd)) = MAXCLOSERS \<and>
      (inUse (fds s1 ! nat fd) = 0 \<or> inUse (fds s1 ! nat fd) = 1)"
    using ok1 fds_ok_entry [OF ok1] by (auto simp: fds_ok_def)
  ultimately show ?thesis
    using ok1 rc c by (auto simp: closeFd_def Let_def intro!: fds_ok_set_fd split: if_splits)
qed

text \<open>Opening and closing a tracked descriptor, as seen in the table and in the count.\<close>

lemma newFd_entry:
  assumes "fds_ok s" and "enable s \<noteq> 0" and "fdIsValid fd"
  shows "inUse (fds (newFd fd s) ! nat fd) \<noteq> 0"
    and "inUse (fds s ! nat fd) = 0 \<Longrightarrow> fdtag (fds (newFd fd s) ! nat fd) = alloctag s"
    and "nat fd \<noteq> k \<Longrightarrow> fds (newFd fd s) ! k = fds s ! k"
  using assms fds_ok_entry [OF assms(1,3)] by (auto simp: newFd_def set_fd_def Let_def)

lemma closeFd_fds:
  assumes "enable s \<noteq> 0" and "fdIsValid fd" and "isopen (chans s fd)"
  shows "fst (closeFd fd s) = 0"
    and "fds (snd (closeFd fd s)) = (fds s)[nat fd := (fds s ! nat fd)
      \<lparr>closer := snd (tp_gettrace (memory s) (frame s) (closer (fds s ! nat fd)) MAXCLOSERS),
       inUse := 0\<rparr>]"
proof -
  obtain r s1 where rc: "real_close fd s = (r, s1)" by force
  then have r: "r = 0" using assms by (simp add: real_close_def)
  note f = real_close_fields [OF rc]
  show "fst (closeFd fd s) = 0" using assms rc r f by (simp add: closeFd_def Let_def)
  show "fds (snd (closeFd fd s)) = (fds s)[nat fd := (fds s ! nat fd)
      \<lparr>closer := snd (tp_gettrace (memory s) (frame s) (closer (fds s ! nat fd)) MAXCLOSERS),
       inUse := 0\<rparr>]"
    using assms rc r f by (cases "fds s ! nat fd") (simp add: closeFd_def Let_def set_fd_def)
qed

lemma closeFd_entry:
  assumes "fds_ok s" and "enable s \<noteq> 0" and "fdIsValid fd" and "isopen (chans s fd)"
  shows "inUse (fds (snd (closeFd fd s)) ! nat fd) = 0"
    and "nat fd \<noteq> k \<Longrightarrow> fds (snd (closeFd fd s)) ! k = fds s ! k"
  using fds_ok_entry [OF assms(1,3)] by (simp_all add: closeFd_fds [OF assms(2-4)])


section \<open>A process to try things on\<close>

text \<open>
  Freshly initialised, every list empty, tracking and validation on; the real allocator has
  two raw blocks to give.
\<close>

definition lib0 :: lib where
  "lib0 = \<lparr>chans = (\<lambda>_. \<lparr>isopen = True, rx = [], ended = Silent, tx = [], wq = []\<rparr>), sels = [], oom = [],
     enable = 1, tracking = 1, validate = 1, poison = 1, alloctag = 3, needDoneTrigger = 0,
     sendReport = 0, sock = 3, seqno = 0, pagesize = 4096, curalloc = 0, initted = 1, ininit = 0,
     epos = 0, fds = replicate 1024 empty_fd, memory = (\<lambda>_. 0), alist_at = 0x1000, early_at = 0x2000,
     frame = 0, answers = [0x10000, 0x20000], calls = [], newfds = [5], connects = [], threads = [],
     forks = [], pid = 77, resolved = True, sys_pagesize = 4096,
     segs = (\<lambda>_. None), shmgets = [], shmats = []\<rparr>"

lemma lib0_simps [simp]:
  "enable lib0 = 1" "tracking lib0 = 1" "validate lib0 = 1" "poison lib0 = 1" "alloctag lib0 = 3"
  "initted lib0 = 1" "answers lib0 = [0x10000, 0x20000]" "alist_at lib0 = 0x1000" "memory lib0 = (\<lambda>_. 0)"
  "curalloc lib0 = 0" "ininit lib0 = 0"
  by (simp_all add: lib0_def)

lemma lib0_fds [simp]: "fds lib0 = replicate 1024 empty_fd" "chans lib0 = (\<lambda>_. \<lparr>isopen = True, rx = [], ended = Silent, tx = [], wq = []\<rparr>)"
  by (simp_all add: lib0_def)

lemma lib0_fds_ok: "fds_ok lib0"
  by (simp add: fds_ok_def MAXFDS_def empty_fd_def)

section \<open>Properties\<close>

lemma count_update:
  "k < length xs \<Longrightarrow>
   length (filter P (xs[k := e])) + (if P (xs ! k) then 1 else 0) =
   length (filter P xs) + (if P e then 1 else 0)"
proof (induction xs arbitrary: k)
  case Nil
  then show ?case by simp
next
  case (Cons x xs)
  show ?case
  proof (cases k)
    case 0
    then show ?thesis by simp
  next
    case (Suc j)
    with Cons.prems Cons.IH [of j] show ?thesis by auto
  qed
qed

lemma countFds_filter:
  "length (fds s) = nat MAXFDS \<Longrightarrow>
   countFds t s = length (filter (\<lambda>e. inUse e \<noteq> 0 \<and> fdtag e = t) (fds s))"
  by (simp add: countFds_def)

lemma countFds_set_fd:
  assumes "fds_ok s" and "fdIsValid fd"
  shows "countFds t (set_fd fd e s) + (if inUse (fds s ! nat fd) \<noteq> 0 \<and> fdtag (fds s ! nat fd) = t then 1 else 0)
       = countFds t s + (if inUse e \<noteq> 0 \<and> fdtag e = t then 1 else 0)"
proof -
  have l: "length (fds s) = nat MAXFDS" "nat fd < length (fds s)"
    using assms fds_ok_entry [OF assms] by (auto simp: fds_ok_def)
  then have l': "length (fds (set_fd fd e s)) = nat MAXFDS" by (simp add: set_fd_def)
  show ?thesis
    unfolding countFds_filter [OF l(1)] countFds_filter [OF l']
    using count_update [OF l(2), of "\<lambda>e. inUse e \<noteq> 0 \<and> fdtag e = t" e] by (simp add: set_fd_def)
qed

text \<open>
  C32. Descriptor accounting: recording a descriptor that is not in use raises the count of the
  current tag by one and of no other tag, closing it lowers the count of the tag it was opened
  under, and the table keeps its size and its arrays throughout.
\<close>

theorem open_close_counts:
  assumes "fds_ok s" and "enable s \<noteq> 0" and "fdIsValid fd" and "inUse (fds s ! nat fd) = 0"
    and "isopen (chans s fd)"
  shows "fds_ok (newFd fd s) \<and>
     (\<forall>t. countFds t (newFd fd s) = countFds t s + (if t = alloctag s then 1 else 0)) \<and>
     fst (closeFd fd (newFd fd s)) = 0 \<and> fds_ok (snd (closeFd fd (newFd fd s))) \<and>
     (\<forall>t. countFds t (snd (closeFd fd (newFd fd s))) = countFds t s)"
proof -
  let ?n = "newFd fd s"
  define e where "e = (fds s ! nat fd)\<lparr>opener := snd (tp_gettrace (memory s) (frame s)
    (opener (fds s ! nat fd)) MAXOPENERS), inUse := 1, fdtag := alloctag s\<rparr>"
  have n: "?n = set_fd fd e s" using assms by (simp add: newFd_def Let_def e_def)
  have ok: "fds_ok ?n" by (rule newFd_ok [OF assms(1)])
  have c1: "countFds t ?n = countFds t s + (if t = alloctag s then 1 else 0)" for t
    using countFds_set_fd [OF assms(1,3), of t e] assms(4) by (auto simp: n e_def)
  have en: "enable ?n \<noteq> 0" "isopen (chans ?n fd)" using assms by (simp_all add: n set_fd_def)
  have at: "fds ?n ! nat fd = e" using fds_ok_entry [OF assms(1,3)] by (simp add: n set_fd_def)
  define e2 where "e2 = e\<lparr>closer := snd (tp_gettrace (memory ?n) (frame ?n) (closer e) MAXCLOSERS), inUse := 0\<rparr>"
  have "fds (snd (closeFd fd ?n)) = fds (set_fd fd e2 ?n)"
    using closeFd_fds(2) [OF en(1) assms(3) en(2)] by (simp add: at e2_def set_fd_def)
  then have "countFds t (snd (closeFd fd ?n)) = countFds t (set_fd fd e2 ?n)" for t
    by (simp add: countFds_def)
  moreover have "countFds t (set_fd fd e2 ?n) = countFds t s" for t
    using countFds_set_fd [OF ok assms(3), of t e2] c1 [of t]
    by (cases "t = alloctag s") (simp_all add: at e_def e2_def)
  ultimately show ?thesis
    using ok c1 closeFd_fds(1) [OF en(1) assms(3) en(2)] closeFd_ok [OF ok prod.collapse [symmetric]]
    by auto
qed


theorem open_close_counts_witness:
  "countFds 3 (newFd 5 lib0) = countFds 3 lib0 + 1 \<and>
   countFds 3 (snd (closeFd 5 (newFd 5 lib0))) = countFds 3 lib0"
  using open_close_counts [OF lib0_fds_ok, of 5] by (simp add: fdIsValid_def MAXFDS_def empty_fd_def)

end
