(* ===== verification/Trx_Client.thy ===== *)
theory Trx_Client imports Trx_Fd
begin

text \<open>
  \<^verbatim>\<open>trxclient.c\<close>: the client's side of the protocol. The manager sets and reads the tracker's
  variables, moves the allocation tag, and asks for reports; on start-up the client registers
  and takes its settings in one exchange of several commands that ends with \<^verbatim>\<open>CMD_DONE\<close>. The
  signal masking around a send (\<^verbatim>\<open>sigprocmask\<close>) has no counterpart here.
\<close>

section \<open>Talking to the manager\<close>

definition sendCmd2 :: "nat \<Rightarrow> int \<Rightarrow> int \<Rightarrow> lib \<Rightarrow> int \<times> lib" where
  "sendCmd2 cmd a1 a2 s =
     (case sendCmdMore (sock s) (int_of (seqno s)) cmd a1 a2 0 None [] s of (ok, s1) \<Rightarrow>
        if ok then case recvAck (sock s1) (seqno s1) s1 of ((v, sq), s2) \<Rightarrow> (v, s2\<lparr>seqno := sq\<rparr>)
        else (-1, s1))"

definition sendCmd1 :: "nat \<Rightarrow> int \<Rightarrow> lib \<Rightarrow> int \<times> lib" where
  "sendCmd1 cmd a1 s = sendCmd2 cmd a1 0 s"

definition sendMgr :: "nat \<Rightarrow> int \<Rightarrow> int \<Rightarrow> lib \<Rightarrow> lib" where
  "sendMgr cmd a1 a2 s = snd (sendCmd2 cmd a1 a2 s)"

section \<open>Commands from the manager\<close>

definition clientSet :: "int \<Rightarrow> int \<Rightarrow> lib \<Rightarrow> int \<times> lib" where
  "clientSet aux aux2 s =
     (if aux = int CMD_POISON then (int_of (poison s), s\<lparr>poison := i32 aux2\<rparr>)
      else if aux = int CMD_ENABLE then (int_of (enable s), s\<lparr>enable := i32 aux2\<rparr>)
      else if aux = int CMD_VALIDATE then (int_of (validate s), s\<lparr>validate := i32 aux2\<rparr>)
      else if aux = int CMD_TRACK then (int_of (tracking s), s\<lparr>tracking := i32 aux2\<rparr>)
      else if aux = int CMD_TAG then (int_of (alloctag s), s\<lparr>alloctag := i32 aux2\<rparr>)
      else (-1, s))"

definition clientGet :: "int \<Rightarrow> lib \<Rightarrow> int" where
  "clientGet aux s =
     (if aux = int CMD_POISON then int_of (poison s)
      else if aux = int CMD_ENABLE then int_of (enable s)
      else if aux = int CMD_VALIDATE then int_of (validate s)
      else if aux = int CMD_TRACK then int_of (tracking s)
      else if aux = int CMD_TAG then int_of (alloctag s)
      else -1)"

definition changeTag :: "int \<Rightarrow> lib \<Rightarrow> int \<times> lib" where
  "changeTag inc s =
     (let s1 = (if (alloctag s \<noteq> 0 \<or> inc \<noteq> -1) \<and> (alloctag s \<noteq> 255 \<or> inc \<noteq> 1)
                then s\<lparr>alloctag := alloctag s + i32 inc\<rparr> else s)
      in (int_of (alloctag s1), s1))"

definition clientRcvCB ::
  "cmd_t \<Rightarrow> int \<Rightarrow> bytes option \<Rightarrow> lib \<Rightarrow> fault + int \<times> lib" where
  "clientRcvCB cmd mlen pmore s =
     (let c = sint (pcmd cmd) in
      if c = int CMD_SET then Inr (clientSet (int_of (aux0 cmd)) (int_of (aux1 cmd)) s)
      else if c = int CMD_GET then Inr (clientGet (int_of (aux0 cmd)) s, s)
      else if c = int CMD_REPORT then Inr (1, s\<lparr>sendReport := int_of (1 + aux0 cmd)\<rparr>)
      else if c = int CMD_DONE then Inr (1, s\<lparr>needDoneTrigger := 0\<rparr>)
      else if c = int CMD_PUSH then Inr (changeTag 1 s)
      else if c = int CMD_POP then Inr (changeTag (-1) s)
      else Inr (-1, s))"

lemma clientRcvCB_pending:
  "clientRcvCB c n p s = Inr (v, s') \<Longrightarrow> pending fd s' = pending fd s"
  by (auto simp: clientRcvCB_def clientSet_def changeTag_def pending_def Let_def split: if_splits)

lemma clientRcvCB_sock:
  "clientRcvCB c n p s = Inr (v, s') \<Longrightarrow> sock s' = sock s"
  by (auto simp: clientRcvCB_def clientSet_def changeTag_def Let_def split: if_splits)

lemma clientRcvCB_total: "\<exists>v s'. clientRcvCB c n p s = Inr (v, s')"
  by (auto simp: clientRcvCB_def Let_def prod_eq_iff intro!: exI)

text \<open>One command received and answered; the only fault is to wait for a silent manager.\<close>

definition client_rcv :: "lib \<Rightarrow> fault + int \<times> lib" where
  "client_rcv s = rcvCmd (sock s) clientRcvCB s"

lemma client_rcv_pending:
  assumes "client_rcv s = Inr (v, s')"
  shows "pending (sock s) s' \<le> pending (sock s) s"
    and "0 \<le> v \<Longrightarrow> pending (sock s) s' + nat CMDLEN \<le> pending (sock s) s"
  using rcvCmd_pending [of "sock s" clientRcvCB s v s'] assms
  by (simp_all add: clientRcvCB_pending client_rcv_def)

lemma lib_of_more:
  assumes "os.more s = os.more (t :: lib)"
  shows "sock s = sock t" "enable s = enable t" "tracking s = tracking t"
    "validate s = validate t" "poison s = poison t" "alloctag s = alloctag t"
    "needDoneTrigger s = needDoneTrigger t" "sendReport s = sendReport t" "seqno s = seqno t"
    "curalloc s = curalloc t" "memory s = memory t" "fds s = fds t" "initted s = initted t"
    "alist_at s = alist_at t" "frame s = frame t" "pagesize s = pagesize t" "ininit s = ininit t"
    "newfds s = newfds t" "connects s = connects t" "threads s = threads t" "pid s = pid t"
    "segs s = segs t"
  using assms by (cases s; cases t; simp)+

lemma client_rcv_inv:
  assumes "client_rcv s = Inr (v, s')" and "\<And>t t'. os.more t = os.more t' \<Longrightarrow> P t = P t'"
    and "\<And>p n pm t w t'. clientRcvCB p n pm t = Inr (w, t') \<Longrightarrow> P t \<Longrightarrow> P t'" and "P s"
  shows "P s'"
proof (rule rcvCmd_inv [where P = P])
  show "rcvCmd (sock s) clientRcvCB s = Inr (v, s')" using assms(1) by (simp only: client_rcv_def)
  show "P t = P t'" if "os.more t = os.more t'" for t t' using that by (rule assms(2))
  show "P t'" if "clientRcvCB p n pm t = Inr (w, t')" and "P t" for p n pm t w t'
    using that by (rule assms(3))
  show "P s" by (rule assms(4))
qed

lemma client_rcv_sock:
  assumes "client_rcv s = Inr (v, s')"
  shows "sock s' = sock s"
  by (rule client_rcv_inv [OF assms, where P = "\<lambda>t. sock t = sock s"])
    (auto dest: lib_of_more clientRcvCB_sock)

lemma client_rcv_decreases:
  assumes "client_rcv s = Inr (v, s')" and "0 \<le> v"
  shows "pending (sock s') s' + nat CMDLEN \<le> pending (sock s) s"
  using client_rcv_pending(2) [OF assms] client_rcv_sock [OF assms(1)] by simp

section \<open>The exchange on start-up\<close>

text \<open>
  \<^verbatim>\<open>while(rcvCmd(...)>=0 && needDoneTrigger)\<close>. Every command received takes bytes off the channel;
  when there are no more and the manager is silent, the loop waits in \<^verbatim>\<open>read\<close>.
\<close>

function exchange_loop :: "lib \<Rightarrow> fault + lib" where
  "exchange_loop s =
     (case client_rcv s of
        Inl f \<Rightarrow> Inl f
      | Inr (v, s') \<Rightarrow> (if v \<ge> 0 \<and> needDoneTrigger s' \<noteq> 0 then exchange_loop s' else Inr s'))"
  by pat_completeness auto
termination
  by (relation "measure (\<lambda>s. pending (sock s) s)") (auto dest!: client_rcv_decreases simp: CMDLEN_def)

declare exchange_loop.simps [simp del]

definition handleExchange :: "lib \<Rightarrow> fault + lib" where
  "handleExchange s = (if sock s < 0 then Inr s else exchange_loop s)"

text \<open>
  \<^verbatim>\<open>connectToMgr\<close>: the \<^verbatim>\<open>socket\<close> and \<^verbatim>\<open>close\<close> it calls are the library's own overloads, which record
  descriptors once tracking is enabled.
\<close>

definition connectToMgr :: "int \<Rightarrow> lib \<Rightarrow> bool \<times> lib" where
  "connectToMgr firstTime s =
     (if sock s > 0 then (True, s)
      else case tracked_newfd s of (fd, s1) \<Rightarrow>
        if fd = -1 then (False, s1\<lparr>sock := -1\<rparr>)
        else case real_connect (s1\<lparr>sock := fd\<rparr>) of (ok, s2) \<Rightarrow>
          if \<not> ok then (False, (snd (closeFd fd s2))\<lparr>sock := -1\<rparr>)
          else (True, snd (sendCmd1 CMD_REGISTER (pid s2) (s2\<lparr>needDoneTrigger := firstTime\<rparr>))))"

definition clientInit :: "lib \<Rightarrow> fault + bool \<times> lib" where
  "clientInit s =
     (let s1 = (snd (closeFd (sock s) s))\<lparr>sock := -1\<rparr> in
      case connectToMgr 1 s1 of (ok, s2) \<Rightarrow>
        if \<not> ok then Inr (False, s2)
        else bindE (handleExchange s2) (\<lambda>s3.
           if enable s3 = 0 then Inr (True, (snd (closeFd (sock s3) s3))\<lparr>sock := -1\<rparr>)
           else Inr (real_thread s3)))"

section \<open>What the commands do\<close>

text \<open>The variables the manager can set.\<close>

definition var_of :: "int \<Rightarrow> lib \<Rightarrow> u32" where
  "var_of c s =
     (if c = int CMD_POISON then poison s
      else if c = int CMD_ENABLE then enable s
      else if c = int CMD_VALIDATE then validate s
      else if c = int CMD_TRACK then tracking s
      else alloctag s)"

definition client_vars :: "int set" where
  "client_vars = int ` {CMD_POISON, CMD_ENABLE, CMD_VALIDATE, CMD_TRACK, CMD_TAG}"

lemma clientGet_var: "c \<in> client_vars \<Longrightarrow> clientGet c s = int_of (var_of c s)"
  by (auto simp: client_vars_def clientGet_def var_of_def cmd_defs)

lemma clientSet_ret: "c \<in> client_vars \<Longrightarrow> fst (clientSet c v s) = int_of (var_of c s)"
  by (auto simp: client_vars_def clientSet_def var_of_def cmd_defs)

lemma clientSet_var:
  assumes "c \<in> client_vars" and "d \<in> client_vars"
  shows "var_of d (snd (clientSet c v s)) = (if c = d then i32 v else var_of d s)"
  using assms by (auto simp: client_vars_def clientSet_def var_of_def cmd_defs)

lemma clientSet_invalid: "c \<notin> client_vars \<Longrightarrow> clientSet c v s = (-1, s)"
  by (auto simp: client_vars_def clientSet_def)

text \<open>The tag moves by one and stays between 0 and 255.\<close>

lemma changeTag_unat:
  assumes "unat (alloctag s) \<le> 255"
  shows "unat (alloctag (snd (changeTag 1 s))) = min 255 (unat (alloctag s) + 1)"
    and "unat (alloctag (snd (changeTag (-1) s))) = unat (alloctag s) - 1"
proof -
  have "alloctag s = 255 \<longleftrightarrow> unat (alloctag s) = 255" by (simp add: word_unat_eq_iff)
  moreover have "unat (alloctag s + 1) = unat (alloctag s) + 1"
    using assms by (simp add: unat_word_ariths)
  ultimately show "unat (alloctag (snd (changeTag 1 s))) = min 255 (unat (alloctag s) + 1)"
    using assms by (auto simp: changeTag_def Let_def i32_def min_def)
  show "unat (alloctag (snd (changeTag (-1) s))) = unat (alloctag s) - 1"
    by (auto simp: changeTag_def Let_def i32_def unat_minus_one unat_gt_0)
qed

end
