(* ===== verification/Trx_Init.thy ===== *)
theory Trx_Init imports Trx_Client
begin

text \<open>
  Initialisation of the library (\<^verbatim>\<open>_init\<close> and \<^verbatim>\<open>chkinit\<close> of \<^verbatim>\<open>trxlib.c\<close>) and the overloaded system
  calls with it. The first overloaded call of the process resolves the real functions, talks to
  the manager and clears the allocation lists; a call made while that is under way goes straight
  through. The log messages and the debug level taken from the environment are not modelled.
\<close>

text \<open>\<^verbatim>\<open>for(i=0;i<MAXTAGS;i++) LIST_INIT(&alist[i].list)\<close>\<close>

definition init_lists :: "u32 \<Rightarrow> mem \<Rightarrow> mem" where
  "init_lists at m = fold (\<lambda>i m. LIST_INIT m (alist_list at (of_nat i))) [0..<MAXTAGS] m"

definition trx_init :: "lib \<Rightarrow> fault + lib" where
  "trx_init s =
     (if initted s \<noteq> 0 then Inr s
      else if \<not> resolved s then Inl Exit
      else
        bindE (clientInit (s\<lparr>ininit := 1, pagesize := sys_pagesize s\<rparr>)) (\<lambda>(ok, s2).
          let s3 = (if ok then s2 else s2\<lparr>enable := 0\<rparr>);
              s4 = s3\<lparr>memory := init_lists (alist_at s3) (memory s3)\<rparr>
          in Inr (s4\<lparr>initted := initted s4 + 1, ininit := 0\<rparr>)))"

definition chkinit :: "lib \<Rightarrow> fault + lib" where
  "chkinit s = (if initted s = 0 \<and> ininit s = 0 then trx_init s else Inr s)"

lemma chkinit_initted [simp]: "initted s \<noteq> 0 \<Longrightarrow> chkinit s = Inr s"
  by (simp add: chkinit_def)

lemma chkinit_ininit [simp]: "ininit s \<noteq> 0 \<Longrightarrow> chkinit s = Inr s"
  by (simp add: chkinit_def)

section \<open>The overloaded system calls\<close>

definition lib_open :: "lib \<Rightarrow> fault + int \<times> lib" where
  "lib_open s = bindE (chkinit s) (\<lambda>s1. Inr (tracked_newfd s1))"

definition lib_creat :: "lib \<Rightarrow> fault + int \<times> lib" where
  "lib_creat s = bindE (chkinit s) (\<lambda>s1. Inr (tracked_newfd s1))"

definition lib_socket :: "lib \<Rightarrow> fault + int \<times> lib" where
  "lib_socket s = bindE (chkinit s) (\<lambda>s1. Inr (tracked_newfd s1))"

definition lib_accept :: "lib \<Rightarrow> fault + int \<times> lib" where
  "lib_accept s = bindE (chkinit s) (\<lambda>s1. Inr (tracked_newfd s1))"

definition lib_close :: "int \<Rightarrow> lib \<Rightarrow> fault + int \<times> lib" where
  "lib_close fd s = bindE (chkinit s) (\<lambda>s1. Inr (closeFd fd s1))"

text \<open>\<^verbatim>\<open>dup\<close> and \<^verbatim>\<open>dup2\<close> pass through: the descriptor they return is not recorded.\<close>

definition lib_dup :: "lib \<Rightarrow> fault + int \<times> lib" where
  "lib_dup s = bindE (chkinit s) (\<lambda>s1. Inr (real_newfd s1))"

definition lib_dup2 :: "lib \<Rightarrow> fault + int \<times> lib" where
  "lib_dup2 s = bindE (chkinit s) (\<lambda>s1. Inr (real_newfd s1))"

text \<open>\<^verbatim>\<open>pipe\<close> hands out two descriptors or fails.\<close>

definition real_pipe :: "lib \<Rightarrow> (int \<times> int) option \<times> lib" where
  "real_pipe s =
     (case newfds s of
        a # b # rest \<Rightarrow>
          (if a < 0 \<or> b < 0 then (None, s\<lparr>newfds := rest\<rparr>)
           else (Some (a, b), set_chan b ((chans s b)\<lparr>isopen := True\<rparr>)
                   (set_chan a ((chans s a)\<lparr>isopen := True\<rparr>) (s\<lparr>newfds := rest\<rparr>))))
      | _ \<Rightarrow> (None, s))"

definition lib_pipe :: "lib \<Rightarrow> fault + (int \<times> int) option \<times> lib" where
  "lib_pipe s = bindE (chkinit s) (\<lambda>s1.
     Inr (case real_pipe s1 of
            (None, s2) \<Rightarrow> (None, s2)
          | (Some (a, b), s2) \<Rightarrow> (Some (a, b), newFd b (newFd a s2))))"

definition lib_fork :: "lib \<Rightarrow> fault + int \<times> lib" where
  "lib_fork s = bindE (chkinit s) (\<lambda>s1.
     case real_fork s1 of (p, s2) \<Rightarrow>
       if p = 0 \<and> enable s2 \<noteq> 0 then bindE (clientInit s2) (\<lambda>(_, s3). Inr (p, s3)) else Inr (p, s2))"

section \<open>After initialisation\<close>

text \<open>The cells of different tags, and the two cells of one, do not overlap.\<close>

lemma alist_cells_apart:
  assumes "unat t < 256" and "unat u < 256" and "t \<noteq> u"
  shows "apart (alist_total at t) 8 (alist_total at u) 8"
proof -
  have "8 \<le> unat (8 * a - 8 * b :: u32)" if "unat a < 256" "unat b < 256" "a \<noteq> b" for a b :: u32
  proof -
    have m: "unat (8 * a) = 8 * unat a" "unat (8 * b) = 8 * unat b"
      using that by (simp_all add: unat_word_ariths)
    have "unat a \<noteq> unat b" using that by (simp add: word_unat_eq_iff)
    with m that show ?thesis by (auto simp: unat_sub_if_size word_size)
  qed
  with assms show ?thesis by (auto simp: apart_def alist_total_def)
qed

lemma alist_list_total: "alist_list at t = alist_total at t + 4"
  by (simp add: alist_list_def alist_total_def)

lemma alist_within:
  "within (alist_list at t) 4 (alist_total at t) 8" "within (alist_total at t) 4 (alist_total at t) 8"
  by (simp_all add: within_def alist_list_total)

lemma alist_list_apart:
  assumes "unat t < 256" and "unat u < 256" and "t \<noteq> u"
  shows "apart (alist_list at t) 4 (alist_list at u) 4"
    and "apart (alist_list at t) 4 (alist_total at u) 4"
    and "apart (alist_total at t) 4 (alist_list at u) 4"
    and "apart (alist_total at t) 4 (alist_total at u) 4"
proof -
  show "apart (alist_list at t) 4 (alist_list at u) 4"
    "apart (alist_list at t) 4 (alist_total at u) 4"
    "apart (alist_total at t) 4 (alist_list at u) 4"
    "apart (alist_total at t) 4 (alist_total at u) 4"
    by (rule apart_within [OF alist_cells_apart [OF assms, of at]]; simp add: alist_within)+
qed

lemma alist_own_apart:
  "apart (alist_list at t) 4 (alist_total at t) 4" "apart (alist_total at t) 4 (alist_list at t) 4"
  by (simp_all add: apart_def alist_list_total)

lemma init_lists_upto:
  "n \<le> MAXTAGS \<Longrightarrow> i < n \<Longrightarrow>
   ld32 (fold (\<lambda>i m. LIST_INIT m (alist_list at (of_nat i))) [0..<n] m) (alist_list at (of_nat i)) = 0"
proof (induction n)
  case 0
  then show ?case by simp
next
  case (Suc n)
  show ?case
  proof (cases "i = n")
    case True
    then show ?thesis by (simp add: LIST_INIT_def)
  next
    case False
    with Suc.prems have "i < n" "n < 255" by (auto simp: MAXTAGS_def)
    then have "apart (alist_list at (of_nat n)) 4 (alist_list at (of_nat i)) 4"
      by (intro alist_list_apart(1)) (auto simp: word_unat_eq_iff)
    with Suc False \<open>i < n\<close> show ?thesis by (simp add: LIST_INIT_def frame_simps)
  qed
qed

lemma init_lists_empty:
  assumes "unat t < MAXTAGS"
  shows "ld32 (init_lists at m) (alist_list at t) = 0"
  using init_lists_upto [of MAXTAGS "unat t" at m] assms by (simp add: init_lists_def)

lemma trx_init_initted:
  assumes "trx_init s = Inr s'" and "initted s = 0"
  shows "ininit s' = 0" and "unat t < MAXTAGS \<Longrightarrow> dlist (memory s') f (alist_list (alist_at s') t) []"
  using assms by (auto simp: trx_init_def Let_def init_lists_empty split: prod.splits if_splits)

end
