(* ===== verification/Trx_Alloc.thy ===== *)
theory Trx_Alloc imports Trx_Init
begin

text \<open>
  The allocation overloads of \<^verbatim>\<open>trxlib.c\<close>. Every request is rounded up and served from a larger
  block of the real allocator: the user buffer is aligned inside it, preceded by a header (the
  full \<^verbatim>\<open>struct trxblk_s\<close> when tracking, its last three words otherwise) and followed by a magic
  word. \<^verbatim>\<open>free\<close> checks both, unlinks a tracked block, poisons the buffer on request and returns
  the raw block.
\<close>

section \<open>Allocation\<close>

definition trxAlign :: "u32 \<Rightarrow> u32" where
  "trxAlign s = (s + 3) AND NOT 3"

definition tp_overhead :: "lib \<Rightarrow> u32" where
  "tp_overhead s = (if tracking s \<noteq> 0 then TRXBLK + 4 else (of_nat OFFSET_NWORDS + 1) * 4)"

text \<open>\<^verbatim>\<open>tpsize=((alignment+overhead)<<1) + size\<close>, and the user pointer inside the raw block.\<close>

definition tp_size :: "u32 \<Rightarrow> u32 \<Rightarrow> u32 \<Rightarrow> u32" where
  "tp_size al overhead sz = push_bit 1 (al + overhead) + sz"

definition tp_ph :: "u32 \<Rightarrow> u32 \<Rightarrow> u32 \<Rightarrow> u32" where
  "tp_ph p overhead al = (p + overhead + al) AND NOT (al - 1)"

text \<open>The header and trailer of a tracked block, written in the order of the source.\<close>

definition write_tracked :: "lib \<Rightarrow> u32 \<Rightarrow> u32 \<Rightarrow> u32 \<Rightarrow> bool \<Rightarrow> mem" where
  "write_tracked s p ph sz zero =
     (let tp = ph - TRXBLK; m0 = memory s;
          m1 = st_words m0 (tp + o_callers)
                 (snd (tp_gettrace m0 (frame s) (ld_words m0 (tp + o_callers) MAXCALLERS) MAXCALLERS));
          m2 = st32 m1 (tp + o_size) sz;
          m3 = st32 m2 (tp + o_magic) MAGIC2;
          m4 = st32 m3 (tp + o_offset) (ph - p);
          m5 = st32 m4 (tp + o_tag) (alloctag s);
          m6 = (if zero then bzero m5 ph sz else m5)
      in st32 m6 (ph + sz) MAGIC1)"

definition write_untracked :: "lib \<Rightarrow> u32 \<Rightarrow> u32 \<Rightarrow> u32 \<Rightarrow> bool \<Rightarrow> mem" where
  "write_untracked s p ph sz zero =
     (let m1 = st32 (memory s) (pw_magic ph) MAGIC1;
          m2 = st32 m1 (pw_size ph) sz;
          m3 = st32 m2 (pw_offset ph) (ph - p);
          m4 = (if zero then bzero m3 (p + 1) sz else m3)
      in st32 m4 (ph + sz) MAGIC1)"

definition add32 :: "mem \<Rightarrow> u32 \<Rightarrow> u32 \<Rightarrow> mem" where
  "add32 m a v = st32 m a (ld32 m a + v)"

text \<open>
  \<^verbatim>\<open>tp_alloc\<close>. Before initialisation requests are served from the static buffer of 10000 bytes.
  \<^verbatim>\<open>alist\<close> has \<^verbatim>\<open>MAXTAGS\<close> entries; a larger tag indexes outside it.
\<close>

definition EARLYBUF :: u32 where "EARLYBUF = 10000"

definition tp_alloc :: "u32 \<Rightarrow> bool \<Rightarrow> u32 \<Rightarrow> lib \<Rightarrow> fault + u32 \<times> lib" where
  "tp_alloc size0 zero alignment0 s =
     (let sz = trxAlign size0;
          overhead = tp_overhead s;
          alignment = (if alignment0 = 0 then 4 else alignment0);
          tpsize = tp_size alignment overhead sz
      in if initted s = 0 then
           (if EARLYBUF - epos s \<ge> tpsize
            then Inr (early_at s + epos s, s\<lparr>epos := epos s + tpsize\<rparr>)
            else Inr (0, s))
         else case real_alloc (RMalloc tpsize) s of (p, s1) \<Rightarrow>
           if p = 0 then Inr (0, s1)
           else
             (let ph = tp_ph p overhead alignment in
              if tracking s \<noteq> 0 then
                (if unat (alloctag s1) \<ge> MAXTAGS then Inl OutOfBounds
                 else
                   (let m1 = write_tracked s1 p ph sz zero;
                        m2 = LIST_INSERT_HEAD m1 (alist_list (alist_at s1) (alloctag s1))
                               (ph - TRXBLK) 0;
                        m3 = add32 m2 (alist_total (alist_at s1) (alloctag s1)) sz
                    in Inr (ph, s1\<lparr>memory := m3, curalloc := curalloc s1 + sz\<rparr>)))
              else
                Inr (ph, s1\<lparr>memory := write_untracked s1 p ph sz zero,
                            curalloc := curalloc s1 + sz\<rparr>)))"

definition trx_malloc :: "u32 \<Rightarrow> lib \<Rightarrow> fault + u32 \<times> lib" where
  "trx_malloc sz s = bindE (chkinit s) (\<lambda>s1.
     if enable s1 = 0 then Inr (real_alloc (RMalloc sz) s1) else tp_alloc sz False 0 s1)"

definition trx_calloc :: "u32 \<Rightarrow> u32 \<Rightarrow> lib \<Rightarrow> fault + u32 \<times> lib" where
  "trx_calloc nelem elsize s = bindE (chkinit s) (\<lambda>s1.
     if enable s1 = 0 \<and> ininit s1 = 0 then Inr (real_alloc (RCalloc nelem elsize) s1)
     else tp_alloc (nelem * elsize) True 0 s1)"

definition trx_memalign :: "u32 \<Rightarrow> u32 \<Rightarrow> lib \<Rightarrow> fault + u32 \<times> lib" where
  "trx_memalign alignment sz s = bindE (chkinit s) (\<lambda>s1.
     if enable s1 = 0 then Inr (real_alloc (RMemalign alignment sz) s1)
     else if alignment < 4 then Inr (0, s1)
     else tp_alloc sz False alignment s1)"

definition trx_valloc :: "u32 \<Rightarrow> lib \<Rightarrow> fault + u32 \<times> lib" where
  "trx_valloc sz s = bindE (chkinit s) (\<lambda>s1.
     if enable s1 = 0 then Inr (real_alloc (RValloc sz) s1)
     else trx_memalign (pagesize s1) sz s1)"

section \<open>Checks and release\<close>

definition chkblock :: "mem \<Rightarrow> u32 \<Rightarrow> fault + u32" where
  "chkblock m ptr =
     (let mg = ld32 m (pw_magic ptr) in
      if mg \<noteq> MAGIC1 \<and> mg \<noteq> MAGIC2 then Inl CoreInvalidPointer else Inr mg)"

definition verify :: "lib \<Rightarrow> mem \<Rightarrow> u32 \<Rightarrow> fault + unit" where
  "verify s m ptr =
     (let mg = ld32 m (pw_magic ptr) in
      if mg \<noteq> MAGIC1 \<and> mg \<noteq> MAGIC2 then
        (if mg = MAGIC1 + 1 \<or> mg = MAGIC2 + 1 then Inl CoreDoubleFree else Inl CoreInvalidPointer)
      else if validate s \<noteq> 0 \<and> ld32 m (ptr + ld32 m (pw_size ptr)) \<noteq> MAGIC1 then Inl CoreOverflow
      else Inr ())"

text \<open>
  The neighbour checks of \<^verbatim>\<open>free\<close> on a tracked block:
  \<^verbatim>\<open>verify(LIST_NEXT(tp,list)+1)\<close>, and \<^verbatim>\<open>verify(LIST_PREV(tp,list)+1)\<close> unless
  \<^verbatim>\<open>LIST_PREV\<close> is the head.
\<close>

definition verify_neighbours :: "lib \<Rightarrow> mem \<Rightarrow> u32 \<Rightarrow> fault + unit" where
  "verify_neighbours s m tp =
     (if validate s = 0 then Inr ()
      else bindE (if LIST_NEXT m tp 0 \<noteq> 0 then verify s m (LIST_NEXT m tp 0 + TRXBLK) else Inr ())
        (\<lambda>_. if LIST_PREV m tp 0 \<noteq> alist_list (alist_at s) (ld32 m (tp + o_tag))
              then verify s m (LIST_PREV m tp 0 + TRXBLK) else Inr ()))"

text \<open>
  The poison loop: copies of the pattern until \<open>pend\<close>, the last one cut to what is left. The
  pattern is the trace of the free, or one word of ones when there is none.
\<close>

function poison_loop :: "mem \<Rightarrow> u32 \<Rightarrow> u32 \<Rightarrow> u8 list \<Rightarrow> mem" where
  "poison_loop m pp pend pat =
     (if pp < pend \<and> pat \<noteq> [] then
        (let pat' = (if unat (pend - pp) < length pat then take (unat (pend - pp)) pat else pat)
         in poison_loop (mem_write m pp pat') (pp + of_nat (length pat')) pend pat')
      else m)"
  by pat_completeness auto
termination
proof (relation "measure (\<lambda>(m, pp, pend, pat). unat (pend - pp))", goal_cases)
  case 1
  then show ?case by simp
next
  case (2 m pp pend pat pat')
  let ?d = "pend - pp"
  have d: "0 < unat ?d" using 2 by (auto simp: unat_gt_0)
  have l: "0 < length pat'" "length pat' \<le> unat ?d" using 2 d by (auto split: if_splits)
  have "pend - (pp + of_nat (length pat')) = ?d - of_nat (length pat')" by simp
  with l have "unat (pend - (pp + of_nat (length pat'))) = unat ?d - length pat'"
    by (simp only: unat_minus_of_nat)
  with l d show ?case by simp
qed

declare poison_loop.simps [simp del]

definition free_pattern :: "nat \<Rightarrow> u32 list \<Rightarrow> u8 list" where
  "free_pattern n freers =
     (if n = 0 then bytes32 (- 1) else take (4 * n) (concat (map bytes32 freers)))"

text \<open>
  \<^verbatim>\<open>free\<close> of a block the library handed out. The first part unlinks a tracked block and records
  who frees it; the result is the memory, \<^verbatim>\<open>curalloc\<close> and the poison pattern.
\<close>

definition free_unlink :: "u32 \<Rightarrow> lib \<Rightarrow> fault + mem \<times> u32 \<times> u8 list" where
  "free_unlink ptr s =
     (let m = memory s in
      if ld32 m (pw_magic ptr) = MAGIC2 then
        (let tp = ptr - TRXBLK; tag = ld32 m (tp + o_tag) in
         bindE (verify_neighbours s m tp) (\<lambda>_.
           if unat tag \<ge> MAXTAGS then Inl OutOfBounds
           else
             (let sz = ld32 m (pw_size ptr);
                  m1 = add32 m (alist_total (alist_at s) tag) (- sz);
                  m2 = LIST_REMOVE m1 tp 0;
                  (n, fr) = tp_gettrace m2 (frame s) (ld_words m2 (tp + o_freers) MAXFREERS) MAXFREERS;
                  m3 = st_words m2 (tp + o_freers) fr
              in Inr (m3, curalloc s - sz, free_pattern n fr))))
      else Inr (m, curalloc s - ld32 m (pw_size ptr), free_pattern 0 []))"

definition trx_free :: "u32 \<Rightarrow> lib \<Rightarrow> fault + lib" where
  "trx_free ptr s = bindE (chkinit s) (\<lambda>s1.
     if enable s1 = 0 then Inr (real_free ptr s1)
     else if ptr = 0 then Inr s1
     else
       bindE (verify s1 (memory s1) ptr) (\<lambda>_.
         bindE (free_unlink ptr s1) (\<lambda>(m1, cur, pat).
           let m2 = st32 m1 (pw_magic ptr) (ld32 m1 (pw_magic ptr) OR 1);
               m3 = (if poison s1 \<noteq> 0
                     then poison_loop m2 ptr (ptr + ld32 m2 (pw_size ptr)) pat else m2)
           in Inr (real_free (ptr - ld32 m3 (pw_offset ptr))
                     (s1\<lparr>memory := m3, curalloc := cur\<rparr>)))))"

text \<open>\<^verbatim>\<open>realloc\<close> always moves: allocate, copy the smaller of the two sizes, free.\<close>

definition trx_realloc :: "u32 \<Rightarrow> u32 \<Rightarrow> lib \<Rightarrow> fault + u32 \<times> lib" where
  "trx_realloc ptr sz s = bindE (chkinit s) (\<lambda>s1.
     if enable s1 = 0 then Inr (real_alloc (RRealloc ptr sz) s1)
     else if ptr = 0 then tp_alloc sz False 0 s1
     else if sz = 0 then bindE (trx_free ptr s1) (\<lambda>s2. Inr (0, s2))
     else
       bindE (verify s1 (memory s1) ptr) (\<lambda>_.
         bindE (tp_alloc sz False 0 s1) (\<lambda>(new, s2).
           if new = 0 then Inr (0, s2)
           else
             (let oldsize = ld32 (memory s2) (pw_size ptr);
                  ncopy = (if oldsize > sz then sz else oldsize)
              in bindE (trx_free ptr (s2\<lparr>memory := memmove (memory s2) new ptr ncopy\<rparr>))
                   (\<lambda>s3. Inr (new, s3))))))"

end
