(* ===== verification/Trx_Heap.thy ===== *)
theory Trx_Heap imports Trx_Alloc
begin

text \<open>
  What the allocation overloads promise. Abstractly the tracker keeps a list of live blocks;
  \<open>heap_inv\<close> relates it to the memory: every block has an intact header and trailer, the list
  of each tag links exactly the tracked blocks of that tag, and the totals and \<^verbatim>\<open>curalloc\<close> are the
  sums of the sizes. Allocation adds a block, \<^verbatim>\<open>free\<close> removes one, and nothing else in the tracker's
  data changes.
\<close>

section \<open>Rounding\<close>

lemma and_not_mask_word: "(x :: u32) AND NOT (mask k) = x - take_bit k x"
proof -
  have "take_bit k x + (x AND NOT (mask k)) = take_bit k x OR (x AND NOT (mask k))"
    by (rule disjunctive_add) (auto simp: bit_simps)
  also have "\<dots> = x" by (rule bit_word_eqI) (auto simp: bit_simps)
  finally have "take_bit k x + (x AND NOT (mask k)) = x" .
  then show ?thesis by (metis add_diff_cancel_left')
qed

lemma unat_take_bit32: "unat (take_bit k (x :: u32)) = unat x mod 2 ^ k"
  unfolding unsigned_take_bit_eq by (rule take_bit_eq_mod)

lemma unat_power32: "k < 32 \<Longrightarrow> unat (2 ^ k :: u32) = 2 ^ k"
proof -
  assume "k < 32"
  then have "(2::nat) ^ k < 2 ^ 32" by (rule power_strict_increasing) simp
  then have "unat (of_nat (2 ^ k) :: u32) = 2 ^ k" by (intro unat_of_nat32) simp
  then show ?thesis by simp
qed

lemma trxAlign_unat:
  assumes "unat n \<le> 4294967292"
  shows "unat n \<le> unat (trxAlign n)" and "unat (trxAlign n) \<le> unat n + 3"
    and "unat (trxAlign n) mod 4 = 0"
proof -
  have n3: "unat (n + 3) = unat n + 3" using assms by (simp add: unat_word_ariths)
  have "trxAlign n = (n + 3) - take_bit 2 (n + 3)"
    using and_not_mask_word [of "n + 3" 2] by (simp add: trxAlign_def mask_eq_decr_exp)
  moreover have "take_bit 2 (n + 3) \<le> n + 3"
    by (simp add: word_le_nat_alt unat_take_bit32)
  ultimately have "unat (trxAlign n) = unat n + 3 - (unat n + 3) mod 4"
    using n3 by (simp add: unat_sub unat_take_bit32)
  then show "unat n \<le> unat (trxAlign n)" and "unat (trxAlign n) \<le> unat n + 3"
    and "unat (trxAlign n) mod 4 = 0"
    by presburger+
qed

section \<open>Geometry of a block\<close>

text \<open>
  For a power of two alignment the user pointer lies more than the header and at most one
  alignment further into the raw block, and is aligned.
\<close>

lemma tp_ph_bounds:
  assumes al: "al = 2 ^ k" "k < 31"
    and fit: "unat p + unat ov + unat al < 4294967296"
  shows "unat ov < unat (tp_ph p ov al - p)" and "unat (tp_ph p ov al - p) \<le> unat ov + unat al"
    and "unat (tp_ph p ov al) mod 2 ^ k = 0"
    and "unat (tp_ph p ov al) = unat p + unat (tp_ph p ov al - p)"
proof -
  let ?x = "p + ov + al" and ?r = "take_bit k (p + ov + al)"
  have ual: "unat al = 2 ^ k"
    using al by (simp add: unat_power32)
  have x: "unat ?x = unat p + unat ov + unat al"
    using fit by (simp add: unat_word_ariths)
  have "tp_ph p ov al = ?x - ?r"
    using and_not_mask_word [of ?x k] al by (simp add: tp_ph_def mask_eq_decr_exp)
  moreover have "?r \<le> ?x" by (simp add: word_le_nat_alt unat_take_bit32)
  ultimately have ph: "unat (tp_ph p ov al) = unat ?x - unat ?x mod 2 ^ k"
    by (simp add: unat_sub unat_take_bit32)
  have r: "unat ?x mod 2 ^ k < 2 ^ k" by simp
  have "unat p \<le> unat (tp_ph p ov al)" using ph r x ual by linarith
  then have d: "unat (tp_ph p ov al - p) = unat (tp_ph p ov al) - unat p"
    by (simp add: unat_sub word_le_nat_alt)
  show "unat ov < unat (tp_ph p ov al - p)" "unat (tp_ph p ov al - p) \<le> unat ov + unat al"
    "unat (tp_ph p ov al) = unat p + unat (tp_ph p ov al - p)"
    using d ph r x ual by linarith+
  show "unat (tp_ph p ov al) mod 2 ^ k = 0" unfolding ph by (simp add: minus_mod_eq_mult_div)
qed

lemma tp_size_unat:
  assumes "2 * (unat al + unat ov) + unat sz < 4294967296"
  shows "unat (tp_size al ov sz) = 2 * (unat al + unat ov) + unat sz"
proof -
  have "tp_size al ov sz = 2 * (al + ov) + sz" by (simp add: tp_size_def push_bit_eq_mult)
  with assms show ?thesis by (simp add: unat_word_ariths)
qed

text \<open>Header, buffer and trailer stay inside the raw block.\<close>

lemma block_within_raw:
  assumes al: "al = 2 ^ k" "k < 31"
    and fit: "2 * (unat al + unat ov) + unat sz < 4294967296"
      "unat p + unat (tp_size al ov sz) \<le> 4294967296"
    and h: "unat hdr \<le> unat ov" "4 \<le> unat ov"
  shows "within (tp_ph p ov al - hdr) (unat hdr + unat sz + 4) p (unat (tp_size al ov sz))"
    and "unat hdr < unat (tp_ph p ov al)"
proof -
  have "unat p + unat ov + unat al < 4294967296"
    using fit tp_size_unat [OF fit(1)] h by arith
  note b = tp_ph_bounds [OF al this]
  have "unat (tp_ph p ov al - hdr - p) = unat (tp_ph p ov al - p) - unat hdr"
  proof -
    have "tp_ph p ov al - hdr - p = (tp_ph p ov al - p) - hdr" by simp
    moreover have "hdr \<le> tp_ph p ov al - p" using b h by (simp add: word_le_nat_alt)
    ultimately show ?thesis by (simp only: unat_sub)
  qed
  then show "within (tp_ph p ov al - hdr) (unat hdr + unat sz + 4) p (unat (tp_size al ov sz))"
    using b h tp_size_unat [OF fit(1)] by (simp add: within_def)
  show "unat hdr < unat (tp_ph p ov al)" using b h by linarith
qed

section \<open>Live blocks\<close>

text \<open>
  A live block: the user pointer, the raw pointer, the (rounded) size, and the tag of a tracked
  block. Its footprint runs from the header to the trailer.
\<close>

record blk =
  bptr :: u32
  braw :: u32
  bsize :: u32
  btag :: "u32 option"

definition hdr :: "blk \<Rightarrow> u32" where
  "hdr b = (if btag b = None then 12 else TRXBLK)"

definition blk_base :: "blk \<Rightarrow> u32" where
  "blk_base b = bptr b - hdr b"

definition blk_len :: "blk \<Rightarrow> nat" where
  "blk_len b = unat (hdr b) + unat (bsize b) + 4"

definition blk_tp :: "blk \<Rightarrow> u32" where
  "blk_tp b = bptr b - TRXBLK"

text \<open>The cells that identify a block, and its linkage when it is tracked.\<close>

definition ok_cells :: "blk \<Rightarrow> u32 list" where
  "ok_cells b = (case btag b of None \<Rightarrow> [] | Some _ \<Rightarrow> [blk_tp b + o_tag]) @
     [pw_offset (bptr b), pw_size (bptr b), pw_magic (bptr b), bptr b + bsize b]"

definition link_cells :: "blk \<Rightarrow> u32 list" where
  "link_cells b = (if btag b = None then [] else [le_next 0 (blk_tp b), le_prev 0 (blk_tp b)])"

definition blk_ok :: "mem \<Rightarrow> blk \<Rightarrow> bool" where
  "blk_ok m b \<longleftrightarrow>
     (case btag b of None \<Rightarrow> True | Some t \<Rightarrow> ld32 m (blk_tp b + o_tag) = t) \<and>
     ld32 m (pw_offset (bptr b)) = bptr b - braw b \<and>
     ld32 m (pw_size (bptr b)) = bsize b \<and>
     ld32 m (pw_magic (bptr b)) = (if btag b = None then MAGIC1 else MAGIC2) \<and>
     ld32 m (bptr b + bsize b) = MAGIC1"

text \<open>What does not depend on the memory: blocks and allocation lists do not overlap.\<close>

definition ALIST_BYTES :: nat where "ALIST_BYTES = 2040"

definition blk_valid :: "u32 \<Rightarrow> blk \<Rightarrow> bool" where
  "blk_valid at b \<longleftrightarrow>
     bptr b \<noteq> 0 \<and> unat (bsize b) \<le> 4294967000 \<and>
     (case btag b of None \<Rightarrow> True | Some t \<Rightarrow> unat t < MAXTAGS \<and> blk_tp b \<noteq> 0) \<and>
     apart at ALIST_BYTES (blk_base b) (blk_len b)"

definition layout_ok :: "u32 \<Rightarrow> blk list \<Rightarrow> bool" where
  "layout_ok at B \<longleftrightarrow>
     distinct B \<and> (\<forall>b\<in>set B. blk_valid at b) \<and>
     (\<forall>b\<in>set B. \<forall>c\<in>set B. b \<noteq> c \<longrightarrow> apart (blk_base b) (blk_len b) (blk_base c) (blk_len c))"

definition tagged :: "u32 \<Rightarrow> blk list \<Rightarrow> blk list" where
  "tagged t B = filter (\<lambda>b. btag b = Some t) B"

definition mem_ok :: "u32 \<Rightarrow> mem \<Rightarrow> blk list \<Rightarrow> bool" where
  "mem_ok at m B \<longleftrightarrow>
     (\<forall>b\<in>set B. blk_ok m b) \<and>
     (\<forall>t. unat t < MAXTAGS \<longrightarrow>
        dlist m 0 (alist_list at t) (map blk_tp (tagged t B)) \<and>
        ld32 m (alist_total at t) = sum_list (map bsize (tagged t B)))"

definition heap_inv :: "lib \<Rightarrow> blk list \<Rightarrow> bool" where
  "heap_inv s B \<longleftrightarrow>
     initted s \<noteq> 0 \<and> layout_ok (alist_at s) B \<and> mem_ok (alist_at s) (memory s) B \<and>
     curalloc s = sum_list (map bsize B)"

lemma blk_len_pos [simp]: "0 < blk_len b"
  by (simp add: blk_len_def)

lemma blk_len_bound: "blk_valid at b \<Longrightarrow> blk_len b < 4294967296"
  by (auto simp: blk_valid_def blk_len_def hdr_def TRXBLK_def)

lemma within_offset:
  assumes "unat c + l \<le> n"
  shows "within (a + c) l a n"
  using assms by (simp add: within_def)

lemma ok_cell_within:
  assumes "blk_valid at b" and "c \<in> set (ok_cells b)"
  shows "within c 4 (blk_base b) (blk_len b)"
proof -
  have sz: "unat (bsize b) \<le> 4294967000" using assms by (simp add: blk_valid_def)
  then have u: "unat (bsize b + 80) = unat (bsize b) + 80" "unat (bsize b + 12) = unat (bsize b) + 12"
    "unat (80 + bsize b) = unat (bsize b) + 80" "unat (12 + bsize b) = unat (bsize b) + 12"
    by (simp_all add: unat_word_ariths)
  show ?thesis
    using assms(2) u
    by (auto simp: ok_cells_def within_def blk_base_def blk_len_def hdr_def layout_simps blk_tp_def
        pw_offset_def pw_size_def pw_magic_def split: option.splits)
qed

lemma link_cell_within:
  assumes "blk_valid at b" and "c \<in> set (link_cells b)"
  shows "within c 4 (blk_base b) (blk_len b)"
  using assms
  by (auto simp: link_cells_def within_def blk_base_def blk_len_def hdr_def layout_simps blk_tp_def
      le_next_def le_prev_def split: if_splits)

lemma link_node_within:
  assumes "btag b \<noteq> None"
  shows "within (blk_tp b + 0) 8 (blk_base b) (blk_len b)"
  using assms by (auto simp: within_def blk_base_def blk_len_def hdr_def blk_tp_def layout_simps)

text \<open>Past the linkage, the identifying cells.\<close>

lemma ok_cell_past_link:
  assumes v: "blk_valid at b" and "btag b \<noteq> None" and "c \<in> set (ok_cells b)"
  shows "within c 4 (blk_tp b + 8) (blk_len b - 8)"
proof -
  have sz: "unat (bsize b) \<le> 4294967000" using v by (simp add: blk_valid_def)
  then have u: "unat (bsize b + 72) = unat (bsize b) + 72" "unat (72 + bsize b) = unat (bsize b) + 72"
    by (simp_all add: unat_word_ariths)
  show ?thesis
    using assms(2,3) u
    by (auto simp: ok_cells_def within_def blk_len_def hdr_def layout_simps blk_tp_def
        pw_offset_def pw_size_def pw_magic_def split: option.splits)
qed

lemma own_link_apart:
  assumes v: "blk_valid at b" and c: "c \<in> set (ok_cells b)" and d: "d \<in> set (link_cells b)"
  shows "apart d 4 c 4"
proof -
  have t: "btag b \<noteq> None" using d by (auto simp: link_cells_def split: if_splits)
  have "within d 4 (blk_tp b) 8"
    using d by (auto simp: link_cells_def within_def le_next_def le_prev_def split: if_splits)
  moreover have "apart (blk_tp b) 8 (blk_tp b + 8) (blk_len b - 8)"
    using blk_len_bound [OF v] by (auto simp: apart_def)
  ultimately show ?thesis using ok_cell_past_link [OF v t c] by (auto intro: apart_within)
qed


section \<open>Cells of the heap\<close>

definition blk_cells :: "blk \<Rightarrow> u32 set" where
  "blk_cells b = set (ok_cells b) \<union> set (link_cells b)"

definition alist_cells :: "u32 \<Rightarrow> u32 set" where
  "alist_cells at = {c. \<exists>t. unat t < MAXTAGS \<and> (c = alist_list at t \<or> c = alist_total at t)}"

lemma blk_cell_within: "blk_valid at b \<Longrightarrow> c \<in> blk_cells b \<Longrightarrow> within c 4 (blk_base b) (blk_len b)"
  using ok_cell_within link_cell_within by (auto simp: blk_cells_def)

lemma alist_cell_within: "c \<in> alist_cells at \<Longrightarrow> within c 4 at ALIST_BYTES"
  by (auto simp: alist_cells_def within_def ALIST_BYTES_def MAXTAGS_def alist_list_def
      alist_total_def unat_word_ariths)

lemma layout_okD:
  assumes "layout_ok at B"
  shows "distinct B" and "b \<in> set B \<Longrightarrow> blk_valid at b"
    and "b \<in> set B \<Longrightarrow> c \<in> set B \<Longrightarrow> b \<noteq> c \<Longrightarrow>
      apart (blk_base b) (blk_len b) (blk_base c) (blk_len c)"
    and "b \<in> set B \<Longrightarrow> apart at ALIST_BYTES (blk_base b) (blk_len b)"
  using assms by (auto simp: layout_ok_def blk_valid_def)

lemma layout_ok_subset:
  assumes "layout_ok at B" and "set C \<subseteq> set B" and "distinct C"
  shows "layout_ok at C"
  using assms unfolding layout_ok_def by blast

lemma layout_ok_remove1: "layout_ok at B \<Longrightarrow> layout_ok at (remove1 b B)"
  by (rule layout_ok_subset) (auto simp: layout_ok_def set_remove1_subset)

lemma blk_cells_apart:
  assumes l: "layout_ok at B" and "b \<in> set B" and "c \<in> set B" and "b \<noteq> c"
    and "x \<in> blk_cells b" and "y \<in> blk_cells c"
  shows "apart x 4 y 4"
  using apart_within [OF layout_okD(3) [OF l] blk_cell_within blk_cell_within] layout_okD(2) [OF l] assms
  by (metis zero_less_numeral)

lemma alist_blk_apart:
  assumes "layout_ok at B" and "b \<in> set B" and "x \<in> alist_cells at" and "y \<in> blk_cells b"
  shows "apart x 4 y 4" and "apart y 4 x 4"
proof -
  show "apart x 4 y 4"
    by (rule apart_within [OF layout_okD(4) [OF assms(1,2)] alist_cell_within [OF assms(3)]
          blk_cell_within [OF layout_okD(2) [OF assms(1,2)] assms(4)]]) simp_all
  then show "apart y 4 x 4" by (simp add: apart_commute)
qed

lemma link_ok_apart:
  assumes "layout_ok at B" and "b \<in> set B" and "c \<in> set B"
    and "x \<in> set (link_cells b)" and "y \<in> set (ok_cells c)"
  shows "apart x 4 y 4"
proof (cases "b = c")
  case True
  with own_link_apart [OF layout_okD(2) [OF assms(1,2)]] assms show ?thesis by auto
next
  case False
  with blk_cells_apart [OF assms(1,2,3)] assms show ?thesis by (auto simp: blk_cells_def)
qed

text \<open>The invariant only depends on these cells.\<close>

lemma blk_ok_cong:
  assumes "\<forall>c\<in>set (ok_cells b). ld32 m' c = ld32 m c"
  shows "blk_ok m' b = blk_ok m b"
  using assms by (auto simp: blk_ok_def ok_cells_def split: option.splits)

lemma tagged_cells:
  assumes "b \<in> set (tagged t B)"
  shows "b \<in> set B" and "le_next 0 (blk_tp b) \<in> set (link_cells b)"
    and "le_prev 0 (blk_tp b) \<in> set (link_cells b)"
  using assms by (auto simp: tagged_def link_cells_def)

lemma tagged_links_eq:
  assumes "\<And>d c. d \<in> set (tagged u B) \<Longrightarrow> c \<in> set (link_cells d) \<Longrightarrow> ld32 m' c = ld32 m c"
  shows "\<forall>x\<in>set (map blk_tp (tagged u B)). ld32 m' (le_next 0 x) = ld32 m (le_next 0 x) \<and>
           ld32 m' (le_prev 0 x) = ld32 m (le_prev 0 x)"
  using assms tagged_cells(2,3) by auto

lemma tagged_links_apart:
  assumes "\<And>d y. d \<in> set (tagged t B) \<Longrightarrow> y \<in> set (link_cells d) \<Longrightarrow> apart y 4 c k"
    and "x \<in> set (map blk_tp (tagged t B))"
  shows "apart (le_next 0 x) 4 c k \<and> apart (le_prev 0 x) 4 c k"
proof -
  from assms(2) obtain d where d: "d \<in> set (tagged t B)" "x = blk_tp d" by auto
  show ?thesis
    unfolding d(2) using assms(1) [OF d(1) tagged_cells(2) [OF d(1)]]
      assms(1) [OF d(1) tagged_cells(3) [OF d(1)]] by simp
qed

lemma mem_ok_cong:
  assumes "\<forall>b\<in>set B. \<forall>c\<in>blk_cells b. ld32 m' c = ld32 m c"
    and "\<forall>c\<in>alist_cells at. ld32 m' c = ld32 m c"
  shows "mem_ok at m' B = mem_ok at m B"
proof -
  have "blk_ok m' b = blk_ok m b" if "b \<in> set B" for b
    using assms(1) that by (intro blk_ok_cong) (auto simp: blk_cells_def)
  moreover have "dlist m' 0 (alist_list at t) (map blk_tp (tagged t B)) =
      dlist m 0 (alist_list at t) (map blk_tp (tagged t B))" if "unat t < MAXTAGS" for t
  proof (rule dlist_frame)
    show "ld32 m' (alist_list at t) = ld32 m (alist_list at t)"
      using assms(2) that by (auto simp: alist_cells_def)
    show "\<forall>x\<in>set (map blk_tp (tagged t B)). ld32 m' (le_next 0 x) = ld32 m (le_next 0 x) \<and>
        ld32 m' (le_prev 0 x) = ld32 m (le_prev 0 x)"
      using assms(1) tagged_cells by (fastforce simp: blk_cells_def)
  qed
  moreover have "ld32 m' (alist_total at t) = ld32 m (alist_total at t)" if "unat t < MAXTAGS" for t
    using assms(2) that by (auto simp: alist_cells_def)
  ultimately show ?thesis by (simp add: mem_ok_def)
qed

text \<open>Whatever is written away from the blocks and the lists keeps it.\<close>

lemma mem_ok_touches:
  assumes l: "layout_ok at B" and t: "touches m m' p n" and n: "0 < n"
    and "\<forall>b\<in>set B. apart p n (blk_base b) (blk_len b)" and "apart p n at ALIST_BYTES"
  shows "mem_ok at m' B = mem_ok at m B"
proof (rule mem_ok_cong)
  have w: "within p n p n" by (simp add: within_def)
  show "\<forall>b\<in>set B. \<forall>c\<in>blk_cells b. ld32 m' c = ld32 m c"
  proof (intro ballI)
    fix b c assume "b \<in> set B" and "c \<in> blk_cells b"
    with assms have "apart p n c 4"
      by (intro apart_within [OF _ w blk_cell_within]) (auto intro: layout_okD)
    then show "ld32 m' c = ld32 m c" by (rule touches_ld32 [OF t])
  qed
  show "\<forall>c\<in>alist_cells at. ld32 m' c = ld32 m c"
  proof
    fix c assume "c \<in> alist_cells at"
    with assms have "apart p n c 4"
      by (intro apart_within [OF _ w alist_cell_within]) auto
    then show "ld32 m' c = ld32 m c" by (rule touches_ld32 [OF t])
  qed
qed


section \<open>Linking and unlinking a block\<close>

lemma tagged_Cons: "tagged t (b # B) = (if btag b = Some t then b # tagged t B else tagged t B)"
  by (simp add: tagged_def)

lemma blk_tp_inj:
  assumes "layout_ok at B" and "b \<in> set B" and "c \<in> set B" and "btag b \<noteq> None" and "btag c \<noteq> None"
    and "blk_tp b = blk_tp c"
  shows "b = c"
proof (rule ccontr)
  assume "b \<noteq> c"
  with assms have "apart (le_next 0 (blk_tp b)) 4 (le_next 0 (blk_tp c)) 4"
    by (intro blk_cells_apart [OF assms(1-3)]) (auto simp: blk_cells_def link_cells_def)
  with assms show False by (simp add: apart_def)
qed

text \<open>The allocation lists have room for the blocks of their tag.\<close>

lemma layout_nodes_apart:
  assumes l: "layout_ok at B" and t: "unat t < MAXTAGS"
  shows "nodes_apart 0 (alist_list at t) (set (map blk_tp (tagged t B)))"
proof -
  have h: "within (alist_list at t) 4 at ALIST_BYTES"
    by (rule alist_cell_within) (use t in \<open>auto simp: alist_cells_def\<close>)
  have w: "within (blk_tp b + 0) 8 (blk_base b) (blk_len b)" and B: "b \<in> set B"
    if "b \<in> set (tagged t B)" for b
    using that link_node_within by (auto simp: tagged_def)
  have "apart (alist_list at t) 4 (blk_tp b + 0) 8" if "b \<in> set (tagged t B)" for b
    by (rule apart_within [OF layout_okD(4) [OF l B [OF that]] h w [OF that]]) simp_all
  moreover have "apart (blk_tp b + 0) 8 (blk_tp c + 0) 8"
    if "b \<in> set (tagged t B)" "c \<in> set (tagged t B)" "blk_tp b \<noteq> blk_tp c" for b c
    by (rule apart_within [OF layout_okD(3) [OF l B [OF that(1)] B [OF that(2)]]
          w [OF that(1)] w [OF that(2)]]) (use that in auto)
  ultimately show ?thesis by (auto simp: nodes_apart_def)
qed

lemma tagged_other_links:
  assumes l: "layout_ok at B" and "b \<in> set B" "btag b = Some t" and "c \<in> set (tagged u B)" "u \<noteq> t"
    and "x \<in> blk_cells b"
  shows "apart x 4 (le_next 0 (blk_tp c)) 4" and "apart x 4 (le_prev 0 (blk_tp c)) 4"
proof -
  have "c \<in> set B" "c \<noteq> b" "btag c \<noteq> None" using assms by (auto simp: tagged_def)
  then show "apart x 4 (le_next 0 (blk_tp c)) 4" and "apart x 4 (le_prev 0 (blk_tp c)) 4"
    using assms by (auto intro!: blk_cells_apart [OF l, of b c] simp: blk_cells_def link_cells_def)
qed

text \<open>
  The common part of linking and unlinking: what a change confined to the linkages of the blocks
  of tag \<open>t\<close> and the two cells of \<open>alist[t]\<close> leaves alone. \<open>L\<close> are the blocks before and after.
\<close>

definition tag_frame :: "u32 \<Rightarrow> mem \<Rightarrow> mem \<Rightarrow> u32 \<Rightarrow> blk list \<Rightarrow> bool" where
  "tag_frame at m m' t L \<longleftrightarrow>
     (\<forall>c k. (\<forall>d\<in>set (tagged t L). \<forall>x\<in>set (link_cells d). apart x 4 c k) \<longrightarrow>
        apart (alist_list at t) 4 c k \<longrightarrow> apart (alist_total at t) 4 c k \<longrightarrow>
        mem_read m' c k = mem_read m c k)"

lemma tag_frameD:
  assumes "tag_frame at m m' t L"
    and "\<And>d x. d \<in> set (tagged t L) \<Longrightarrow> x \<in> set (link_cells d) \<Longrightarrow> apart x 4 c 4"
    and "apart (alist_list at t) 4 c 4" and "apart (alist_total at t) 4 c 4"
  shows "ld32 m' c = ld32 m c"
  using assms by (simp add: tag_frame_def ld32_def)

lemma tag_frame_blocks:
  assumes f: "tag_frame at m m' t L" and l: "layout_ok at L" and t: "unat t < MAXTAGS"
    and b: "b \<in> set L"
  shows "c \<in> set (ok_cells b) \<Longrightarrow> ld32 m' c = ld32 m c"
    and "btag b \<noteq> Some t \<Longrightarrow> c \<in> set (link_cells b) \<Longrightarrow> ld32 m' c = ld32 m c"
proof -
  have at: "alist_list at t \<in> alist_cells at" "alist_total at t \<in> alist_cells at"
    using t by (auto simp: alist_cells_def)
  have sub: "d \<in> set L" "btag d = Some t" if "d \<in> set (tagged t L)" for d
    using that by (auto simp: tagged_def)
  note h = alist_blk_apart(1) [OF l b at(1)] alist_blk_apart(1) [OF l b at(2)]
  show "ld32 m' c = ld32 m c" if "c \<in> set (ok_cells b)"
    by (rule tag_frameD [OF f link_ok_apart [OF l sub(1) b _ that]])
       (use that h in \<open>auto simp: blk_cells_def\<close>)
  show "ld32 m' c = ld32 m c" if "btag b \<noteq> Some t" "c \<in> set (link_cells b)"
  proof (rule tag_frameD [OF f])
    fix d x assume d: "d \<in> set (tagged t L)" and x: "x \<in> set (link_cells d)"
    from sub [OF d] that(1) have "d \<noteq> b" by auto
    with x that show "apart x 4 c 4"
      by (intro blk_cells_apart [OF l sub(1) [OF d] b]) (auto simp: blk_cells_def)
  qed (use that h in \<open>auto simp: blk_cells_def\<close>)
qed

lemma tag_frame_alist:
  assumes f: "tag_frame at m m' t L" and l: "layout_ok at L" and t: "unat t < MAXTAGS"
    and u: "unat u < MAXTAGS" "u \<noteq> t"
  shows "ld32 m' (alist_list at u) = ld32 m (alist_list at u)"
    and "ld32 m' (alist_total at u) = ld32 m (alist_total at u)"
proof -
  have uc: "alist_list at u \<in> alist_cells at" "alist_total at u \<in> alist_cells at"
    using u by (auto simp: alist_cells_def)
  have ap: "apart (alist_list at t) 4 (alist_list at u) 4" "apart (alist_list at t) 4 (alist_total at u) 4"
    "apart (alist_total at t) 4 (alist_list at u) 4" "apart (alist_total at t) 4 (alist_total at u) 4"
    by (rule alist_list_apart; use u t in \<open>auto simp: MAXTAGS_def\<close>)+
  have "apart x 4 y 4" if "d \<in> set (tagged t L)" "x \<in> set (link_cells d)" "y \<in> alist_cells at" for d x y
    by (rule alist_blk_apart(2) [OF l, of d]) (use that in \<open>auto simp: blk_cells_def tagged_def\<close>)
  with ap uc show "ld32 m' (alist_list at u) = ld32 m (alist_list at u)"
    "ld32 m' (alist_total at u) = ld32 m (alist_total at u)"
    by (auto intro: tag_frameD [OF f])
qed

lemma mem_ok_local:
  assumes old: "mem_ok at m B" and l: "layout_ok at L" and t: "unat t < MAXTAGS"
    and sub: "set B \<subseteq> set L" "set C \<subseteq> set L" and ok: "\<forall>b\<in>set L. blk_ok m b"
    and other: "\<And>u. u \<noteq> t \<Longrightarrow> tagged u C = tagged u B"
    and f: "tag_frame at m m' t L"
    and new: "dlist m' 0 (alist_list at t) (map blk_tp (tagged t C))"
      "ld32 m' (alist_total at t) = sum_list (map bsize (tagged t C))"
  shows "mem_ok at m' C"
proof -
  have "blk_ok m' c" if "c \<in> set C" for c
    using blk_ok_cong [of c m' m] tag_frame_blocks(1) [OF f l t] ok that sub by auto
  moreover have "dlist m' 0 (alist_list at u) (map blk_tp (tagged u C)) \<and>
      ld32 m' (alist_total at u) = sum_list (map bsize (tagged u C))"
    if u: "unat u < MAXTAGS" for u
  proof (cases "u = t")
    case True
    with new show ?thesis by simp
  next
    case False
    have "dlist m' 0 (alist_list at u) (map blk_tp (tagged u B)) =
        dlist m 0 (alist_list at u) (map blk_tp (tagged u B))"
    proof (rule dlist_frame)
      have "ld32 m' c = ld32 m c" if "d \<in> set (tagged u B)" "c \<in> set (link_cells d)" for c d
        using tag_frame_blocks(2) [OF f l t, of d] that False sub by (auto simp: tagged_def)
      then show "\<forall>x\<in>set (map blk_tp (tagged u B)).
          ld32 m' (le_next 0 x) = ld32 m (le_next 0 x) \<and> ld32 m' (le_prev 0 x) = ld32 m (le_prev 0 x)"
        by (rule tagged_links_eq)
    qed (rule tag_frame_alist [OF f l t u False])
    with old u False other [OF False] tag_frame_alist [OF f l t u False] show ?thesis
      by (simp add: mem_ok_def)
  qed
  ultimately show ?thesis by (simp add: mem_ok_def)
qed

text \<open>The two cells of a tag, and the linkages of its blocks.\<close>

lemma links_alist_apart:
  assumes l: "layout_ok at L" and t: "unat t < MAXTAGS" and "d \<in> set (tagged u L)" "x \<in> set (link_cells d)"
  shows "apart x 4 (alist_list at t) 4" "apart x 4 (alist_total at t) 4"
    "apart (alist_list at t) 4 x 4" "apart (alist_total at t) 4 x 4"
proof -
  have "d \<in> set L" "x \<in> blk_cells d" "alist_list at t \<in> alist_cells at" "alist_total at t \<in> alist_cells at"
    using assms by (auto simp: blk_cells_def tagged_def alist_cells_def)
  then show "apart x 4 (alist_list at t) 4" "apart x 4 (alist_total at t) 4"
    "apart (alist_list at t) 4 x 4" "apart (alist_total at t) 4 x 4"
    using alist_blk_apart [OF l] by blast+
qed

lemma add32_total:
  assumes l: "layout_ok at L" and t: "unat t < MAXTAGS" and sub: "set B \<subseteq> set L"
  shows "dlist (add32 m (alist_total at t) v) 0 (alist_list at t) (map blk_tp (tagged t B)) =
         dlist m 0 (alist_list at t) (map blk_tp (tagged t B))"
proof (rule dlist_frame)
  have up: "ld32 (add32 m (alist_total at t) v) c = ld32 m c" if "apart (alist_total at t) 4 c 4" for c
    using that by (simp add: add32_def ld32_st32_apart)
  have "apart (alist_total at t) 4 x 4" if "d \<in> set (tagged t B)" "x \<in> set (link_cells d)" for d x
    using links_alist_apart(4) [OF l t, of d t x] that sub by (auto simp: tagged_def)
  then show "\<forall>x\<in>set (map blk_tp (tagged t B)).
      ld32 (add32 m (alist_total at t) v) (le_next 0 x) = ld32 m (le_next 0 x) \<and>
      ld32 (add32 m (alist_total at t) v) (le_prev 0 x) = ld32 m (le_prev 0 x)"
    by (intro tagged_links_eq up)
  show "ld32 (add32 m (alist_total at t) v) (alist_list at t) = ld32 m (alist_list at t)"
    by (simp add: up alist_own_apart)
qed


lemma link_block:
  assumes l: "layout_ok at (b # B)" and m: "mem_ok at m B" and b: "blk_ok m b"
    and t: "btag b = Some t" "unat t < MAXTAGS" and nz: "blk_tp b \<noteq> 0"
  shows "mem_ok at (add32 (LIST_INSERT_HEAD m (alist_list at t) (blk_tp b) 0) (alist_total at t) (bsize b))
           (b # B)" (is "mem_ok at ?m' (b # B)")
    and "tag_frame at m
      (add32 (LIST_INSERT_HEAD m (alist_list at t) (blk_tp b) 0) (alist_total at t) (bsize b)) t (b # B)"
proof -
  let ?h = "alist_list at t" and ?L = "b # B"
  let ?m = "LIST_INSERT_HEAD m ?h (blk_tp b) 0"
  have dl: "dlist m 0 ?h (map blk_tp (tagged t B))" using m t by (simp add: mem_ok_def)
  have bt: "b \<in> set (tagged t ?L)" using t by (simp add: tagged_def)
  note ba = links_alist_apart [OF l t(2) bt]
  have fr: "mem_read ?m c k = mem_read m c k"
    if c: "\<And>d x. d \<in> set (tagged t ?L) \<Longrightarrow> x \<in> set (link_cells d) \<Longrightarrow> apart x 4 c k"
      and h: "apart ?h 4 c k" for c k
  proof (rule LIST_INSERT_HEAD_frame)
    assume "ld32 m ?h \<noteq> 0"
    then obtain d D where d: "tagged t B = d # D" "ld32 m ?h = blk_tp d"
      using dl by (cases "tagged t B") (auto simp: dlist_Cons)
    then have "d \<in> set (tagged t B)" by simp
    with tagged_cells [OF this] show "apart (le_prev 0 (ld32 m ?h)) 4 c k"
      unfolding d(2) by (intro c) (auto simp: tagged_def)
  qed (use tagged_cells [OF bt] ba h c [OF bt] in auto)
  show tf: "tag_frame at m ?m' t ?L"
    by (auto simp: tag_frame_def add32_def mem_read_st32_apart fr)
  have "dlist ?m' 0 ?h (map blk_tp (tagged t ?L))"
  proof -
    have "b \<notin> set B" using l by (simp add: layout_ok_def)
    then have "blk_tp b \<notin> set (map blk_tp (tagged t B))"
      using blk_tp_inj [OF l, of b] t by (auto simp: tagged_def)
    then have "dlist ?m 0 ?h (map blk_tp (tagged t ?L))"
      using dlist_insert_head [OF dl _ _ nz] layout_nodes_apart [OF l t(2)] t by (simp add: tagged_Cons)
    then show ?thesis by (subst add32_total [OF l t(2)]) auto
  qed
  moreover have "ld32 ?m' (alist_total at t) = sum_list (map bsize (tagged t ?L))"
  proof -
    have "ld32 ?m (alist_total at t) = ld32 m (alist_total at t)"
      by (intro ld32_cong fr links_alist_apart [OF l t(2)] alist_own_apart)
    then show ?thesis using m t by (simp add: add32_def mem_ok_def tagged_Cons)
  qed
  ultimately show "mem_ok at ?m' ?L"
    using m b t tf by (intro mem_ok_local [OF m l t(2)]) (auto simp: tagged_Cons mem_ok_def)
qed


lemma tagged_remove1: "tagged t (remove1 b B) = remove1 b (tagged t B)"
  by (simp add: tagged_def filter_remove1)

lemma remove1_mid: "distinct (as @ b # bs) \<Longrightarrow> remove1 b (as @ b # bs) = as @ bs"
  by (simp add: remove1_append)

lemma sum_list_map_remove1_word:
  "b \<in> set xs \<Longrightarrow> sum_list (map bsize (remove1 b xs)) = sum_list (map bsize xs) - bsize b"
  by (induction xs) auto

lemma unlink_block:
  assumes l: "layout_ok at B" and m: "mem_ok at m B" and b: "b \<in> set B"
    and t: "btag b = Some t" "unat t < MAXTAGS"
  shows "mem_ok at (LIST_REMOVE (add32 m (alist_total at t) (- bsize b)) (blk_tp b) 0) (remove1 b B)"
    and "tag_frame at m (LIST_REMOVE (add32 m (alist_total at t) (- bsize b)) (blk_tp b) 0) t B"
    (is "tag_frame at m (LIST_REMOVE ?m _ _) t B")
proof -
  let ?h = "alist_list at t" and ?m' = "LIST_REMOVE ?m (blk_tp b) 0"
  have bt: "b \<in> set (tagged t B)" using b t by (simp add: tagged_def)
  then obtain as bs where tg: "tagged t B = as @ b # bs" by (auto simp: in_set_conv_decomp)
  have dt: "distinct (tagged t B)" using l by (simp add: tagged_def layout_ok_def)
  have "dlist m 0 ?h (map blk_tp (tagged t B))" using m t by (simp add: mem_ok_def)
  then have dl: "dlist ?m 0 ?h (map blk_tp as @ blk_tp b # map blk_tp bs)"
    using add32_total [OF l t(2), of B m "- bsize b"] by (simp add: tg)
  have na: "nodes_apart 0 ?h (set (map blk_tp as @ blk_tp b # map blk_tp bs))"
    using layout_nodes_apart [OF l t(2)] tg by simp
  have fr: "mem_read ?m' c k = mem_read ?m c k"
    if "\<And>d x. d \<in> set (tagged t B) \<Longrightarrow> x \<in> set (link_cells d) \<Longrightarrow> apart x 4 c k"
      and "apart ?h 4 c k" for c k
    by (rule LIST_REMOVE_dlist_frame [OF dl na tagged_links_apart [of t B] that(2)])
       (use that(1) tg in simp_all)
  have rest: "tagged t (remove1 b B) = as @ bs"
    using tg dt by (simp add: tagged_remove1 remove1_mid)
  show tf: "tag_frame at m ?m' t B"
    by (auto simp: tag_frame_def fr) (simp add: add32_def mem_read_st32_apart)
  have "dlist ?m' 0 ?h (map blk_tp (tagged t (remove1 b B)))"
    using dlist_remove [OF dl na] by (simp add: rest)
  moreover have "ld32 ?m' (alist_total at t) = sum_list (map bsize (tagged t (remove1 b B)))"
  proof -
    have "ld32 ?m' (alist_total at t) = ld32 ?m (alist_total at t)"
      by (intro ld32_cong fr links_alist_apart [OF l t(2)] alist_own_apart)
    then show ?thesis
      using m t sum_list_map_remove1_word [OF bt] by (simp add: add32_def mem_ok_def tagged_remove1)
  qed
  moreover have "tagged u (remove1 b B) = tagged u B" if "u \<noteq> t" for u
    unfolding tagged_remove1 by (rule remove1_idem) (use that t in \<open>simp add: tagged_def\<close>)
  ultimately show "mem_ok at ?m' (remove1 b B)"
    using m tf by (intro mem_ok_local [OF m l t(2)]) (auto simp: mem_ok_def dest: notin_set_remove1 set_remove1_subset [THEN subsetD])
qed

end
