(* ===== verification/Trx_HeapOps.thy ===== *)
theory Trx_HeapOps imports Trx_Heap
begin

text \<open>
  Allocation and release refine adding and removing a block: the proofs that \<open>heap_inv\<close> is kept,
  and what each operation returns.
\<close>

section \<open>Writing a header and trailer\<close>

lemma touches_then_st32:
  "touches m m' a n \<Longrightarrow> within c 4 a n \<Longrightarrow> touches m (st32 m' c v) a n"
  by (blast intro: touches_trans touches_within touches_st32)

lemma touches_then_bzero:
  "touches m m' a n \<Longrightarrow> within c (unat k) a n \<Longrightarrow> touches m (bzero m' c k) a n"
  by (blast intro: touches_trans touches_within touches_bzero)

lemma touches_then_st_words:
  "touches m m' a n \<Longrightarrow> within c (4 * length ws) a n \<Longrightarrow> touches m (st_words m' c ws) a n"
  unfolding st_words_def
  by (rule touches_trans, assumption, rule touches_within [OF touches_write]) simp

lemmas touch_intros = touches_then_st32 touches_then_bzero touches_then_st_words touches_refl

lemma unat_add_small:
  fixes x k :: u32
  assumes "unat x + unat k < 4294967296"
  shows "unat (x + k) = unat x + unat k" and "unat (k + x) = unat x + unat k"
  using unat_plus_le [of x k] unat_plus_le [of k x] assms by simp_all

lemma write_tracked_touches:
  assumes "unat sz \<le> 4294967000"
  shows "touches (memory s) (write_tracked s p ph sz zero) (ph - TRXBLK) (unat sz + 84)"
proof -
  let ?tp = "ph - TRXBLK" and ?n = "unat sz + 84"
  have u: "unat (sz + 80) = unat sz + 80" "unat (80 + sz) = unat sz + 80"
    using assms unat_add_small [of sz 80] by simp_all
  have cells: "within (?tp + k) 4 ?tp ?n" if "k \<in> {o_size, o_magic, o_offset, o_tag}" for k
    using that by (auto simp: within_def layout_simps)
  have "within (?tp + o_callers) 40 ?tp ?n" "within ph (unat sz) ?tp ?n" "within (ph + sz) 4 ?tp ?n"
    using u by (auto simp: within_def layout_simps)
  with cells show ?thesis
    unfolding write_tracked_def Let_def
    by (cases zero; simp only: if_True if_False; intro touch_intros; simp add: MAXCALLERS_def)
qed


lemma write_untracked_touches:
  assumes "unat sz \<le> 4294967000"
  shows "touches (memory s) (write_untracked s p ph sz False) (ph - 12) (unat sz + 16)"
proof -
  let ?a = "ph - 12" and ?n = "unat sz + 16"
  have u: "unat (sz + 12) = unat sz + 12" "unat (12 + sz) = unat sz + 12"
    using assms unat_add_small [of sz 12] by simp_all
  have "within (pw_magic ph) 4 ?a ?n" "within (pw_size ph) 4 ?a ?n" "within (pw_offset ph) 4 ?a ?n"
    "within (ph + sz) 4 ?a ?n"
    using u by (simp_all add: within_def pw_magic_def pw_size_def pw_offset_def)
  then show ?thesis
    unfolding write_untracked_def Let_def
    by (simp only: if_False; intro touch_intros)
qed

text \<open>Each cell of a header keeps what was stored in it, and the stores before and after miss it.\<close>

lemma header_cells_apart:
  assumes "unat sz \<le> 4294967000"
    and "x \<in> {o_tag, o_offset, o_size, o_magic}" and "y \<in> {o_tag, o_offset, o_size, o_magic}"
  shows "x \<noteq> y \<Longrightarrow> apart (a + x) 4 (a + y) 4"
    and "apart (a + x) 4 (a + TRXBLK + sz) 4" and "apart (a + TRXBLK + sz) 4 (a + x) 4"
    and "apart (a + x) 4 (a + TRXBLK) (unat sz)" and "apart (a + TRXBLK) (unat sz) (a + x) 4"
    and "apart (a + x) 4 (a + o_callers) 40" and "apart (a + o_callers) 40 (a + x) 4"
proof -
  have u: "unat (TRXBLK + sz) = unat sz + 80"
    using assms unat_add_small [of sz 80] by (simp add: TRXBLK_def)
  have b: "unat x \<in> {8, 68, 72, 76}" using assms(2) by (auto simp: layout_simps)
  show "x \<noteq> y \<Longrightarrow> apart (a + x) 4 (a + y) 4"
    using assms(2,3) by (auto simp: layout_simps apart_def)
  show "apart (a + x) 4 (a + TRXBLK + sz) 4" and "apart (a + TRXBLK + sz) 4 (a + x) 4"
    using apart_offsets [of x 4 "TRXBLK + sz" 4 a] b u assms(1) by (auto simp: add.assoc)
  show 1: "apart (a + x) 4 (a + TRXBLK) (unat sz)"
    using apart_offsets [of x 4 TRXBLK "unat sz" a] b assms(1) by (auto simp: TRXBLK_def)
  then show "apart (a + TRXBLK) (unat sz) (a + x) 4" by (simp add: apart_commute)
  show 2: "apart (a + x) 4 (a + o_callers) 40"
    using assms(2) by (auto simp: layout_simps apart_def)
  then show "apart (a + o_callers) 40 (a + x) 4" by (simp add: apart_commute)
qed


lemma trailer_apart_buffer:
  assumes "unat sz \<le> 4294967000" and "0 < unat sz"
  shows "apart a (unat sz) (a + sz) 4" and "apart (a + sz) 4 a (unat sz)"
  using assms apart_offsets [of 0 "unat sz" sz 4 a] by simp_all

text \<open>Loads of header cells past the stores that follow them.\<close>

lemma header_load_other:
  assumes sz: "unat sz \<le> 4294967000" and "y \<in> {o_tag, o_offset, o_size, o_magic}"
  shows "ld32 (st32 m (a + TRXBLK + sz) v) (a + y) = ld32 m (a + y)"
    and "ld32 (bzero m (a + TRXBLK) sz) (a + y) = ld32 m (a + y)"
  by (simp_all add: ld32_st32_apart header_cells_apart [OF sz assms(2) assms(2)]
      touches_ld32 [OF touches_bzero])

lemma header_load_member:
  assumes "x \<in> {o_tag, o_offset, o_size, o_magic}" and "y \<in> {o_tag, o_offset, o_size, o_magic}"
    and "x \<noteq> y"
  shows "ld32 (st32 m (a + x) v) (a + y) = ld32 m (a + y)"
  by (rule ld32_st32_apart) (rule header_cells_apart(1) [OF _ assms, of 0], simp)

lemmas header_loads = header_load_other header_load_member

lemma o_neq:
  "o_tag \<noteq> o_offset" "o_tag \<noteq> o_size" "o_tag \<noteq> o_magic" "o_offset \<noteq> o_size" "o_offset \<noteq> o_magic"
  "o_size \<noteq> o_magic" "o_offset \<noteq> o_tag" "o_size \<noteq> o_tag" "o_magic \<noteq> o_tag" "o_size \<noteq> o_offset"
  "o_magic \<noteq> o_offset" "o_magic \<noteq> o_size"
  by (simp_all add: layout_simps)

lemma write_tracked_cells:
  assumes sz: "unat sz \<le> 4294967000" and m: "m = write_tracked s p (tp + TRXBLK) sz zero"
  shows "ld32 m (tp + o_tag) = alloctag s" and "ld32 m (tp + o_offset) = tp + TRXBLK - p"
    and "ld32 m (tp + o_size) = sz" and "ld32 m (tp + o_magic) = MAGIC2"
    and "ld32 m (tp + TRXBLK + sz) = MAGIC1"
proof -
  define tr where "tr = snd (tp_gettrace (memory s) (frame s)
    (ld_words (memory s) (tp + o_callers) MAXCALLERS) MAXCALLERS)"
  define m1 where "m1 = st_words (memory s) (tp + o_callers) tr"
  define m5 where "m5 = st32 (st32 (st32 (st32 m1 (tp + o_size) sz) (tp + o_magic) MAGIC2)
     (tp + o_offset) (tp + TRXBLK - p)) (tp + o_tag) (alloctag s)"
  have m5: "m = st32 (if zero then bzero m5 (tp + TRXBLK) sz else m5) (tp + TRXBLK + sz) MAGIC1"
    unfolding m m5_def m1_def tr_def write_tracked_def Let_def add_diff_cancel_right' by (rule refl)
  have c: "ld32 m (tp + y) = ld32 m5 (tp + y)" if "y \<in> {o_tag, o_offset, o_size, o_magic}" for y
    unfolding m5 header_load_other(1) [OF sz that]
    by (cases zero) (simp_all only: if_True if_False header_load_other(2) [OF sz that])
  have m: "o_tag \<in> {o_tag, o_offset, o_size, o_magic}" "o_offset \<in> {o_tag, o_offset, o_size, o_magic}"
    "o_size \<in> {o_tag, o_offset, o_size, o_magic}" "o_magic \<in> {o_tag, o_offset, o_size, o_magic}"
    by simp_all
  show "ld32 m (tp + o_tag) = alloctag s" "ld32 m (tp + o_offset) = tp + TRXBLK - p"
    "ld32 m (tp + o_size) = sz" "ld32 m (tp + o_magic) = MAGIC2"
    unfolding c [OF m(1)] c [OF m(2)] c [OF m(3)] c [OF m(4)] m5_def
    by (simp_all only: header_load_member m o_neq ld32_st32_same not_False_eq_True)
  show "ld32 m (tp + TRXBLK + sz) = MAGIC1" by (simp only: m5 ld32_st32_same)
qed

lemma write_untracked_cells:
  assumes sz: "unat sz \<le> 4294967000" and m: "m = write_untracked s p (tp + TRXBLK) sz False"
  shows "ld32 m (tp + o_offset) = tp + TRXBLK - p" and "ld32 m (tp + o_size) = sz"
    and "ld32 m (tp + o_magic) = MAGIC1" and "ld32 m (tp + TRXBLK + sz) = MAGIC1"
  unfolding m write_untracked_def Let_def pw_header if_False
  by (simp_all only: header_load_other [OF sz] header_load_member insert_iff simp_thms o_neq
      ld32_st32_same)


section \<open>Buffers\<close>

text \<open>The user's buffer in its block: apart from every cell the tracker keeps.\<close>

lemma blk_tp_plus [simp]: "blk_tp b + TRXBLK = bptr b"
  by (simp add: blk_tp_def)

lemma in_block_apart:
  assumes "blk_valid at b"
  shows "apart (bptr b) (unat (bsize b)) (pw_offset (bptr b)) 4"
    and "apart (bptr b) (unat (bsize b)) (pw_size (bptr b)) 4"
    and "apart (bptr b) (unat (bsize b)) (pw_magic (bptr b)) 4"
    and "within (bptr b) (unat (bsize b)) (blk_base b) (blk_len b)"
    and "within (pw_magic (bptr b)) 4 (blk_base b) (blk_len b)"
    and "btag b \<noteq> None \<Longrightarrow> within (blk_tp b + o_freers) 16 (blk_base b) (blk_len b)"
proof -
  have sz: "unat (bsize b) \<le> 4294967000" using assms by (simp add: blk_valid_def)
  have h: "apart (bptr b) (unat (bsize b)) (blk_tp b + x) 4" if "x \<in> {o_tag, o_offset, o_size, o_magic}" for x
    using header_cells_apart(5) [OF sz that that, of "blk_tp b"] by simp
  have eq: "pw_offset (bptr b) = blk_tp b + o_offset" "pw_size (bptr b) = blk_tp b + o_size"
    "pw_magic (bptr b) = blk_tp b + o_magic"
    using pw_header [of "blk_tp b"] by simp_all
  show "apart (bptr b) (unat (bsize b)) (pw_offset (bptr b)) 4"
    "apart (bptr b) (unat (bsize b)) (pw_size (bptr b)) 4"
    "apart (bptr b) (unat (bsize b)) (pw_magic (bptr b)) 4"
    unfolding eq by (rule h; simp)+
  show "within (bptr b) (unat (bsize b)) (blk_base b) (blk_len b)"
    "within (pw_magic (bptr b)) 4 (blk_base b) (blk_len b)"
    "btag b \<noteq> None \<Longrightarrow> within (blk_tp b + o_freers) 16 (blk_base b) (blk_len b)"
    by (auto simp: within_def blk_base_def blk_len_def hdr_def blk_tp_def layout_simps pw_magic_def)
qed

lemma buffer_own_apart:
  assumes v: "blk_valid at b" and n: "0 < unat (bsize b)" and c: "c \<in> blk_cells b"
  shows "apart c 4 (bptr b) (unat (bsize b))"
proof -
  have sz: "unat (bsize b) \<le> 4294967000" using v by (simp add: blk_valid_def)
  have low: "apart (blk_tp b + x) 4 (bptr b) (unat (bsize b))" if "unat x \<le> 76" for x
    using apart_offsets(1) [of x 4 TRXBLK "unat (bsize b)" "blk_tp b"] that sz
    by (simp add: TRXBLK_def) (simp add: blk_tp_def TRXBLK_def)
  have "pw_offset (bptr b) = blk_tp b + o_offset" "pw_size (bptr b) = blk_tp b + o_size"
    "pw_magic (bptr b) = blk_tp b + o_magic"
    using pw_header [of "blk_tp b"] by simp_all
  with c show ?thesis
    using low [of 0] low [of 4] low [of o_tag] low [of o_offset] low [of o_size] low [of o_magic]
      trailer_apart_buffer(2) [OF sz n, of "bptr b"]
    by (auto simp: blk_cells_def ok_cells_def link_cells_def le_next_def le_prev_def layout_simps
        split: option.splits if_splits)
qed

lemma buffer_apart:
  assumes l: "layout_ok at B" and b: "b \<in> set B" and n: "0 < unat (bsize b)"
  shows "c \<in> set B \<Longrightarrow> x \<in> blk_cells c \<Longrightarrow> apart x 4 (bptr b) (unat (bsize b))"
    and "x \<in> alist_cells at \<Longrightarrow> apart x 4 (bptr b) (unat (bsize b))"
proof -
  note v = layout_okD(2) [OF l b] and w = in_block_apart(4) [OF layout_okD(2) [OF l b]]
  show "apart x 4 (bptr b) (unat (bsize b))" if "c \<in> set B" "x \<in> blk_cells c"
  proof (cases "c = b")
    case True
    with buffer_own_apart [OF v n] that show ?thesis by simp
  next
    case False
    show ?thesis
      by (rule apart_within [OF layout_okD(3) [OF l that(1) b False]
            blk_cell_within [OF layout_okD(2) [OF l that(1)] that(2)] w]) (use n in simp_all)
  qed
  show "apart x 4 (bptr b) (unat (bsize b))" if "x \<in> alist_cells at"
    by (rule apart_within [OF layout_okD(4) [OF l b] alist_cell_within [OF that] w]) (use n in simp_all)
qed

definition contents :: "mem \<Rightarrow> blk \<Rightarrow> u8 list" where
  "contents m b = mem_read m (bptr b) (unat (bsize b))"

lemma contents_cong:
  assumes "0 < unat (bsize b) \<Longrightarrow> mem_read m' (bptr b) (unat (bsize b)) = mem_read m (bptr b) (unat (bsize b))"
  shows "contents m' b = contents m b"
  using assms by (cases "unat (bsize b) = 0") (simp_all add: contents_def mem_read_def)

lemma tag_frame_contents:
  assumes f: "tag_frame at m m' t L" and l: "layout_ok at L" and t: "unat t < MAXTAGS"
    and b: "b \<in> set L"
  shows "contents m' b = contents m b"
proof (rule contents_cong)
  assume n: "0 < unat (bsize b)"
  have "apart x 4 (bptr b) (unat (bsize b))" if "d \<in> set (tagged t L)" "x \<in> set (link_cells d)" for d x
    by (rule buffer_apart(1) [OF l b n, of d]) (use that in \<open>auto simp: tagged_def blk_cells_def\<close>)
  moreover have "apart x 4 (bptr b) (unat (bsize b))" if "x \<in> {alist_list at t, alist_total at t}" for x
    by (rule buffer_apart(2) [OF l b n]) (use that t in \<open>auto simp: alist_cells_def\<close>)
  ultimately show "mem_read m' (bptr b) (unat (bsize b)) = mem_read m (bptr b) (unat (bsize b))"
    using f by (auto simp: tag_frame_def)
qed

lemma touches_contents:
  assumes "touches m m' p n" and "apart p n (blk_base b) (blk_len b)" and "blk_valid at b" and "0 < n"
  shows "contents m' b = contents m b"
proof (rule contents_cong)
  assume "0 < unat (bsize b)"
  with assms have "apart p n (bptr b) (unat (bsize b))"
    by (intro apart_within [OF assms(2) _ in_block_apart(4) [OF assms(3)]]) (auto simp: within_def)
  with assms(1) show "mem_read m' (bptr b) (unat (bsize b)) = mem_read m (bptr b) (unat (bsize b))"
    by (rule touches_read)
qed

text \<open>The process may write into its buffers: the invariant does not see it.\<close>

lemma user_write_ok:
  assumes i: "mem_ok at m B" and l: "layout_ok at B" and b: "b \<in> set B"
    and t: "touches m m' (bptr b) (unat (bsize b))"
  shows "mem_ok at m' B"
proof (cases "unat (bsize b) = 0")
  case True
  then have "m' = m" using t by (auto simp: touches_def)
  with i show ?thesis by simp
next
  case False
  then have n: "0 < unat (bsize b)" by simp
  have "mem_ok at m' B = mem_ok at m B"
  proof (rule mem_ok_cong)
    show "\<forall>c\<in>set B. \<forall>x\<in>blk_cells c. ld32 m' x = ld32 m x"
      using touches_ld32 [OF t] buffer_apart(1) [OF l b n] by (simp add: apart_commute)
    show "\<forall>x\<in>alist_cells at. ld32 m' x = ld32 m x"
      using touches_ld32 [OF t] buffer_apart(2) [OF l b n] by (simp add: apart_commute)
  qed
  with i show ?thesis by simp
qed

section \<open>Allocation\<close>

text \<open>
  What the tracker relies on from the real allocator: the raw block it returns lies inside the
  address space, away from the allocation lists and from every block in use.
\<close>

definition fresh :: "lib \<Rightarrow> blk list \<Rightarrow> u32 \<Rightarrow> nat \<Rightarrow> bool" where
  "fresh s B p n \<longleftrightarrow>
     p \<noteq> 0 \<and> unat p + n \<le> 4294967296 \<and> apart p n (alist_at s) ALIST_BYTES \<and>
     (\<forall>b\<in>set B. apart p n (blk_base b) (blk_len b))"

text \<open>The block an allocation of \<open>n\<close> bytes makes of the raw block at \<open>p\<close>.\<close>

definition new_blk :: "lib \<Rightarrow> u32 \<Rightarrow> u32 \<Rightarrow> u32 \<Rightarrow> blk" where
  "new_blk s al n p =
     \<lparr>bptr = tp_ph p (tp_overhead s) al, braw = p, bsize = trxAlign n,
      btag = (if tracking s \<noteq> 0 then Some (alloctag s) else None)\<rparr>"

definition raw_size :: "lib \<Rightarrow> u32 \<Rightarrow> u32 \<Rightarrow> u32" where
  "raw_size s al n = tp_size al (tp_overhead s) (trxAlign n)"

text \<open>Requests the rounding does not overflow on, for a power of two alignment.\<close>

definition small_request :: "u32 \<Rightarrow> u32 \<Rightarrow> bool" where
  "small_request al n \<longleftrightarrow> (\<exists>k. 2 \<le> k \<and> k < 31 \<and> al = 2 ^ k) \<and> 2 * unat al + unat n \<le> 4294966800"

lemma small_requestE:
  assumes "small_request al n"
  obtains k where "al = 2 ^ k" "k < 31" "unat (trxAlign n) \<le> unat n + 3"
    "unat (trxAlign n) \<le> 4294967000" "2 * (unat al + 84) + unat (trxAlign n) < 4294967296"
proof -
  from assms have n: "unat n \<le> 4294967292" "2 * unat al + unat n \<le> 4294966800"
    by (auto simp: small_request_def)
  from assms obtain k where k: "al = 2 ^ k" "k < 31" by (auto simp: small_request_def)
  have "unat (trxAlign n) \<le> unat n + 3" by (rule trxAlign_unat) (rule n)
  moreover from this n have "unat (trxAlign n) \<le> 4294967000"
    "2 * (unat al + 84) + unat (trxAlign n) < 4294967296" by arith+
  ultimately show thesis using k by (intro that)
qed

lemma tp_overhead_cases: "tp_overhead s = (if tracking s \<noteq> 0 then 84 else 16)"
  by (simp add: tp_overhead_def TRXBLK_def OFFSET_NWORDS_def)

lemma new_blk_within:
  assumes r: "small_request al n" and p: "unat p + unat (raw_size s al n) \<le> 4294967296"
  shows "within (blk_base (new_blk s al n p)) (blk_len (new_blk s al n p)) p (unat (raw_size s al n))"
    and "unat (hdr (new_blk s al n p)) < unat (bptr (new_blk s al n p))"
    and "unat (raw_size s al n) \<ge> 1"
proof -
  let ?b = "new_blk s al n p"
  from r obtain k where k: "al = 2 ^ k" "k < 31" and sz: "unat (trxAlign n) \<le> 4294967000"
    "2 * (unat al + 84) + unat (trxAlign n) < 4294967296" by (rule small_requestE)
  have ov: "unat (tp_overhead s) \<le> 84" "4 \<le> unat (tp_overhead s)" "unat (hdr ?b) \<le> unat (tp_overhead s)"
    by (simp_all add: tp_overhead_cases hdr_def new_blk_def TRXBLK_def)
  have fit: "2 * (unat al + unat (tp_overhead s)) + unat (trxAlign n) < 4294967296"
    using sz ov by arith
  note w = block_within_raw [OF k fit p [unfolded raw_size_def] ov(3,2)]
  from w(1) show "within (blk_base ?b) (blk_len ?b) p (unat (raw_size s al n))"
    by (simp add: blk_base_def blk_len_def new_blk_def raw_size_def)
  from w(2) show "unat (hdr ?b) < unat (bptr ?b)" by (simp add: new_blk_def)
  show "unat (raw_size s al n) \<ge> 1"
    unfolding raw_size_def tp_size_unat [OF fit] using ov by arith
qed

lemma new_blk_layout:
  assumes l: "layout_ok (alist_at s) B" and r: "small_request al n"
    and f: "fresh s B p (unat (raw_size s al n))"
    and t: "tracking s \<noteq> 0 \<Longrightarrow> unat (alloctag s) < MAXTAGS"
  shows "layout_ok (alist_at s) (new_blk s al n p # B)"
proof -
  let ?b = "new_blk s al n p" and ?n = "unat (raw_size s al n)"
  have p: "unat p + ?n \<le> 4294967296" using f by (simp add: fresh_def)
  note w = new_blk_within [OF r p]
  have self: "within q l q l" for q l by (simp add: within_def)
  have len: "0 < blk_len b" for b by (simp add: blk_len_def)
  have away: "apart (blk_base ?b) (blk_len ?b) (blk_base c) (blk_len c)" if "c \<in> set B" for c
    by (rule apart_within [OF _ w(1) self len len]) (use f that in \<open>simp add: fresh_def\<close>)
  have "apart (blk_base ?b) (blk_len ?b) (alist_at s) ALIST_BYTES"
    by (rule apart_within [OF _ w(1) self len]) (use f in \<open>auto simp: fresh_def ALIST_BYTES_def\<close>)
  moreover have "unat (bsize ?b) \<le> 4294967000"
    using small_requestE [OF r] by (simp add: new_blk_def) blast
  moreover have "bptr ?b \<noteq> 0" using w(2) by auto
  moreover have "blk_tp ?b \<noteq> 0" if "tracking s \<noteq> 0"
    using w(2) that by (auto simp: blk_tp_def hdr_def new_blk_def)
  ultimately have "blk_valid (alist_at s) ?b"
    using t by (auto simp: blk_valid_def apart_commute) (auto simp: new_blk_def)
  moreover have "?b \<notin> set B"
  proof
    assume "?b \<in> set B"
    with away [OF this] len [of ?b] show False by (simp add: apart_def)
  qed
  ultimately show ?thesis
    using l away by (auto simp: layout_ok_def apart_commute)
qed


text \<open>The header and trailer that \<^verbatim>\<open>tp_alloc\<close> writes make the new block, and touch nothing else.\<close>

definition new_header :: "lib \<Rightarrow> u32 \<Rightarrow> u32 \<Rightarrow> u32 \<Rightarrow> bool \<Rightarrow> mem" where
  "new_header s al n p zero =
     (let ph = tp_ph p (tp_overhead s) al in
      if tracking s \<noteq> 0 then write_tracked s p ph (trxAlign n) zero
      else write_untracked s p ph (trxAlign n) zero)"

lemma new_header_ok:
  assumes r: "small_request al n" and z: "zero \<Longrightarrow> tracking s \<noteq> 0"
  shows "blk_ok (new_header s al n p zero) (new_blk s al n p)"
    and "touches (memory s) (new_header s al n p zero)
           (blk_base (new_blk s al n p)) (blk_len (new_blk s al n p))"
proof -
  let ?ph = "tp_ph p (tp_overhead s) al"
  define tp where "tp = ?ph - TRXBLK"
  have ph: "?ph = tp + TRXBLK" by (simp add: tp_def)
  have sz: "unat (trxAlign n) \<le> 4294967000" using small_requestE [OF r] by blast
  show "blk_ok (new_header s al n p zero) (new_blk s al n p)"
  proof (cases "tracking s = 0")
    case True
    with z have z: "\<not> zero" by auto
    note c = write_untracked_cells [OF sz refl, of s p tp]
    show ?thesis using True z c by (simp add: blk_ok_def new_blk_def new_header_def ph pw_header)
  next
    case False
    note c = write_tracked_cells [OF sz refl, of s p tp zero]
    show ?thesis using False c
      by (simp add: blk_ok_def new_blk_def new_header_def ph pw_header blk_tp_def)
  qed
  have len: "blk_len (new_blk s al n p) =
      (if tracking s = 0 then unat (trxAlign n) + 16 else unat (trxAlign n) + 84)"
    by (simp add: blk_len_def new_blk_def hdr_def TRXBLK_def)
  show "touches (memory s) (new_header s al n p zero)
      (blk_base (new_blk s al n p)) (blk_len (new_blk s al n p))"
    unfolding len
    using write_tracked_touches [OF sz, of s p ?ph zero] write_untracked_touches [OF sz, of s p ?ph] z
    by (cases "tracking s = 0"; cases zero)
       (simp_all add: new_header_def new_blk_def blk_base_def hdr_def TRXBLK_def)
qed

lemma new_header_mem:
  assumes i: "heap_inv s B" and r: "small_request al n" and f: "fresh s B p (unat (raw_size s al n))"
    and t: "tracking s \<noteq> 0 \<Longrightarrow> unat (alloctag s) < MAXTAGS" and z: "zero \<Longrightarrow> tracking s \<noteq> 0"
  shows "mem_ok (alist_at s) (new_header s al n p zero) B"
    and "c \<in> set B \<Longrightarrow> contents (new_header s al n p zero) c = contents (memory s) c"
proof -
  let ?b = "new_blk s al n p" and ?at = "alist_at s"
  have i': "layout_ok ?at B" "mem_ok ?at (memory s) B" using i by (simp_all add: heap_inv_def)
  have l: "layout_ok ?at (?b # B)" by (rule new_blk_layout [OF i'(1) r f t])
  note h = new_header_ok(2) [where s = s and p = p, OF r z]
  have away: "apart (blk_base ?b) (blk_len ?b) (blk_base d) (blk_len d)" if "d \<in> set B" for d
    using l that by (auto simp: layout_ok_def)
  have "apart (blk_base ?b) (blk_len ?b) ?at ALIST_BYTES"
    using layout_okD(4) [OF l, of ?b] by (simp add: apart_commute)
  then show "mem_ok ?at (new_header s al n p zero) B"
    using mem_ok_touches [OF i'(1) h blk_len_pos] away i'(2) by simp
  show "contents (new_header s al n p zero) c = contents (memory s) c" if "c \<in> set B"
    using touches_contents [OF h away [OF that] layout_okD(2) [OF i'(1) that] blk_len_pos] by simp
qed

definition alloc_mem :: "lib \<Rightarrow> u32 \<Rightarrow> u32 \<Rightarrow> u32 \<Rightarrow> bool \<Rightarrow> mem" where
  "alloc_mem s al n p zero =
     (let m = new_header s al n p zero; t = alloctag s in
      if tracking s \<noteq> 0 then
        add32 (LIST_INSERT_HEAD m (alist_list (alist_at s) t) (blk_tp (new_blk s al n p)) 0)
          (alist_total (alist_at s) t) (trxAlign n)
      else m)"

definition alloc_post :: "lib \<Rightarrow> u32 \<Rightarrow> u32 \<Rightarrow> u32 \<Rightarrow> bool \<Rightarrow> u32 list \<Rightarrow> lib" where
  "alloc_post s al n p zero ps =
     s\<lparr>calls := calls s @ [RMalloc (raw_size s al n)], answers := ps,
       memory := alloc_mem s al n p zero, curalloc := curalloc s + trxAlign n\<rparr>"

lemma tp_alloc_post:
  assumes "initted s \<noteq> 0" and "answers s = p # ps" and "p \<noteq> 0"
    and "tracking s \<noteq> 0 \<Longrightarrow> unat (alloctag s) < MAXTAGS"
    and "al = (if al0 = 0 then 4 else al0)"
  shows "tp_alloc n zero al0 s = Inr (bptr (new_blk s al n p), alloc_post s al n p zero ps)"
  using assms
  by (cases "tracking s = 0")
     (simp_all add: tp_alloc_def Let_def real_alloc_def raw_size_def alloc_post_def alloc_mem_def
      new_header_def new_blk_def blk_tp_def write_tracked_def write_untracked_def)

lemma alloc_post_inv:
  assumes i: "heap_inv s B" and r: "small_request al n" and f: "fresh s B p (unat (raw_size s al n))"
    and t: "tracking s \<noteq> 0 \<Longrightarrow> unat (alloctag s) < MAXTAGS" and z: "zero \<Longrightarrow> tracking s \<noteq> 0"
  shows "heap_inv (alloc_post s al n p zero ps) (new_blk s al n p # B)"
proof -
  let ?b = "new_blk s al n p" and ?at = "alist_at s" and ?m = "new_header s al n p zero"
  have i': "layout_ok ?at B" "mem_ok ?at (memory s) B" using i by (simp_all add: heap_inv_def)
  have l: "layout_ok ?at (?b # B)" by (rule new_blk_layout [OF i'(1) r f t])
  note h = new_header_ok [where s = s and p = p, OF r z]
  have m: "mem_ok ?at ?m B" by (rule new_header_mem(1) [OF i r f t z])
  have "mem_ok ?at (alloc_mem s al n p zero) (?b # B)"
  proof (cases "tracking s = 0")
    case True
    with m h(1) show ?thesis by (simp add: alloc_mem_def mem_ok_def tagged_Cons new_blk_def)
  next
    case False
    then have tg: "btag ?b = Some (alloctag s)" and sz: "bsize ?b = trxAlign n"
      by (simp_all add: new_blk_def)
    have "blk_tp ?b \<noteq> 0" using layout_okD(2) [OF l, of ?b] tg by (simp add: blk_valid_def)
    from link_block(1) [OF l m h(1) tg t [OF False] this] False sz show ?thesis
      by (simp add: alloc_mem_def Let_def)
  qed
  then show ?thesis
    using i l by (simp add: heap_inv_def alloc_post_def) (simp add: new_blk_def add.commute)
qed


text \<open>The other blocks keep their contents.\<close>

lemma alloc_post_contents:
  assumes i: "heap_inv s B" and r: "small_request al n" and f: "fresh s B p (unat (raw_size s al n))"
    and t: "tracking s \<noteq> 0 \<Longrightarrow> unat (alloctag s) < MAXTAGS" and z: "zero \<Longrightarrow> tracking s \<noteq> 0"
    and c: "c \<in> set B"
  shows "contents (memory (alloc_post s al n p zero ps)) c = contents (memory s) c"
proof -
  let ?b = "new_blk s al n p" and ?at = "alist_at s" and ?m = "new_header s al n p zero"
  have i': "layout_ok ?at B" "mem_ok ?at (memory s) B" using i by (simp_all add: heap_inv_def)
  have l: "layout_ok ?at (?b # B)" by (rule new_blk_layout [OF i'(1) r f t])
  note h = new_header_ok [where s = s and p = p, OF r z]
  have hc: "contents ?m c = contents (memory s) c" by (rule new_header_mem(2) [OF i r f t z c])
  have "contents (alloc_mem s al n p zero) c = contents ?m c"
  proof (cases "tracking s = 0")
    case True
    then show ?thesis by (simp add: alloc_mem_def)
  next
    case False
    then have tg: "btag ?b = Some (alloctag s)" and sz: "bsize ?b = trxAlign n"
      by (simp_all add: new_blk_def)
    have nz: "blk_tp ?b \<noteq> 0" using layout_okD(2) [OF l, of ?b] tg by (simp add: blk_valid_def)
    have m: "mem_ok ?at ?m B" by (rule new_header_mem(1) [OF i r f t z])
    show ?thesis
      using tag_frame_contents [OF link_block(2) [OF l m h(1) tg t [OF False] nz] l t [OF False], of c]
        c False sz by (simp add: alloc_mem_def Let_def)
  qed
  with hc show ?thesis by (simp add: alloc_post_def)
qed

section \<open>Release\<close>

lemma verify_ok: "blk_ok m b \<Longrightarrow> verify s m (bptr b) = Inr ()"
  by (cases "btag b = None") (simp_all add: verify_def blk_ok_def Let_def)

lemma verify_neighbours_ok:
  assumes m: "mem_ok (alist_at s) m B" and b: "b \<in> set B" and t: "btag b = Some t" "unat t < MAXTAGS"
  shows "verify_neighbours s m (blk_tp b) = Inr ()"
proof -
  let ?h = "alist_list (alist_at s) t"
  have "b \<in> set (tagged t B)" using b t by (simp add: tagged_def)
  then obtain as bs where tg: "tagged t B = as @ b # bs" by (auto simp: in_set_conv_decomp)
  have "dlist m 0 ?h (map blk_tp (tagged t B))" using m t by (simp add: mem_ok_def)
  then have dl: "dlist m 0 ?h (map blk_tp as @ blk_tp b # map blk_tp bs)" by (simp add: tg)
  have ok: "verify s m (blk_tp d + TRXBLK) = Inr ()" if "d \<in> set (tagged t B)" for d
    unfolding blk_tp_plus by (rule verify_ok) (use that m in \<open>auto simp: mem_ok_def tagged_def\<close>)
  have "LIST_PREV m (blk_tp b) 0 = blk_tp b" by (rule LIST_PREV_self [OF dl]) simp
  moreover have "LIST_NEXT m (blk_tp b) 0 = (case bs of [] \<Rightarrow> 0 | d # _ \<Rightarrow> blk_tp d)"
    unfolding LIST_NEXT_dlist [OF dl] by (cases bs) simp_all
  ultimately show ?thesis
    using ok [of b] ok [of "hd bs"] tg by (cases bs) (simp_all add: verify_neighbours_def)
qed

lemma poison_loop_touches:
  "touches m (poison_loop m pp pend pat) pp (unat (pend - pp))"
proof (induction m pp pend pat rule: poison_loop.induct)
  case (1 m pp pend pat)
  show ?case
  proof (cases "pp < pend \<and> pat \<noteq> []")
    case False
    then show ?thesis
      by (simp only: poison_loop.simps [of m pp pend pat] False if_False touches_refl)
  next
    case True
    let ?d = "unat (pend - pp)"
    define pat' where "pat' = (if ?d < length pat then take ?d pat else pat)"
    have le: "length pat' \<le> ?d" by (simp add: pat'_def)
    have "pend - (pp + of_nat (length pat')) = (pend - pp) - of_nat (length pat')" by simp
    then have d: "unat (pend - (pp + of_nat (length pat'))) = ?d - length pat'"
      by (simp only: unat_minus_of_nat [OF le])
    have u: "unat (of_nat (length pat') :: u32) = length pat'"
      using le by (intro unat_of_nat32) (rule order_le_less_trans [OF _ unat_bound32])
    have "touches m (mem_write m pp pat') pp ?d"
      by (rule touches_within [OF touches_write]) (use le in \<open>simp add: within_def\<close>)
    moreover have "touches (mem_write m pp pat')
        (poison_loop (mem_write m pp pat') (pp + of_nat (length pat')) pend pat') pp ?d"
      by (rule touches_within [OF "1.IH" [OF True pat'_def]])
         (use le d u in \<open>simp add: within_def\<close>)
    ultimately show ?thesis
      using True by (simp add: poison_loop.simps [of m] pat'_def [symmetric] Let_def touches_trans)
  qed
qed


lemma freers_apart:
  assumes v: "blk_valid at b" and t: "btag b \<noteq> None" and c: "c \<in> set (ok_cells b)"
  shows "apart (blk_tp b + o_freers) 16 c 4"
proof -
  have u: "unat (TRXBLK + bsize b) = unat (bsize b) + 80"
    using v unat_add_small [of "bsize b" 80] by (simp add: blk_valid_def TRXBLK_def)
  have eq: "bptr b + bsize b = blk_tp b + (TRXBLK + bsize b)" by (simp add: blk_tp_def)
  have "apart (blk_tp b + o_freers) 16 (bptr b + bsize b) 4"
    unfolding eq by (rule apart_offsets(1)) (use u v in \<open>simp_all add: blk_valid_def o_freers_def\<close>)
  moreover have "apart (blk_tp b + o_freers) 16 (blk_tp b + x) 4"
    if "x \<in> {o_tag, o_offset, o_size, o_magic}" for x
    using that by (auto simp: apart_def layout_simps)
  moreover have "pw_offset (bptr b) = blk_tp b + o_offset" "pw_size (bptr b) = blk_tp b + o_size"
    "pw_magic (bptr b) = blk_tp b + o_magic"
    using pw_header [of "blk_tp b"] by simp_all
  ultimately show ?thesis using c t by (auto simp: ok_cells_def)
qed

lemma freers_buffer_apart:
  assumes "blk_valid at b"
  shows "apart (blk_tp b + o_freers) 16 (bptr b) (unat (bsize b))"
  using apart_offsets(1) [of o_freers 16 TRXBLK "unat (bsize b)" "blk_tp b"] assms
  by (simp add: blk_valid_def o_freers_def TRXBLK_def) (simp add: blk_tp_def TRXBLK_def)

text \<open>After the unlinking: the memory without the block, whose words are still in place.\<close>

lemma free_unlink_ok:
  assumes i: "heap_inv s B" and b: "b \<in> set B"
  obtains m pat where "free_unlink (bptr b) s = Inr (m, curalloc s - bsize b, pat)"
    and "mem_ok (alist_at s) m (remove1 b B)" and "blk_ok m b" and "pat \<noteq> [] \<and> length pat \<le> 16"
    and "\<forall>c\<in>set (remove1 b B). contents m c = contents (memory s) c"
    and "contents m b = contents (memory s) b"
proof -
  let ?at = "alist_at s" and ?m = "memory s"
  have l: "layout_ok ?at B" and m: "mem_ok ?at ?m B" and bo: "blk_ok ?m b" and v: "blk_valid ?at b"
    using i b by (auto simp: heap_inv_def mem_ok_def layout_ok_def)
  show thesis
  proof (cases "btag b")
    case None
    have "tagged t (remove1 b B) = tagged t B" for t
      unfolding tagged_remove1 by (rule remove1_idem) (simp add: tagged_def None)
    then have "mem_ok ?at ?m (remove1 b B)"
      using m by (auto simp: mem_ok_def dest: notin_set_remove1)
    with None bo show thesis
      by (intro that [of ?m "bytes32 (- 1)"])
         (simp_all add: free_unlink_def free_pattern_def blk_ok_def bytes32_def)
  next
    case (Some t)
    then have t: "unat t < MAXTAGS" using v by (simp add: blk_valid_def)
    let ?m2 = "LIST_REMOVE (add32 ?m (alist_total ?at t) (- bsize b)) (blk_tp b) 0"
    obtain n fr where tr: "tp_gettrace ?m2 (frame s) (ld_words ?m2 (blk_tp b + o_freers) MAXFREERS)
        MAXFREERS = (n, fr)" by fastforce
    have n: "n \<le> MAXFREERS" "length fr = MAXFREERS" using tp_gettrace_bounds [OF tr] by simp_all
    let ?m3 = "st_words ?m2 (blk_tp b + o_freers) fr"
    note u = unlink_block [OF l m b Some t]
    have ls: "layout_ok ?at (remove1 b B)" using l by (rule layout_ok_remove1)
    have b2: "blk_ok ?m2 b"
      using blk_ok_cong [of b ?m2 ?m] tag_frame_blocks(1) [OF u(2) l t b] bo by simp
    have tch: "touches ?m2 ?m3 (blk_tp b + o_freers) 16"
      using touches_write [of ?m2 "blk_tp b + o_freers" "concat (map bytes32 fr)"] n
      by (simp add: st_words_def MAXFREERS_def)
    have "blk_ok ?m3 b"
    proof (subst blk_ok_cong)
      show "\<forall>c\<in>set (ok_cells b). ld32 ?m3 c = ld32 ?m2 c"
        using touches_ld32 [OF tch freers_apart [OF v]] Some by simp
    qed (rule b2)
    moreover have "mem_ok ?at ?m3 (remove1 b B)"
    proof (subst mem_ok_touches [OF ls touches_within [OF tch in_block_apart(6) [OF v]]])
      show "\<forall>c\<in>set (remove1 b B). apart (blk_base b) (blk_len b) (blk_base c) (blk_len c)"
        using l b by (auto simp: layout_ok_def dest: notin_set_remove1)
      show "apart (blk_base b) (blk_len b) ?at ALIST_BYTES"
        using v by (simp add: blk_valid_def apart_commute)
    qed (use Some u(1) in \<open>simp_all add: blk_len_def\<close>)
    moreover note that
    moreover have "free_unlink (bptr b) s = Inr (?m3, curalloc s - bsize b, free_pattern n fr)"
      using Some bo t tr verify_neighbours_ok [OF m b Some t]
      by (simp add: free_unlink_def blk_ok_def Let_def blk_tp_def [symmetric])
    moreover have "free_pattern n fr \<noteq> [] \<and> length (free_pattern n fr) \<le> 16"
      using n by (auto simp: free_pattern_def MAXFREERS_def bytes32_def)
    moreover have "\<forall>c\<in>set (remove1 b B). contents ?m3 c = contents ?m c"
    proof
      fix c assume "c \<in> set (remove1 b B)"
      then have c: "c \<in> set B" "c \<noteq> b" using l by (auto simp: layout_ok_def)
      have "contents ?m3 c = contents ?m2 c"
        by (rule touches_contents [OF touches_within [OF tch in_block_apart(6) [OF v]]])
           (use Some layout_okD(2,3) [OF l] b c in \<open>auto simp: blk_len_def\<close>)
      then show "contents ?m3 c = contents ?m c"
        using tag_frame_contents [OF u(2) l t c(1)] by simp
    qed
    moreover have "contents ?m3 b = contents ?m b"
      using contents_cong [OF touches_read [OF tch freers_buffer_apart [OF v]]]
        tag_frame_contents [OF u(2) l t b] by simp
    ultimately show thesis by blast
  qed
qed


definition freed_magic :: "blk \<Rightarrow> u32" where
  "freed_magic b = (if btag b = None then MAGIC1 + 1 else MAGIC2 + 1)"

text \<open>The diagnoses of \<^verbatim>\<open>verify\<close>: a released block, and a trailer that was overwritten.\<close>

lemma verify_freed:
  assumes "ld32 m (pw_magic (bptr b)) = freed_magic b"
  shows "verify s m (bptr b) = Inl CoreDoubleFree"
  using assms by (auto simp: verify_def freed_magic_def MAGIC1_def MAGIC2_def)

lemma verify_overflow:
  assumes bo: "blk_ok m b" and v: "blk_valid at b" and "validate s \<noteq> 0"
    and t: "touches m m' (bptr b + bsize b) 4" and "ld32 m' (bptr b + bsize b) \<noteq> MAGIC1"
  shows "verify s m' (bptr b) = Inl CoreOverflow"
proof -
  have sz: "unat (bsize b) \<le> 4294967000" using v by (simp add: blk_valid_def)
  have ap: "apart (bptr b + bsize b) 4 (blk_tp b + x) 4" if "x \<in> {o_tag, o_offset, o_size, o_magic}" for x
    using header_cells_apart(3) [OF sz that that, of "blk_tp b"] by simp
  have "pw_size (bptr b) = blk_tp b + o_size" "pw_magic (bptr b) = blk_tp b + o_magic"
    using pw_header [of "blk_tp b"] by simp_all
  then have "ld32 m' (pw_size (bptr b)) = bsize b" "ld32 m' (pw_magic (bptr b)) \<in> {MAGIC1, MAGIC2}"
    using touches_ld32 [OF t ap] bo by (simp_all add: blk_ok_def)
  then show ?thesis using assms(3,5) by (auto simp: verify_def)
qed

definition free_post :: "lib \<Rightarrow> blk \<Rightarrow> mem \<Rightarrow> lib" where
  "free_post s b m = real_free (braw b) (s\<lparr>memory := m, curalloc := curalloc s - bsize b\<rparr>)"

lemma free_post_simps [simp]:
  "memory (free_post s b m) = m" "calls (free_post s b m) = calls s @ [RFree (braw b)]"
  "enable (free_post s b m) = enable s" "initted (free_post s b m) = initted s"
  "curalloc (free_post s b m) = curalloc s - bsize b" "alist_at (free_post s b m) = alist_at s"
  "ininit (free_post s b m) = ininit s" "tracking (free_post s b m) = tracking s"
  "answers (free_post s b m) = answers s" "alloctag (free_post s b m) = alloctag s"
  by (simp_all add: free_post_def real_free_def)

definition poisoned :: "lib \<Rightarrow> blk \<Rightarrow> mem \<Rightarrow> bool" where
  "poisoned s b m \<longleftrightarrow>
     (\<exists>m1 m2 cur pat. free_unlink (bptr b) s = Inr (m1, cur, pat) \<and>
        m = (if poison s \<noteq> 0 then poison_loop m2 (bptr b) (bptr b + bsize b) pat else m2))"

lemma trx_free_ok:
  assumes i: "heap_inv s B" and b: "b \<in> set B" and e: "enable s \<noteq> 0"
  obtains m where "trx_free (bptr b) s = Inr (free_post s b m)"
    and "heap_inv (free_post s b m) (remove1 b B)" and "ld32 m (pw_magic (bptr b)) = freed_magic b"
    and "\<forall>c\<in>set (remove1 b B). contents m c = contents (memory s) c"
    and "poisoned s b m" and "poison s = 0 \<Longrightarrow> contents m b = contents (memory s) b"
proof -
  let ?at = "alist_at s"
  have l: "layout_ok ?at B" and m: "mem_ok ?at (memory s) B" and bo: "blk_ok (memory s) b"
    and v: "blk_valid ?at b"
    using i b by (auto simp: heap_inv_def mem_ok_def layout_ok_def)
  obtain m1 pat where u: "free_unlink (bptr b) s = Inr (m1, curalloc s - bsize b, pat)"
    and m1: "mem_ok ?at m1 (remove1 b B)" "blk_ok m1 b"
    and k1: "\<forall>c\<in>set (remove1 b B). contents m1 c = contents (memory s) c"
    and kb: "contents m1 b = contents (memory s) b"
    using free_unlink_ok [OF i b] by blast
  define m2 where "m2 = st32 m1 (pw_magic (bptr b)) (ld32 m1 (pw_magic (bptr b)) OR 1)"
  define m3 where "m3 = (if poison s \<noteq> 0
     then poison_loop m2 (bptr b) (bptr b + ld32 m2 (pw_size (bptr b))) pat else m2)"
  have w2: "ld32 m2 (pw_size (bptr b)) = bsize b" "ld32 m2 (pw_offset (bptr b)) = bptr b - braw b"
    "ld32 m2 (pw_magic (bptr b)) = freed_magic b"
    using m1(2) by (simp_all add: m2_def blk_ok_def freed_magic_def ld32_st32_apart apart_def
        pw_magic_def pw_size_def pw_offset_def)
  have p3: "touches m2 m3 (bptr b) (unat (bsize b))"
    using poison_loop_touches [of m2 "bptr b" "bptr b + bsize b" pat] by (simp add: m3_def w2)
  have w3: "ld32 m3 (pw_offset (bptr b)) = bptr b - braw b" "ld32 m3 (pw_magic (bptr b)) = freed_magic b"
    using w2 touches_ld32 [OF p3] in_block_apart [OF v] by simp_all
  have "touches m1 m3 (blk_base b) (blk_len b)"
    using touches_within [OF touches_st32 in_block_apart(5) [OF v]] touches_within [OF p3 in_block_apart(4) [OF v]]
    unfolding m2_def by (rule touches_trans)
  note tch = this
  have "mem_ok ?at m3 (remove1 b B)"
  proof (subst mem_ok_touches [OF layout_ok_remove1 [OF l] tch])
    show "\<forall>c\<in>set (remove1 b B). apart (blk_base b) (blk_len b) (blk_base c) (blk_len c)"
      using l b by (auto simp: layout_ok_def dest: notin_set_remove1)
    show "apart (blk_base b) (blk_len b) ?at ALIST_BYTES"
      using v by (simp add: blk_valid_def apart_commute)
  qed (simp_all add: blk_len_def m1)
  then have "heap_inv (free_post s b m3) (remove1 b B)"
    using i b layout_ok_remove1 [OF l, of b] sum_list_map_remove1_word [of b B]
    by (simp add: heap_inv_def)
  moreover have "trx_free (bptr b) s = Inr (free_post s b m3)"
  proof -
    have "initted s \<noteq> 0" "bptr b \<noteq> 0" using i v by (simp_all add: heap_inv_def blk_valid_def)
    moreover have "bptr b - ld32 m3 (pw_offset (bptr b)) = braw b" by (simp add: w3)
    ultimately show ?thesis
      using e verify_ok [OF bo, of s] u
      by (simp add: trx_free_def Let_def m2_def [symmetric] free_post_def m3_def split: if_splits)
  qed
  moreover have "\<forall>c\<in>set (remove1 b B). contents m3 c = contents (memory s) c"
  proof
    fix c assume c: "c \<in> set (remove1 b B)"
    then have "c \<in> set B" "c \<noteq> b" using l by (auto simp: layout_ok_def)
    then have "contents m3 c = contents m1 c"
      by (intro touches_contents [OF tch]) (use layout_okD(2,3) [OF l] b in \<open>auto simp: blk_len_def\<close>)
    with k1 c show "contents m3 c = contents (memory s) c" by simp
  qed
  moreover have "poisoned s b m3" unfolding poisoned_def m3_def w2(1) using u by blast
  moreover have "contents m3 b = contents (memory s) b" if "poison s = 0"
  proof -
    have "contents m2 b = contents m1 b"
      unfolding m2_def using in_block_apart(3) [OF v]
      by (intro contents_cong mem_read_st32_apart) (simp add: apart_commute)
    with kb that show ?thesis by (simp add: m3_def)
  qed
  ultimately show thesis using w3 by (intro that)
qed


text \<open>What the poison loop leaves: copies of the pattern over the whole buffer.\<close>

lemma poison_loop_bytes:
  assumes "pp \<le> pend" and "pat \<noteq> []" and "i < unat (pend - pp)"
  shows "poison_loop m pp pend pat (pp + of_nat i) = pat ! (i mod length pat)"
  using assms
proof (induction m pp pend pat arbitrary: i rule: poison_loop.induct)
  case (1 m pp pend pat)
  let ?d = "unat (pend - pp)"
  have d: "?d = unat pend - unat pp" "unat pp \<le> unat pend"
    using "1.prems"(1) by (simp_all add: unat_sub word_le_nat_alt)
  then have lt: "pp < pend \<and> pat \<noteq> []" using "1.prems" by (auto simp: word_less_nat_alt)
  define pat' where "pat' = (if ?d < length pat then take ?d pat else pat)"
  let ?l = "length pat'"
  have l: "?l \<le> ?d" "0 < ?l" using "1.prems" lt by (auto simp: pat'_def)
  have ul: "unat (of_nat ?l :: u32) = ?l"
    using l by (intro unat_of_nat32) (rule order_le_less_trans [OF _ unat_bound32])
  have ui: "unat (of_nat i :: u32) = i"
    using "1.prems"(3) by (intro unat_of_nat32) (rule order_less_trans [OF _ unat_bound32])
  let ?m = "mem_write m pp pat'" and ?pp = "pp + of_nat ?l"
  have upp: "unat ?pp = unat pp + ?l"
    using l d ul unat_bound32 [of pend] by (subst unat_plus_le) linarith+
  have eq: "poison_loop m pp pend pat = poison_loop ?m ?pp pend pat'"
    using lt by (simp add: poison_loop.simps [of m] pat'_def [symmetric] Let_def)
  have d': "unat (pend - ?pp) = ?d - ?l" and le': "?pp \<le> pend"
    using l d upp by (simp_all add: unat_sub word_le_nat_alt)
  show ?case
  proof (cases "i < ?l")
    case True
    have "?l - i \<le> 4294967296 - (?d - ?l)" using l d unat_bound32 [of pend] True by linarith
    moreover have "unat (pp + of_nat i - ?pp) = 4294967296 - (?l - i)"
    proof -
      have ne: "pp + of_nat i \<noteq> ?pp" using True ul ui by auto
      have "?pp - (pp + of_nat i) = of_nat (?l - i)" using True by simp
      moreover have "unat (of_nat (?l - i) :: u32) = ?l - i"
        using ul by (intro unat_of_nat32) (use unat_bound32 [of "of_nat ?l"] in linarith)
      ultimately have "unat (?pp - (pp + of_nat i)) = ?l - i" by simp
      with unat_diff_add [OF ne] show ?thesis by simp
    qed
    ultimately have "?d - ?l \<le> unat (pp + of_nat i - ?pp)" using True by linarith
    then have "poison_loop ?m ?pp pend pat' (pp + of_nat i) = ?m (pp + of_nat i)"
      using poison_loop_touches [of ?m ?pp pend pat'] d' by (simp add: touches_def)
    also have "\<dots> = pat' ! i" using True ui by (simp add: mem_write_def)
    also have "\<dots> = pat ! (i mod length pat)" using True by (auto simp: pat'_def split: if_splits)
    finally show ?thesis by (simp add: eq)
  next
    case False
    then have pat: "pat' = pat" using "1.prems"(3) by (auto simp: pat'_def split: if_splits)
    let ?j = "i - length pat"
    have "poison_loop ?m ?pp pend pat' (?pp + of_nat ?j) = pat' ! (?j mod length pat')"
      using "1.IH" [OF lt pat'_def le', of ?j] "1.prems" d' False l pat by simp
    moreover have "?pp + of_nat ?j = pp + of_nat i" using False pat by simp
    moreover have "?j mod length pat = i mod length pat" using False pat by (simp add: le_mod_geq)
    ultimately show ?thesis unfolding eq pat by metis
  qed
qed

lemma mem_read_bzero_within:
  assumes "within c k a (unat n)"
  shows "mem_read (bzero m a n) c k = replicate k 0"
proof (rule nth_equalityI)
  show "length (mem_read (bzero m a n) c k) = length (replicate k (0 :: u8))" by simp
  fix i assume "i < length (mem_read (bzero m a n) c k)"
  then have i: "i < k" by simp
  have lt: "unat (c - a) + i < unat n" using assms i by (simp add: within_def)
  then have i32: "unat (of_nat i :: u32) = i"
    by (intro unat_of_nat32) (use unat_bound32 [of n] in linarith)
  have "unat ((c - a) + of_nat i) = unat (c - a) + i"
    using lt i32 unat_bound32 [of n] by (subst unat_plus_le) linarith+
  moreover have "c + of_nat i - a = (c - a) + of_nat i" by simp
  ultimately have "unat (c + of_nat i - a) < unat n" using lt by metis
  with i show "mem_read (bzero m a n) c k ! i = replicate k 0 ! i"
    by (simp add: mem_read_def bzero_def word_less_nat_alt)
qed

end
