(* ===== verification/Trx_Tracker.thy ===== *)
theory Trx_Tracker imports Trx_HeapOps
begin

text \<open>
  The tracker as a state machine. A state is the library's state with the list of live blocks; a
  step is a call of one of the overloads, a write of the process into one of its buffers, or a
  command of the manager that changes a setting. The invariant \<open>heap_inv\<close> holds in every
  reachable state, whatever the order of the calls and of the changes of settings, and from it
  follow the guarantees of the tracker: live blocks are released without a false alarm, double
  frees and overflows are caught, and the totals it reports are the sizes in use.
\<close>

section \<open>Single calls\<close>

text \<open>The contract of the real allocator, and the requests the arithmetic is right for.\<close>

definition good_answer :: "lib \<Rightarrow> blk list \<Rightarrow> u32 \<Rightarrow> u32 \<Rightarrow> bool" where
  "good_answer s B al n \<longleftrightarrow>
     (case answers s of [] \<Rightarrow> True | p # _ \<Rightarrow> p = 0 \<or> fresh s B p (unat (raw_size s al n)))"

definition good_request :: "lib \<Rightarrow> u32 \<Rightarrow> u32 \<Rightarrow> bool" where
  "good_request s al n \<longleftrightarrow>
     small_request al n \<and> (tracking s \<noteq> 0 \<longrightarrow> unat (alloctag s) < MAXTAGS)"

definition alloc_blocks :: "lib \<Rightarrow> blk list \<Rightarrow> u32 \<Rightarrow> u32 \<Rightarrow> blk list" where
  "alloc_blocks s B al n =
     (case answers s of [] \<Rightarrow> B | p # _ \<Rightarrow> if p = 0 then B else new_blk s al n p # B)"

lemma heap_inv_same:
  assumes "initted s' = initted s" "alist_at s' = alist_at s" "memory s' = memory s"
    "curalloc s' = curalloc s"
  shows "heap_inv s' B = heap_inv s B"
  using assms by (simp add: heap_inv_def)

lemma tp_alloc_cases:
  assumes i: "heap_inv s B" and g: "good_answer s B al n" "good_request s al n"
    and z: "zero \<longrightarrow> tracking s \<noteq> 0" and al: "al = (if al0 = 0 then 4 else al0)"
  obtains (fail) s' where "tp_alloc n zero al0 s = Inr (0, s')" and "alloc_blocks s B al n = B"
      and "heap_inv s' B" and "memory s' = memory s"
    | (ok) p ps where "tp_alloc n zero al0 s = Inr (bptr (new_blk s al n p), alloc_post s al n p zero ps)"
      and "alloc_blocks s B al n = new_blk s al n p # B" and "answers s = p # ps"
      and "fresh s B p (unat (raw_size s al n))"
      and "heap_inv (alloc_post s al n p zero ps) (new_blk s al n p # B)"
proof -
  have init: "initted s \<noteq> 0" using i by (simp add: heap_inv_def)
  have z': "zero \<Longrightarrow> tracking s \<noteq> 0" using z by simp
  have t: "tracking s \<noteq> 0 \<Longrightarrow> unat (alloctag s) < MAXTAGS" and r: "small_request al n"
    using g by (simp_all add: good_request_def)
  let ?s = "snd (real_alloc (RMalloc (raw_size s al n)) s)"
  have failing: thesis if a: "answers s = [] \<or> hd (answers s) = 0"
  proof (rule fail)
    show "tp_alloc n zero al0 s = Inr (0, ?s)"
      using init a al by (cases "answers s") (simp_all add: tp_alloc_def Let_def real_alloc_def raw_size_def)
    show "alloc_blocks s B al n = B" using a by (cases "answers s") (simp_all add: alloc_blocks_def)
    show "heap_inv ?s B" "memory ?s = memory s"
      using i by (auto simp: real_alloc_def heap_inv_def split: list.splits)
  qed
  show thesis
  proof (cases "answers s = [] \<or> hd (answers s) = 0")
    case True
    then show thesis by (rule failing)
  next
    case False
    then obtain p ps where p: "answers s = p # ps" "p \<noteq> 0" by (cases "answers s") auto
    then have f: "fresh s B p (unat (raw_size s al n))" using g by (simp add: good_answer_def)
    show thesis
      by (rule ok [OF tp_alloc_post [OF init p t al] _ p(1) f alloc_post_inv [OF i r f t z']])
         (use p in \<open>simp_all add: alloc_blocks_def\<close>)
  qed
qed


lemma mem_read_take: "k \<le> n \<Longrightarrow> take k (mem_read m a n) = mem_read m a k"
  by (simp add: mem_read_def take_map)

lemma alloc_post_simps [simp]:
  "enable (alloc_post s al n p zero ps) = enable s" "initted (alloc_post s al n p zero ps) = initted s"
  "alist_at (alloc_post s al n p zero ps) = alist_at s" "answers (alloc_post s al n p zero ps) = ps"
  "curalloc (alloc_post s al n p zero ps) = curalloc s + trxAlign n"
  by (simp_all add: alloc_post_def)

lemma small_request_align: "small_request al n \<Longrightarrow> unat n \<le> unat (trxAlign n)"
  by (auto simp: small_request_def intro: trxAlign_unat(1))

text \<open>The copy of \<^verbatim>\<open>realloc\<close>: the old block is still live, and only the new buffer changes.\<close>

lemma realloc_copy:
  assumes i: "heap_inv s (nb # B)" and c: "b \<in> set B" and k: "unat k \<le> unat (bsize nb)"
    and ne: "nb \<noteq> b"
  shows "heap_inv (s\<lparr>memory := memmove (memory s) (bptr nb) (bptr b) k\<rparr>) (nb # B)"
    and "mem_read (memmove (memory s) (bptr nb) (bptr b) k) (bptr nb) (unat k) =
         mem_read (memory s) (bptr b) (unat k)"
proof -
  have "touches (memory s) (memmove (memory s) (bptr nb) (bptr b) k) (bptr nb) (unat (bsize nb))"
    by (rule touches_within [OF touches_memmove]) (use k in \<open>simp add: within_def\<close>)
  then show "heap_inv (s\<lparr>memory := memmove (memory s) (bptr nb) (bptr b) k\<rparr>) (nb # B)"
    using user_write_ok [of "alist_at s" "memory s" "nb # B" nb] i by (simp add: heap_inv_def)
  show "mem_read (memmove (memory s) (bptr nb) (bptr b) k) (bptr nb) (unat k) =
      mem_read (memory s) (bptr b) (unat k)"
    by (rule mem_read_memmove_same) simp
qed

lemma trx_realloc_ok:
  assumes i: "heap_inv s B" and b: "b \<in> set B" and e: "enable s \<noteq> 0" and n: "n \<noteq> 0"
    and g: "good_answer s B 4 n" "good_request s 4 n"
  obtains (fail) s' where "trx_realloc (bptr b) n s = Inr (0, s')" and "heap_inv s' B"
      and "memory s' = memory s" and "alloc_blocks s B 4 n = B"
    | (ok) p s' where "trx_realloc (bptr b) n s = Inr (bptr (new_blk s 4 n p), s')"
      and "heap_inv s' (new_blk s 4 n p # remove1 b B)"
      and "alloc_blocks s B 4 n = new_blk s 4 n p # B" and "new_blk s 4 n p \<noteq> b"
      and "take (min (unat (bsize b)) (unat n)) (contents (memory s') (new_blk s 4 n p)) =
           take (min (unat (bsize b)) (unat n)) (contents (memory s) b)"
proof -
  have init: "initted s \<noteq> 0" "bptr b \<noteq> 0" and ver: "verify s (memory s) (bptr b) = Inr ()"
    using i b verify_ok by (auto simp: heap_inv_def layout_ok_def blk_valid_def mem_ok_def)
  have start: "trx_realloc (bptr b) n s = bindE (tp_alloc n False 0 s) (\<lambda>(new, s2).
      if new = 0 then Inr (0, s2)
      else (let oldsize = ld32 (memory s2) (pw_size (bptr b));
                ncopy = (if oldsize > n then n else oldsize)
            in bindE (trx_free (bptr b) (s2\<lparr>memory := memmove (memory s2) new (bptr b) ncopy\<rparr>))
                 (\<lambda>s3. Inr (new, s3))))"
    using init e n ver by (simp add: trx_realloc_def)
  have nz: "False \<longrightarrow> tracking s \<noteq> 0" by simp
  have al: "4 = (if (0::u32) = 0 then 4 else (0::u32))" by simp
  show thesis
    using i g nz al
  proof (cases rule: tp_alloc_cases)
    case (fail s')
    with start show thesis by (intro that(1) [of s']) simp_all
  next
    case (ok p ps)
    let ?nb = "new_blk s 4 n p" and ?s2 = "alloc_post s 4 n p False ps"
    let ?k = "if bsize b > n then n else bsize b"
    let ?s3 = "?s2\<lparr>memory := memmove (memory ?s2) (bptr ?nb) (bptr b) ?k\<rparr>"
    have lay: "layout_ok (alist_at s) (?nb # B)" and bo: "blk_ok (memory ?s2) b"
      using ok(5) b by (simp_all add: heap_inv_def mem_ok_def)
    have ne: "?nb \<noteq> b" "bptr ?nb \<noteq> 0" using lay b by (auto simp: layout_ok_def blk_valid_def)
    have k: "unat ?k \<le> unat (bsize ?nb)" "unat ?k = min (unat (bsize b)) (unat n)"
      using small_request_align [of 4 n] g by (auto simp: good_request_def new_blk_def word_less_nat_alt)
    note cp = realloc_copy [OF ok(5) b k(1) ne(1)]
    have e3: "enable ?s3 \<noteq> 0" using e by simp
    obtain m where fr: "trx_free (bptr b) ?s3 = Inr (free_post ?s3 b m)"
      "heap_inv (free_post ?s3 b m) (remove1 b (?nb # B))"
      "\<forall>c\<in>set (remove1 b (?nb # B)). contents m c = contents (memory ?s3) c"
      using trx_free_ok [OF cp(1) _ e3, of b] b by auto
    have old: "contents (memory ?s2) b = contents (memory s) b"
      using alloc_post_contents [OF i _ ok(4) _ _ b] g by (simp add: good_request_def)
    have "take (unat ?k) (contents m ?nb) = take (unat ?k) (contents (memory ?s3) ?nb)"
      using fr(3) ne by simp
    also have "\<dots> = mem_read (memory ?s2) (bptr b) (unat ?k)"
      using cp(2) k(1) by (simp add: contents_def mem_read_take)
    also have "\<dots> = take (unat ?k) (contents (memory s) b)"
      using old [symmetric] k(2) by (simp add: contents_def mem_read_take)
    finally have cont: "take (unat ?k) (contents m ?nb) = take (unat ?k) (contents (memory s) b)" .
    have sz: "ld32 (memory ?s2) (pw_size (bptr b)) = bsize b" using bo by (simp add: blk_ok_def)
    have "trx_realloc (bptr b) n s = Inr (bptr ?nb, free_post ?s3 b m)"
      unfolding start ok(1) bindE_simps prod.case Let_def sz fr(1) using ne by simp
    then show thesis
      using that(2) fr(2) ne ok(2) cont k(2) by simp
  qed
qed


lemma clientRcvCB_heap:
  assumes "clientRcvCB c n p s = Inr (v, s')"
  shows "heap_inv s' B = heap_inv s B"
  using assms
  by (intro heap_inv_same)
     (auto simp: clientRcvCB_def clientSet_def changeTag_def Let_def split: if_splits)

lemma client_rcv_heap:
  assumes "client_rcv s = Inr (v, s')" and "heap_inv s B"
  shows "heap_inv s' B"
proof (rule client_rcv_inv [OF assms(1), where P = "\<lambda>t. heap_inv t B"])
  show "heap_inv t B = heap_inv t' B" if "os.more t = os.more t'" for t t' :: lib
    by (rule heap_inv_same) (rule lib_of_more [OF that])+
qed (use assms(2) in \<open>simp_all add: clientRcvCB_heap\<close>)

section \<open>The machine\<close>

text \<open>
  Steps of a process that uses the tracker. Each allocation comes with the contract of the real
  allocator; \<^verbatim>\<open>calloc\<close> is taken while tracking is on (what it does otherwise is
  \<open>calloc_untracked_fault\<close> below). While the manager has the tracker disabled, the calls go to the
  real allocator and the blocks they return are not the tracker's. What the machine leaves out is
  that a block the tracker handed out is freed or resized while it is disabled: the code then
  hands the real allocator a pointer it never returned (\<open>disabled_free_misplaced\<close> below).
\<close>

inductive heap_step :: "lib \<times> blk list \<Rightarrow> lib \<times> blk list \<Rightarrow> bool" where
  step_malloc: "enable s \<noteq> 0 \<Longrightarrow> good_answer s B 4 n \<Longrightarrow> good_request s 4 n \<Longrightarrow>
    trx_malloc n s = Inr (r, s') \<Longrightarrow> heap_step (s, B) (s', alloc_blocks s B 4 n)"
| step_calloc: "enable s \<noteq> 0 \<Longrightarrow> tracking s \<noteq> 0 \<Longrightarrow> good_answer s B 4 (n * e) \<Longrightarrow>
    good_request s 4 (n * e) \<Longrightarrow> trx_calloc n e s = Inr (r, s') \<Longrightarrow>
    heap_step (s, B) (s', alloc_blocks s B 4 (n * e))"
| step_memalign: "enable s \<noteq> 0 \<Longrightarrow> 4 \<le> al \<Longrightarrow> good_answer s B al n \<Longrightarrow> good_request s al n \<Longrightarrow>
    trx_memalign al n s = Inr (r, s') \<Longrightarrow> heap_step (s, B) (s', alloc_blocks s B al n)"
| step_valloc: "enable s \<noteq> 0 \<Longrightarrow> 4 \<le> pagesize s \<Longrightarrow> good_answer s B (pagesize s) n \<Longrightarrow>
    good_request s (pagesize s) n \<Longrightarrow> trx_valloc n s = Inr (r, s') \<Longrightarrow>
    heap_step (s, B) (s', alloc_blocks s B (pagesize s) n)"
| step_free: "enable s \<noteq> 0 \<Longrightarrow> b \<in> set B \<Longrightarrow> trx_free (bptr b) s = Inr s' \<Longrightarrow>
    heap_step (s, B) (s', remove1 b B)"
| step_free_null: "enable s \<noteq> 0 \<Longrightarrow> trx_free 0 s = Inr s' \<Longrightarrow> heap_step (s, B) (s', B)"
| step_realloc: "enable s \<noteq> 0 \<Longrightarrow> b \<in> set B \<Longrightarrow> n \<noteq> 0 \<Longrightarrow> good_answer s B 4 n \<Longrightarrow> good_request s 4 n \<Longrightarrow>
    trx_realloc (bptr b) n s = Inr (r, s') \<Longrightarrow>
    heap_step (s, B) (s', if r = 0 then B else remove1 b (alloc_blocks s B 4 n))"
| step_off_alloc: "enable s = 0 \<Longrightarrow> ininit s = 0 \<Longrightarrow>
    Inr (r, s') \<in> {trx_malloc n s, trx_calloc k n s, trx_memalign al n s, trx_valloc n s} \<Longrightarrow>
    heap_step (s, B) (s', B)"
| step_off_free: "enable s = 0 \<Longrightarrow> p \<notin> bptr ` set B \<Longrightarrow> trx_free p s = Inr s' \<Longrightarrow> heap_step (s, B) (s', B)"
| step_off_realloc: "enable s = 0 \<Longrightarrow> p \<notin> bptr ` set B \<Longrightarrow> trx_realloc p n s = Inr (r, s') \<Longrightarrow>
    heap_step (s, B) (s', B)"
| step_write: "b \<in> set B \<Longrightarrow> touches (memory s) m (bptr b) (unat (bsize b)) \<Longrightarrow>
    heap_step (s, B) (s\<lparr>memory := m\<rparr>, B)"
| step_command: "client_rcv s = Inr (v, s') \<Longrightarrow> heap_step (s, B) (s', B)"

inductive_cases heap_stepE: "heap_step (s, B) (s', B')"

abbreviation heap_state_ok :: "lib \<times> blk list \<Rightarrow> bool" where
  "heap_state_ok x \<equiv> heap_inv (fst x) (snd x)"

lemma alloc_step:
  assumes "heap_inv s B" and "good_answer s B al n" "good_request s al n"
    and "zero \<longrightarrow> tracking s \<noteq> 0" and "al = (if al0 = 0 then 4 else al0)"
    and "tp_alloc n zero al0 s = Inr (r, s')"
  shows "heap_inv s' (alloc_blocks s B al n)"
  using assms(1-5) by (cases rule: tp_alloc_cases) (use assms(6) in auto)

lemma enabled_calls:
  assumes "enable s \<noteq> 0" and "initted s \<noteq> 0"
  shows "trx_malloc n s = tp_alloc n False 0 s"
    and "trx_calloc k e s = tp_alloc (k * e) True 0 s"
    and "4 \<le> al \<Longrightarrow> trx_memalign al n s = tp_alloc n False al s"
    and "trx_free 0 s = Inr s"
    and "4 \<le> pagesize s \<Longrightarrow> trx_valloc n s = tp_alloc n False (pagesize s) s"
  using assms by (auto simp: trx_malloc_def trx_calloc_def trx_memalign_def trx_valloc_def trx_free_def)

text \<open>While the tracker is disabled its calls change what the real allocator sees, and no more.\<close>

lemma real_alloc_heap: "heap_inv (snd (real_alloc c s)) B = heap_inv s B"
  by (rule heap_inv_same) (simp_all add: real_alloc_def split: list.splits)

lemma disabled_calls:
  assumes "enable s = 0" and "initted s \<noteq> 0"
  shows "trx_malloc n s = Inr (real_alloc (RMalloc n) s)"
    and "ininit s = 0 \<Longrightarrow> trx_calloc k n s = Inr (real_alloc (RCalloc k n) s)"
    and "trx_memalign al n s = Inr (real_alloc (RMemalign al n) s)"
    and "trx_valloc n s = Inr (real_alloc (RValloc n) s)"
    and "trx_realloc p n s = Inr (real_alloc (RRealloc p n) s)"
    and "trx_free p s = Inr (real_free p s)"
  using assms by (simp_all add: trx_malloc_def trx_calloc_def trx_memalign_def trx_valloc_def
      trx_realloc_def trx_free_def)

lemma heap_step_inv:
  assumes "heap_state_ok x" and "heap_step x y"
  shows "heap_state_ok y"
proof -
  have init: "initted (fst x) \<noteq> 0" using assms(1) by (simp add: heap_inv_def)
  from assms(2,1) init show ?thesis
  proof cases
    case (step_malloc s B n r s')
    with assms(1) init show ?thesis
      using alloc_step [of s B 4 n False 0 r s'] by (simp add: enabled_calls)
  next
    case (step_calloc s B n e r s')
    with assms(1) init show ?thesis
      using alloc_step [of s B 4 "n * e" True 0 r s'] by (simp add: enabled_calls)
  next
    case (step_memalign s al B n r s')
    moreover from this have "al \<noteq> 0" by auto
    ultimately show ?thesis
      using assms(1) init alloc_step [of s B al n False al r s'] by (simp add: enabled_calls)
  next
    case (step_valloc s B n r s')
    moreover from this have "pagesize s \<noteq> 0" by auto
    ultimately show ?thesis
      using assms(1) init alloc_step [of s B "pagesize s" n False "pagesize s" r s'] by (simp add: enabled_calls)
  next
    case (step_off_alloc s r s' n k al B)
    then obtain c where "s' = snd (real_alloc c s)"
      using init disabled_calls(1-4) [of s] by (auto simp: prod_eq_iff)
    with step_off_alloc assms(1) show ?thesis by (simp add: real_alloc_heap)
  next
    case (step_off_free s p B s')
    with assms(1) init show ?thesis by (auto simp: disabled_calls real_free_def heap_inv_def)
  next
    case (step_off_realloc s p B n r s')
    then have "s' = snd (real_alloc (RRealloc p n) s)" using init by (simp add: disabled_calls prod_eq_iff)
    with step_off_realloc assms(1) show ?thesis by (simp add: real_alloc_heap)
  next
    case (step_free s b B s')
    with assms(1) have i: "heap_inv s B" by simp
    obtain m where "trx_free (bptr b) s = Inr (free_post s b m)"
      "heap_inv (free_post s b m) (remove1 b B)"
      by (rule trx_free_ok [OF i step_free(4,3)])
    with step_free show ?thesis by simp
  next
    case (step_free_null s s' B)
    with assms(1) init show ?thesis by (simp add: enabled_calls)
  next
    case (step_realloc s b B n r s')
    with assms(1) have i: "heap_inv s B" by simp
    from i step_realloc(4,3,5,6,7) show ?thesis
    proof (cases rule: trx_realloc_ok)
      case (fail t)
      with step_realloc show ?thesis by simp
    next
      case (ok p t)
      have "bptr (new_blk s 4 n p) \<noteq> 0"
        using ok(2) by (simp add: heap_inv_def layout_ok_def blk_valid_def)
      with ok step_realloc show ?thesis by simp
    qed
  next
    case (step_write b B s m)
    with assms(1) show ?thesis using user_write_ok [of "alist_at s" "memory s" B b m] by (simp add: heap_inv_def)
  next
    case (step_command s v s' B)
    with assms(1) show ?thesis using client_rcv_heap by simp
  qed
qed

interpretation heap: state_machine heap_step heap_state_ok
  by unfold_locales (rule heap_step_inv)


section \<open>A process to try things on\<close>

lemma ld32_zero [simp]: "ld32 (\<lambda>_. 0) a = 0"
  by (simp add: ld32_def mem_read_def word32_def upt_conv_Cons)

lemma lib0_inv: "heap_inv lib0 []"
  by (simp add: heap_inv_def lib0_def layout_ok_def mem_ok_def tagged_def)

lemma small_request4: "unat n \<le> 1000 \<Longrightarrow> small_request 4 n"
  by (auto simp: small_request_def intro!: exI [of _ 2])

lemma lib0_request: "good_request lib0 4 10" "good_answer lib0 [] 4 10"
  by (auto simp: good_request_def small_request4 MAXTAGS_def good_answer_def fresh_def raw_size_def
      tp_size_def tp_overhead_cases trxAlign_def apart_def ALIST_BYTES_def)


definition blk0 :: blk where
  "blk0 = new_blk lib0 4 10 0x10000"

definition lib1 :: lib where
  "lib1 = alloc_post lib0 4 10 0x10000 False [0x20000]"

lemma lib0_fresh: "fresh lib0 [] 0x10000 (unat (raw_size lib0 4 10))"
  using lib0_request(2) by (simp add: good_answer_def)

lemma lib1_inv: "heap_inv lib1 [blk0]"
  unfolding lib1_def blk0_def
  by (rule alloc_post_inv [OF lib0_inv _ lib0_fresh])
     (simp_all add: small_request4 MAXTAGS_def)

lemma lib1_malloc: "trx_malloc 10 lib0 = Inr (bptr blk0, lib1)"
  unfolding lib1_def blk0_def
  by (subst enabled_calls) (auto intro!: tp_alloc_post simp: MAXTAGS_def)

lemma lib1_step: "heap_step (lib0, []) (lib1, [blk0])"
  using step_malloc [of lib0 "[]" 10, OF _ lib0_request(2,1) lib1_malloc]
  by (simp add: alloc_blocks_def blk0_def)

lemma lib1_run: "heap_step\<^sup>*\<^sup>* (lib0, []) (lib1, [blk0])"
  by (rule r_into_rtranclp) (rule lib1_step)

lemma lib1_simps [simp]:
  "enable lib1 = 1" "validate lib1 = 1" "initted lib1 = 1" "alist_at lib1 = 0x1000"
  by (simp_all add: lib1_def alloc_post_def)

lemma bytes32_ones: "bytes32 (- 1) = [255, 255, 255, 255]"
  by code_simp

section \<open>Properties\<close>

text \<open>
  C1. The heap invariant is an invariant of the machine: however the process mixes \<^verbatim>\<open>malloc\<close>,
  \<^verbatim>\<open>calloc\<close>, \<^verbatim>\<open>memalign\<close>, \<^verbatim>\<open>valloc\<close>, \<^verbatim>\<open>realloc\<close> and \<^verbatim>\<open>free\<close>, writes into its buffers and lets the
  manager change the settings, as long as no tracked block is freed or resized in the time the
  tracker is disabled, every live block keeps an intact header and trailer, the allocation list of each
  tag links exactly the tracked live blocks of that tag, and the per-tag totals and
  \<^verbatim>\<open>curalloc\<close> are the sums of the sizes in use.
\<close>

theorem heap_reachable_inv:
  assumes "heap_step\<^sup>*\<^sup>* (s, B) (s', B')" and "heap_inv s B"
  shows "heap_inv s' B'"
  using heap.inv_run [OF assms(1)] assms(2) by simp

theorem heap_reachable_inv_witness: "heap_inv lib1 [blk0]"
  using heap_reachable_inv [OF lib1_run lib0_inv] .

text \<open>
  What the machine leaves out, and why: a block handed out by the tracker and freed while the
  tracker is disabled. The real allocator gets the pointer of the process, which lies behind the
  raw block by the header at least, and neither the lists nor the totals hear of it.
\<close>

lemma disabled_free_misplaced:
  assumes i: "heap_inv s B" and e: "enable s \<noteq> 0" and g: "good_answer s B 4 n" "good_request s 4 n"
    and m: "trx_malloc n s = Inr (p, t)" "p \<noteq> 0"
  shows "\<exists>b. p = bptr b \<and> heap_inv t (b # B) \<and> (\<exists>u. trx_free p (t\<lparr>enable := 0\<rparr>) = Inr u \<and>
    calls u = calls t @ [RFree p] \<and> p \<noteq> braw b \<and> heap_inv u (b # B))"
proof -
  have z: "False \<longrightarrow> tracking s \<noteq> 0" by simp
  have al: "4 = (if (0::u32) = 0 then 4 else (0::u32))" by simp
  have init: "initted s \<noteq> 0" using i by (simp add: heap_inv_def)
  from i g z al show ?thesis
  proof (cases rule: tp_alloc_cases)
    case (fail s')
    with m e init show ?thesis by (simp add: enabled_calls)
  next
    case (ok q ps)
    let ?b = "new_blk s 4 n q"
    have t: "p = bptr ?b" "t = alloc_post s 4 n q False ps"
      using m e init ok(1) by (simp_all add: enabled_calls)
    have "p \<noteq> q"
    proof -
      have "small_request 4 n" using g by (simp add: good_request_def)
      from small_requestE [OF this] have sz: "2 * (unat (4 :: u32) + 84) + unat (trxAlign n) < 4294967296" by metis
      have ov: "16 \<le> unat (tp_overhead s)" "unat (tp_overhead s) \<le> 84" by (simp_all add: tp_overhead_cases)
      have "unat q + (2 * (4 + unat (tp_overhead s)) + unat (trxAlign n)) \<le> 4294967296"
        using ok(4) tp_size_unat [of 4 "tp_overhead s" "trxAlign n"] ov sz by (simp add: fresh_def raw_size_def)
      then have "unat (tp_overhead s) < unat (tp_ph q (tp_overhead s) 4 - q)"
        using ov by (intro tp_ph_bounds(1) [of 4 2]) simp_all
      then show ?thesis using t(1) by (auto simp: new_blk_def)
    qed
    moreover have "heap_inv u (?b # B)" if "u = real_free p (t\<lparr>enable := 0\<rparr>)" for u
      using ok(5) that t by (simp add: heap_inv_def real_free_def)
    ultimately show ?thesis
      using t ok(5) init by (intro exI [of _ ?b]) (simp add: disabled_calls real_free_def new_blk_def)
  qed
qed

text \<open>
  C2. No false alarm: in every reachable state with the tracker enabled, whatever \<^verbatim>\<open>validate\<close>,
  \<^verbatim>\<open>tracking\<close> and \<^verbatim>\<open>poison\<close> are by then, \<^verbatim>\<open>free\<close> of a live block does not dump core, hands the raw
  block of that very allocation back to the real allocator and subtracts its size from
  \<^verbatim>\<open>curalloc\<close>; the other live blocks keep their contents.
\<close>

theorem live_block_frees:
  assumes "heap_step\<^sup>*\<^sup>* (s, B) (s', B')" and "heap_inv s B" and "b \<in> set B'" and "enable s' \<noteq> 0"
  shows "\<exists>t. trx_free (bptr b) s' = Inr t \<and> heap_inv t (remove1 b B') \<and>
     calls t = calls s' @ [RFree (braw b)] \<and> curalloc t = curalloc s' - bsize b \<and>
     (\<forall>c\<in>set (remove1 b B'). contents (memory t) c = contents (memory s') c)"
proof -
  have "heap_inv s' B'" using heap.inv_run [OF assms(1)] assms(2) by simp
  then obtain m where "trx_free (bptr b) s' = Inr (free_post s' b m)"
    "heap_inv (free_post s' b m) (remove1 b B')"
    "\<forall>c\<in>set (remove1 b B'). contents m c = contents (memory s') c"
    by (rule trx_free_ok [OF _ assms(3,4)])
  then show ?thesis by (intro exI [of _ "free_post s' b m"]) simp
qed

theorem live_block_frees_witness: "\<exists>t. trx_free (bptr blk0) lib1 = Inr t \<and> heap_inv t []"
  using live_block_frees [OF lib1_run lib0_inv, of blk0] by auto

text \<open>
  C7. Double free: freeing a block a second time, before its memory is reused, ends in the
  core dump with the double-free diagnosis, for tracked and untracked blocks.
\<close>

theorem double_free_detected:
  assumes "heap_inv s B" and "b \<in> set B" and "enable s \<noteq> 0"
  shows "\<exists>t. trx_free (bptr b) s = Inr t \<and> trx_free (bptr b) t = Inl CoreDoubleFree"
proof -
  have nz: "bptr b \<noteq> 0" and init: "initted s \<noteq> 0"
    using assms by (auto simp: heap_inv_def layout_ok_def blk_valid_def)
  obtain m where f: "trx_free (bptr b) s = Inr (free_post s b m)"
    "ld32 m (pw_magic (bptr b)) = freed_magic b"
    by (rule trx_free_ok [OF assms])
  from verify_freed [OF f(2)]
  have "trx_free (bptr b) (free_post s b m) = Inl CoreDoubleFree"
    using nz init assms(3) by (simp add: trx_free_def)
  with f show ?thesis by blast
qed

theorem double_free_detected_witness:
  "\<exists>t. trx_free (bptr blk0) lib1 = Inr t \<and> trx_free (bptr blk0) t = Inl CoreDoubleFree"
  using double_free_detected [OF lib1_inv, of blk0] by simp

text \<open>
  C8. Overflow: with \<^verbatim>\<open>validate\<close> on, a block whose trailer word was overwritten (anything else
  left as it was) is reported as a buffer overflow when it is freed.
\<close>

theorem overflow_detected:
  assumes "heap_inv s B" and "b \<in> set B" and "enable s \<noteq> 0" and "validate s \<noteq> 0"
    and "touches (memory s) m (bptr b + bsize b) 4" and "ld32 m (bptr b + bsize b) \<noteq> MAGIC1"
  shows "trx_free (bptr b) (s\<lparr>memory := m\<rparr>) = Inl CoreOverflow"
proof -
  have bo: "blk_ok (memory s) b" and v: "blk_valid (alist_at s) b" and init: "initted s \<noteq> 0"
    using assms(1,2) by (auto simp: heap_inv_def layout_ok_def mem_ok_def)
  have "validate (s\<lparr>memory := m\<rparr>) \<noteq> 0" using assms(4) by simp
  from verify_overflow [OF bo v this assms(5,6)] show ?thesis
    using init v assms(3) by (simp add: trx_free_def blk_valid_def)
qed

theorem overflow_detected_witness:
  "trx_free (bptr blk0) (lib1\<lparr>memory := st32 (memory lib1) (bptr blk0 + bsize blk0) 0x41414141\<rparr>)
     = Inl CoreOverflow"
  by (rule overflow_detected [OF lib1_inv]) (simp_all add: touches_st32 MAGIC1_def)


text \<open>
  C9. \<^verbatim>\<open>realloc\<close> of a live block to a nonzero size either fails, leaving every block as it was, or
  moves it: the old block is gone, the new one is live, and its first bytes, up to the smaller
  of the two sizes, are those of the old block.
\<close>

theorem realloc_keeps_contents:
  assumes "heap_inv s B" and "b \<in> set B" and "enable s \<noteq> 0" and "n \<noteq> 0"
    and "good_answer s B 4 n" and "good_request s 4 n"
  shows "\<exists>r s'. trx_realloc (bptr b) n s = Inr (r, s') \<and>
     (r = 0 \<and> heap_inv s' B \<and> memory s' = memory s \<or>
      (\<exists>nb. r = bptr nb \<and> unat n \<le> unat (bsize nb) \<and> heap_inv s' (nb # remove1 b B) \<and>
         take (min (unat (bsize b)) (unat n)) (contents (memory s') nb) =
         take (min (unat (bsize b)) (unat n)) (contents (memory s) b)))"
  using assms
proof (cases rule: trx_realloc_ok)
  case (fail s')
  then show ?thesis by blast
next
  case (ok p s')
  moreover have "unat n \<le> unat (bsize (new_blk s 4 n p))"
    using small_request_align [of 4 n] assms(6) by (simp add: new_blk_def good_request_def)
  ultimately show ?thesis by blast
qed

lemma lib1_fresh: "good_answer lib1 [blk0] 4 20" "good_request lib1 4 20"
proof -
  have s: "tracking lib1 = 1" "alloctag lib1 = 3" "answers lib1 = [0x20000]"
    by (simp_all add: lib1_def alloc_post_def)
  show "good_request lib1 4 20" by (simp add: good_request_def small_request4 MAXTAGS_def s)
  show "good_answer lib1 [blk0] 4 20"
    by (simp add: good_answer_def fresh_def raw_size_def tp_size_def tp_overhead_cases trxAlign_def
        apart_def ALIST_BYTES_def s blk0_def new_blk_def blk_base_def blk_len_def hdr_def TRXBLK_def
        tp_ph_def)
qed

theorem realloc_keeps_contents_witness:
  "\<exists>r s'. trx_realloc (bptr blk0) 20 lib1 = Inr (r, s') \<and> (r = 0 \<or> (\<exists>nb. r = bptr nb \<and> heap_inv s' [nb]))"
  using realloc_keeps_contents [OF lib1_inv, of blk0 20, OF _ _ _ lib1_fresh] by auto

text \<open>
  C22. Placement: for a power of two alignment the pointer an allocation returns is a multiple of
  it, header, buffer and trailer lie inside the raw block the real allocator returned, and the
  buffer is as large as the request. A request the real allocator refuses returns 0 and
  changes nothing.
\<close>

theorem allocation_placed:
  assumes "heap_inv s B" and "good_answer s B al n" "good_request s al n" and "4 \<le> al"
    and "enable s \<noteq> 0"
  shows "\<exists>r s'. trx_memalign al n s = Inr (r, s') \<and> heap_inv s' (alloc_blocks s B al n) \<and>
     (r = 0 \<and> memory s' = memory s \<and> alloc_blocks s B al n = B \<or>
      unat r mod unat al = 0 \<and>
      (\<exists>b p. alloc_blocks s B al n = b # B \<and> r = bptr b \<and> braw b = p \<and> answers s \<noteq> [] \<and> p = hd (answers s) \<and>
         unat n \<le> unat (bsize b) \<and>
         within (blk_base b) (blk_len b) p (unat (raw_size s al n))))"
proof -
  have al: "al = (if al = 0 then 4 else al)" using assms(4) by auto
  have nz: "False \<longrightarrow> tracking s \<noteq> 0" by simp
  have call: "trx_memalign al n s = tp_alloc n False al s"
    using assms by (simp add: enabled_calls heap_inv_def)
  have r: "small_request al n" using assms(3) by (simp add: good_request_def)
  show ?thesis
    using assms(1-3) nz al
  proof (cases rule: tp_alloc_cases)
    case (fail s')
    then show ?thesis unfolding call by (intro exI [of _ 0] exI [of _ s']) simp
  next
    case (ok p ps)
    let ?b = "new_blk s al n p"
    have fit: "unat p + unat (raw_size s al n) \<le> 4294967296" using ok(4) by (simp add: fresh_def)
    from r obtain k where k: "al = 2 ^ k" "k < 31"
      and sz: "2 * (unat al + 84) + unat (trxAlign n) < 4294967296" by (rule small_requestE)
    have "unat (tp_overhead s) \<le> 84" by (simp add: tp_overhead_cases)
    with sz have "2 * (unat al + unat (tp_overhead s)) + unat (trxAlign n) < 4294967296" by arith
    from tp_size_unat [OF this] have "unat p + unat (tp_overhead s) + unat al < 4294967296"
      using fit by (simp add: raw_size_def tp_overhead_cases split: if_splits)
    then have "unat (bptr ?b) mod 2 ^ k = 0"
      using tp_ph_bounds(3) [OF k] by (simp add: new_blk_def)
    moreover have "unat al = 2 ^ k" using k unat_power32 by simp
    moreover have "unat n \<le> unat (bsize ?b)" using small_request_align [OF r] by (simp add: new_blk_def)
    moreover have "braw ?b = p" "hd (answers s) = p" "answers s \<noteq> []" using ok(3) by (simp_all add: new_blk_def)
    ultimately show ?thesis
      using ok(1,2,5) new_blk_within(1) [OF r fit] unfolding call by auto
  qed
qed

theorem allocation_placed_witness:
  "\<exists>r s'. trx_memalign 4 10 lib0 = Inr (r, s') \<and> heap_inv s' (alloc_blocks lib0 [] 4 10)"
  using allocation_placed [OF lib0_inv lib0_request(2,1)] by auto

text \<open>
  C23. What the manager's report walks: in every reachable state the traversal of
  \<^verbatim>\<open>alist[t].list\<close> ends, visits exactly the tracked live blocks of tag \<open>t\<close>, each once, and the
  per-tag total is the sum of their sizes.
\<close>

theorem alist_lists_live_blocks:
  assumes "heap_step\<^sup>*\<^sup>* (s, B) (s', B')" and "heap_inv s B" and "unat t < MAXTAGS"
  shows "LIST_FOREACH (memory s') (alist_list (alist_at s') t) 0 = Some (map blk_tp (tagged t B')) \<and>
     distinct (map blk_tp (tagged t B')) \<and>
     ld32 (memory s') (alist_total (alist_at s') t) = sum_list (map bsize (tagged t B'))"
proof -
  have "heap_inv s' B'" using heap.inv_run [OF assms(1)] assms(2) by simp
  with assms(3) show ?thesis
    by (auto simp: heap_inv_def mem_ok_def LIST_FOREACH_dlist dest: dlist_distinct)
qed

theorem alist_lists_live_blocks_witness:
  "LIST_FOREACH (memory lib1) (alist_list 0x1000 3) 0 = Some [blk_tp blk0]"
  using alist_lists_live_blocks [OF lib1_run lib0_inv, of 3]
  by (simp add: MAXTAGS_def tagged_def blk0_def new_blk_def)


text \<open>
  C25. Poisoning: with \<^verbatim>\<open>poison\<close> set, a released buffer is filled to its last byte with copies of one
  pattern of at most 16 bytes: the back trace of the \<^verbatim>\<open>free\<close>, or \<^verbatim>\<open>0xff\<close> bytes when there is no trace.
\<close>

theorem free_poisons_buffer:
  assumes "heap_inv s B" and "b \<in> set B" and "enable s \<noteq> 0" and "poison s \<noteq> 0"
    and "unat (bptr b) + unat (bsize b) < 4294967296"
  shows "\<exists>t pat. trx_free (bptr b) s = Inr t \<and> pat \<noteq> [] \<and> length pat \<le> 16 \<and>
     (btag b = None \<longrightarrow> pat = [255, 255, 255, 255]) \<and>
     (\<forall>i<unat (bsize b). memory t (bptr b + of_nat i) = pat ! (i mod length pat))"
proof -
  obtain m where f: "trx_free (bptr b) s = Inr (free_post s b m)" and p: "poisoned s b m"
    by (rule trx_free_ok [OF assms(1-3)])
  obtain m0 pat where u: "free_unlink (bptr b) s = Inr (m0, curalloc s - bsize b, pat)"
    and pat: "pat \<noteq> [] \<and> length pat \<le> 16"
    by (rule free_unlink_ok [OF assms(1,2)])
  with p assms(4) obtain m2 where m: "m = poison_loop m2 (bptr b) (bptr b + bsize b) pat"
    by (auto simp: poisoned_def)
  have "unat (bptr b + bsize b) = unat (bptr b) + unat (bsize b)" using assms(5) by (rule unat_plus_le)
  then have "bptr b \<le> bptr b + bsize b" by (simp add: word_le_nat_alt)
  then have "\<forall>i<unat (bsize b). m (bptr b + of_nat i) = pat ! (i mod length pat)"
    using poison_loop_bytes [of "bptr b" "bptr b + bsize b" pat] pat by (simp add: m)
  moreover have "pat = [255, 255, 255, 255]" if "btag b = None"
  proof -
    have "blk_ok (memory s) b" using assms(1,2) by (simp add: heap_inv_def mem_ok_def)
    with u that show ?thesis
      by (simp add: free_unlink_def blk_ok_def free_pattern_def bytes32_ones)
  qed
  ultimately show ?thesis using f pat by (intro exI [of _ "free_post s b m"] exI [of _ pat]) simp
qed

theorem free_poisons_buffer_witness:
  "\<exists>t pat. trx_free (bptr blk0) lib1 = Inr t \<and> pat \<noteq> [] \<and> length pat \<le> 16 \<and>
     memory t (bptr blk0) = pat ! 0"
proof -
  have "poison lib1 \<noteq> 0" by (simp add: lib1_def alloc_post_def)
  moreover have "unat (bptr blk0) + unat (bsize blk0) < 4294967296" "0 < unat (bsize blk0)"
    by (simp_all add: blk0_def new_blk_def tp_ph_def tp_overhead_cases trxAlign_def)
  ultimately obtain t pat where f: "trx_free (bptr blk0) lib1 = Inr t" "pat \<noteq> []" "length pat \<le> 16"
    and i: "\<forall>i<unat (bsize blk0). memory t (bptr blk0 + of_nat i) = pat ! (i mod length pat)"
    and n: "0 < unat (bsize blk0)"
    using free_poisons_buffer [OF lib1_inv, of blk0] lib1_simps(1)
    by (metis list.set_intros(1) one_neq_zero)
  from i [rule_format, OF n] f show ?thesis by auto
qed

text \<open>
  C26. \<^verbatim>\<open>calloc\<close> while tracking: the whole buffer of the block it returns is zero.
\<close>

theorem calloc_tracked_zeroes:
  assumes "heap_inv s B" and "good_answer s B 4 (k * e)" and "good_request s 4 (k * e)"
    and "enable s \<noteq> 0" and "tracking s \<noteq> 0"
  shows "\<exists>r s'. trx_calloc k e s = Inr (r, s') \<and>
     (r = 0 \<and> memory s' = memory s \<or>
      (\<exists>b. r = bptr b \<and> unat (k * e) \<le> unat (bsize b) \<and> heap_inv s' (b # B) \<and>
         contents (memory s') b = replicate (unat (bsize b)) 0))"
proof -
  let ?n = "k * e" and ?t = "alloctag s" and ?at = "alist_at s"
  have call: "trx_calloc k e s = tp_alloc ?n True 0 s"
    using assms by (simp add: enabled_calls heap_inv_def)
  have t: "unat ?t < MAXTAGS" and r: "small_request 4 ?n" and sz: "unat (trxAlign ?n) \<le> 4294967000"
    using assms(3,5) by (auto simp: good_request_def elim!: small_requestE)
  have nz: "True \<longrightarrow> tracking s \<noteq> 0" and al: "4 = (if (0::u32) = 0 then 4 else (0::u32))"
    using assms(5) by simp_all
  show ?thesis
    using assms(1-3) nz al
  proof (cases rule: tp_alloc_cases)
    case (fail s')
    then show ?thesis unfolding call by blast
  next
    case (ok p ps)
    let ?b = "new_blk s 4 ?n p" and ?m = "new_header s 4 ?n p True"
    have tg: "btag ?b = Some ?t" and bs: "bsize ?b = trxAlign ?n"
      using assms(5) by (simp_all add: new_blk_def)
    have lay: "layout_ok ?at (?b # B)" using ok(5) by (simp add: heap_inv_def)
    note h = new_header_ok [where s = s and p = p and zero = True, OF r assms(5)]
    have "contents ?m ?b = replicate (unat (bsize ?b)) 0"
    proof (cases "0 < unat (trxAlign ?n)")
      case True
      have "mem_read (st32 (bzero m (bptr ?b) (trxAlign ?n)) (bptr ?b + trxAlign ?n) MAGIC1) (bptr ?b)
          (unat (trxAlign ?n)) = replicate (unat (trxAlign ?n)) 0" for m
        using trailer_apart_buffer(2) [OF sz True] mem_read_bzero_within
        by (simp add: mem_read_st32_apart within_def)
      then show ?thesis
        using assms(5) bs by (simp add: contents_def new_header_def new_blk_def write_tracked_def Let_def)
    qed (simp add: contents_def bs mem_read_def)
    moreover have "contents (alloc_mem s 4 ?n p True) ?b = contents ?m ?b"
    proof -
      have "blk_tp ?b \<noteq> 0" using layout_okD(2) [OF lay, of ?b] tg by (simp add: blk_valid_def)
      moreover have "mem_ok ?at ?m B"
        by (rule new_header_mem(1) [OF assms(1) r ok(4)]) (use t assms(5) in simp_all)
      ultimately show ?thesis
        using tag_frame_contents [OF link_block(2) [OF lay _ h(1) tg t] lay t, of ?b] assms(5) bs
        by (simp add: alloc_mem_def Let_def)
    qed
    moreover have "unat ?n \<le> unat (bsize ?b)" using small_request_align [OF r] bs by simp
    ultimately show ?thesis
      using ok(1,5) unfolding call by (auto simp: alloc_post_def)
  qed
qed

lemma lib0_calloc: "good_answer lib0 [] 4 (2 * 5)" "good_request lib0 4 (2 * 5)"
  using lib0_request by simp_all

theorem calloc_tracked_zeroes_witness:
  "\<exists>r s'. trx_calloc 2 5 lib0 = Inr (r, s') \<and> (r = 0 \<or> (\<exists>b. r = bptr b \<and> heap_inv s' [b]))"
  using calloc_tracked_zeroes [OF lib0_inv lib0_calloc] by auto

text \<open>
  C37. \<^verbatim>\<open>calloc\<close> while not tracking clears the wrong bytes (\<^verbatim>\<open>p+1\<close> counts from the raw block): a
  request of at least 24 bytes has its own header cleared, so that the \<^verbatim>\<open>free\<close> of the block it
  returned ends in the core dump for an invalid pointer.
\<close>

theorem calloc_untracked_fault:
  assumes "initted s \<noteq> 0" and "enable s \<noteq> 0" and "tracking s = 0" and "answers s = p # ps" and "p \<noteq> 0"
    and "24 \<le> unat (k * e)" and "unat (k * e) < 2147483648" and "unat p < 2147483000"
  shows "\<exists>r s'. trx_calloc k e s = Inr (r, s') \<and> r \<noteq> 0 \<and> trx_free r s' = Inl CoreInvalidPointer"
proof -
  let ?n = "k * e"
  let ?sz = "trxAlign ?n" and ?ph = "tp_ph p 16 4" and ?m = "write_untracked s p (tp_ph p 16 4) (trxAlign (k * e)) True"
  have ph: "16 < unat (?ph - p)" "unat (?ph - p) \<le> 20" "unat ?ph = unat p + unat (?ph - p)"
    using tp_ph_bounds [of 4 2 p 16] assms(8) by simp_all
  have sz: "unat ?n \<le> unat ?sz" "unat ?sz \<le> unat ?n + 3"
    by (rule trxAlign_unat; use assms(7) in linarith)+
  have "pw_magic ?ph - (p + 1) = (?ph - p) - of_nat 5" by (simp add: pw_magic_def)
  then have "unat (pw_magic ?ph - (p + 1)) = unat (?ph - p) - 5"
    using unat_minus_of_nat [of 5 "?ph - p"] ph by (simp only:)
  then have "within (pw_magic ?ph) 4 (p + 1) (unat ?sz)"
    using ph sz assms(6) by (simp add: within_def)
  then have z: "mem_read (bzero m (p + 1) ?sz) (pw_magic ?ph) 4 = replicate 4 0" for m
    by (rule mem_read_bzero_within)
  have "unat (?sz + 4) = unat ?sz + 4" using sz assms(7) by (subst unat_plus_le) simp_all
  then have "apart (?ph + ?sz) 4 (pw_magic ?ph) 4"
    using apart_offsets(2) [of 0 4 "?sz + 4" 4 "pw_magic ?ph"] sz assms(7)
    by (simp add: pw_magic_def)
  then have "mem_read ?m (pw_magic ?ph) 4 = replicate 4 0"
    by (simp add: write_untracked_def Let_def mem_read_st32_apart z)
  then have "ld32 ?m (pw_magic ?ph) = 0"
    by (simp add: ld32_def word32_def numeral_eq_Suc)
  then have v: "verify t ?m ?ph = Inl CoreInvalidPointer" for t
    by (simp add: verify_def MAGIC1_def MAGIC2_def)
  have nz: "?ph \<noteq> 0" using ph by auto
  have "trx_calloc k e s = Inr (?ph, s\<lparr>calls := calls s @ [RMalloc (tp_size 4 16 ?sz)], answers := ps,
      memory := ?m, curalloc := curalloc s + ?sz\<rparr>)"
    using assms(1-5)
    by (simp add: enabled_calls tp_alloc_def Let_def real_alloc_def tp_overhead_cases write_untracked_def)
  with v nz assms(1,2) show ?thesis by (auto simp: trx_free_def)
qed

theorem calloc_untracked_fault_witness:
  "\<exists>r s'. trx_calloc 3 8 (lib0\<lparr>tracking := 0\<rparr>) = Inr (r, s') \<and> trx_free r s' = Inl CoreInvalidPointer"
  using calloc_untracked_fault [of "lib0\<lparr>tracking := 0\<rparr>" "0x10000" "[0x20000]" 3 8] by auto

text \<open>
  The product of \<^verbatim>\<open>calloc\<close> wraps: a request for 65536 elements of 65537 bytes, four gigabytes
  and more, is served as one of 65536 bytes.
\<close>

theorem calloc_product_wraps:
  assumes "enable s \<noteq> 0" and "initted s \<noteq> 0"
  shows "trx_calloc 65536 65537 s = trx_calloc 1 65536 s"
proof -
  have "65536 * 65537 = (1 * 65536 :: u32)" by simp
  then show ?thesis by (simp only: enabled_calls(2) [OF assms])
qed

theorem calloc_product_wraps_witness: "trx_calloc 65536 65537 lib0 = trx_calloc 1 65536 lib0"
  by (rule calloc_product_wraps) simp_all

end
