(* ===== verification/Trx_Report.thy ===== *)
theory Trx_Report imports Trx_Tracker
begin

text \<open>
  The report of a traced process: \<^verbatim>\<open>libSendReport\<close> and \<^verbatim>\<open>addFds\<close> of \<^verbatim>\<open>trxlib.c\<close> copy the back
  traces of a tag into a shared memory segment, slot by slot, and announce it to the manager;
  \<^verbatim>\<open>report\<close> and the communication thread of \<^verbatim>\<open>trxclient.c\<close> trigger it. The lemmas show what the
  segment holds: the amount allocated and one slot per live block and open descriptor of the tag.
\<close>

section \<open>Slots\<close>

definition RESTYPE_MEMORY :: u32 where "RESTYPE_MEMORY = 0"
definition RESTYPE_FILE :: u32 where "RESTYPE_FILE = 1"

definition RPTSLOTSIZE :: nat where "RPTSLOTSIZE = 4 * MAXCALLERS + 2 * 4"
definition RPTSLOTSIZE_FD :: nat where "RPTSLOTSIZE_FD = 4 * MAXOPENERS + 2 * 4"
definition KEYBASE :: int where "KEYBASE = 12012"

lemma slot_sizes [simp]: "RPTSLOTSIZE = 48" "RPTSLOTSIZE_FD = 32"
  by (simp_all add: RPTSLOTSIZE_def RPTSLOTSIZE_FD_def MAXCALLERS_def MAXOPENERS_def)

text \<open>A slot as the twelve words the manager reads: size, type, callers.\<close>

definition enc_slot :: "u32 list \<Rightarrow> bytes" where
  "enc_slot ws = concat (map bytes32 ws)"

definition dec_slot :: "bytes \<Rightarrow> u32 list" where
  "dec_slot b = w32.unpack 12 b"

interpretation slot: codec enc_slot dec_slot 48 "\<lambda>ws. length ws = 12"
proof unfold_locales
  fix ws :: "u32 list" assume "length ws = 12"
  then show "length (enc_slot ws) = 48" "dec_slot (enc_slot ws) = ws"
    using w32.unpack_pack [of ws "[]"] by (simp_all add: enc_slot_def dec_slot_def)
qed

text \<open>A store of bytes into the segment, which is large enough.\<close>

definition seg_write :: "bytes \<Rightarrow> nat \<Rightarrow> bytes \<Rightarrow> bytes" where
  "seg_write g pos b = take pos g @ b @ drop (pos + length b) g"

section \<open>The segment\<close>

text \<open>
  \<^verbatim>\<open>shmget\<close> with \<^verbatim>\<open>IPC_CREAT\<close>: an existing segment of the key that is large enough is used as it
  is, a smaller one is an error, a new one is zero.
\<close>

definition shm_get :: "int \<Rightarrow> nat \<Rightarrow> lib \<Rightarrow> bytes option \<times> lib" where
  "shm_get key n s =
     (case shmgets s of
        False # r \<Rightarrow> (None, s\<lparr>shmgets := r\<rparr>)
      | rest \<Rightarrow>
          (let s1 = s\<lparr>shmgets := tl rest\<rparr> in
           case segs s key of
             None \<Rightarrow> (Some (replicate n 0), s1\<lparr>segs := (segs s)(key \<mapsto> replicate n 0)\<rparr>)
           | Some g \<Rightarrow> if length g < n then (None, s1) else (Some g, s1)))"

definition shm_at :: "lib \<Rightarrow> bool \<times> lib" where
  "shm_at s = (case shmats s of [] \<Rightarrow> (True, s) | b # r \<Rightarrow> (b, s\<lparr>shmats := r\<rparr>))"

definition shm_rmid :: "int \<Rightarrow> lib \<Rightarrow> lib" where
  "shm_rmid key s = s\<lparr>segs := (segs s)(key := None)\<rparr>"

text \<open>One memory slot: the callers first, then size and type.\<close>

definition put_block :: "mem \<Rightarrow> u32 \<Rightarrow> nat \<Rightarrow> bytes \<Rightarrow> bytes" where
  "put_block m tp pos g =
     (let g1 = seg_write g (pos + 8) (mem_read m (tp + o_callers) (4 * MAXCALLERS));
          g2 = seg_write g1 pos (bytes32 (ld32 m (tp + o_size)))
      in seg_write g2 (pos + 4) (bytes32 RESTYPE_MEMORY))"

text \<open>
  \<^verbatim>\<open>LIST_FOREACH(tp, ...) { if(newtot>tot) break; newtot++; ... pslot += RPTSLOTSIZE; }\<close>, over the
  elements the traversal visits.
\<close>

fun put_blocks :: "mem \<Rightarrow> u32 list \<Rightarrow> nat \<Rightarrow> nat \<Rightarrow> nat \<Rightarrow> bytes \<Rightarrow> nat \<times> nat \<times> bytes" where
  "put_blocks m [] newtot tot pos g = (newtot, pos, g)"
| "put_blocks m (tp # tps) newtot tot pos g =
     (if newtot > tot then (newtot, pos, g)
      else put_blocks m tps (Suc newtot) tot (pos + RPTSLOTSIZE) (put_block m tp pos g))"

text \<open>\<^verbatim>\<open>addFds\<close>: the descriptors of the tag, while there is room.\<close>

fun addFds :: "fd_t list \<Rightarrow> nat \<Rightarrow> nat \<Rightarrow> nat \<Rightarrow> nat \<Rightarrow> u32 \<Rightarrow> bytes \<Rightarrow> bytes" where
  "addFds [] pos sizeslot curpos maxpos tag g = g"
| "addFds (e # es) pos sizeslot curpos maxpos tag g =
     (if \<not> curpos < maxpos then g
      else if inUse e \<noteq> 0 \<and> fdtag e = tag then
        (let mx = (if sizeslot < RPTSLOTSIZE_FD then sizeslot else RPTSLOTSIZE_FD);
             g1 = seg_write g (pos + 8) (take (mx - 8) (concat (map bytes32 (opener e))));
             g2 = seg_write g1 pos (bytes32 1);
             g3 = seg_write g2 (pos + 4) (bytes32 RESTYPE_FILE)
         in addFds es (pos + sizeslot) sizeslot (Suc curpos) maxpos tag g3)
      else addFds es pos sizeslot curpos maxpos tag g)"

text \<open>
  \<^verbatim>\<open>libSendReport\<close>. A tag outside \<^verbatim>\<open>alist\<close> indexes out of bounds; \<^term>\<open>None\<close> is a traversal that
  does not end. The lock protects the lists from other threads and has no counterpart in one
  sequence of calls.
\<close>

definition libSendReport :: "int \<Rightarrow> lib \<Rightarrow> (fault + lib) option" where
  "libSendReport tag s =
     (if tag < 0 \<or> int MAXTAGS \<le> tag then Some (Inl OutOfBounds)
      else
        Option.bind (LIST_FOREACH (memory s) (alist_list (alist_at s) (i32 tag)) 0) (\<lambda>tps.
          let tot = length tps + countFds (i32 tag) s;
              key = KEYBASE + pid s;
              nothing = (\<lambda>t. Some (Inr (sendMgr CMD_REPORT 0 (int_of (curalloc s)) t)))
          in if tot = 0 then nothing s
             else case shm_get key (tot * RPTSLOTSIZE + 4) s of
               (None, s1) \<Rightarrow> nothing s1
             | (Some g, s1) \<Rightarrow>
                 case shm_at s1 of (ok, s2) \<Rightarrow>
                   if \<not> ok then nothing (shm_rmid key s2)
                   else
                     (let g0 = seg_write g 0 (bytes32 (curalloc s));
                          (newtot, pos, g1) = put_blocks (memory s) tps 0 tot 4 g0;
                          g2 = addFds (take (nat MAXFDS) (fds s)) pos RPTSLOTSIZE newtot tot (i32 tag) g1
                      in Some (Inr (sendMgr CMD_REPORT 1 (int_of (curalloc s))
                                      (s2\<lparr>segs := (segs s2)(key \<mapsto> g2)\<rparr>))))))"

definition report :: "lib \<Rightarrow> (fault + lib) option" where
  "report s =
     (let tag = sendReport s - 1; s1 = s\<lparr>sendReport := 0\<rparr>
      in libSendReport (if tag = TAGCUR then int_of (alloctag s1) else tag) s1)"


section \<open>The communication thread\<close>

text \<open>
  \<^verbatim>\<open>talkWithManager\<close> never returns: it serves commands until receiving one fails, then tries to
  reconnect once a second. One step of it is one iteration of the loop it is in; while the manager
  is silent the thread waits, \<open>Inl Blocked\<close>.
\<close>

datatype talk_phase = Serving | Reconnecting

definition talkWithManager :: "talk_phase \<Rightarrow> lib \<Rightarrow> (fault + talk_phase \<times> lib) option" where
  "talkWithManager ph s =
     (case ph of
        Serving \<Rightarrow>
          (case client_rcv s of
             Inl f \<Rightarrow> Some (Inl f)
           | Inr (v, s1) \<Rightarrow>
             if v \<ge> 0 then
               (if sendReport s1 \<noteq> 0
                then map_option (\<lambda>r. bindE r (\<lambda>s2. Inr (Serving, s2))) (report s1)
                else Some (Inr (Serving, s1)))
             else Some (Inr (Reconnecting, (snd (closeFd (sock s1) s1))\<lparr>sock := -1\<rparr>)))
      | Reconnecting \<Rightarrow>
          (case connectToMgr 0 s of (ok, s1) \<Rightarrow>
             Some (Inr (if ok then Serving else Reconnecting, s1))))"

section \<open>What the segment holds\<close>

lemma seg_write_at:
  assumes "length a = pos" and "length b = length c"
  shows "seg_write (a @ c @ d) pos b = a @ b @ d"
  using assms by (simp add: seg_write_def)

text \<open>The words of a slot for a block and for a descriptor.\<close>

definition block_slot :: "mem \<Rightarrow> u32 \<Rightarrow> u32 list" where
  "block_slot m tp = [ld32 m (tp + o_size), RESTYPE_MEMORY] @ ld_words m (tp + o_callers) MAXCALLERS"

definition fd_slot :: "fd_t \<Rightarrow> u32 list" where
  "fd_slot e = [1, RESTYPE_FILE] @ opener e @ replicate 4 0"

lemma bit_u8_beyond: "\<not> bit (v :: u8) (8 + n)" "\<not> bit (v :: u8) (16 + n)" "\<not> bit (v :: u8) (24 + n)"
  using bit_imp_le_length [of v] by fastforce+

lemma bytes32_word32: "length b = 4 \<Longrightarrow> bytes32 (word32 b) = b"
proof -
  assume "length b = 4"
  then obtain w x y z where b: "b = [w, x, y, z]" using length4_Cons by blast
  show ?thesis
    unfolding b by (simp add: bytes32_def word32_def) (auto intro!: bit_word_eqI simp: bit_simps bit_u8_beyond)
qed

lemma mem_read_append: "mem_read m a (n + k) = mem_read m a n @ mem_read m (a + of_nat n) k"
  by (induction k) (simp_all add: mem_read_def add.assoc)

lemma mem_read_words: "mem_read m a (4 * n) = concat (map bytes32 (ld_words m a n))"
proof (induction n)
  case 0
  then show ?case by (simp add: mem_read_def ld_words_def)
next
  case (Suc n)
  have "mem_read m (a + 4 * of_nat n) 4 = bytes32 (ld32 m (a + 4 * of_nat n))"
    by (simp add: ld32_def bytes32_word32)
  moreover have "mem_read m a (4 * Suc n) = mem_read m a (4 * n) @ mem_read m (a + 4 * of_nat n) 4"
    using mem_read_append [of m a "4 * n" 4] by (simp add: add.commute)
  ultimately show ?case using Suc by (simp add: ld_words_def)
qed

lemma slot_pieces:
  assumes "length c = 48"
  obtains c1 c2 c3 where "c = c1 @ c2 @ c3" "length c1 = 4" "length c2 = 4" "length c3 = 40"
proof
  show "c = take 4 c @ take 4 (drop 4 c) @ drop 8 c"
    using append_take_drop_id [of 4 c] append_take_drop_id [of 4 "drop 4 c"] by simp
qed (use assms in simp_all)

lemma put_block_slot:
  assumes "length a = pos" and "length c = 48"
  shows "put_block m tp pos (a @ c @ d) = a @ enc_slot (block_slot m tp) @ d"
proof -
  from slot_pieces [OF assms(2)] obtain c1 c2 c3
    where c: "c = c1 @ c2 @ c3" "length c1 = 4" "length c2 = 4" "length c3 = 40" .
  let ?w = "mem_read m (tp + o_callers) (4 * MAXCALLERS)"
  have "seg_write (a @ c @ d) (pos + 8) ?w = a @ c1 @ c2 @ ?w @ d"
    using seg_write_at [of "a @ c1 @ c2" "pos + 8" ?w c3 d] assms c by (simp add: MAXCALLERS_def)
  moreover have "seg_write (a @ c1 @ c2 @ ?w @ d) pos b = a @ b @ c2 @ ?w @ d" if "length b = 4" for b
    using seg_write_at [of a pos b c1 "c2 @ ?w @ d"] assms c that by simp
  moreover have "seg_write (a @ b @ c2 @ ?w @ d) (pos + 4) e = a @ b @ e @ ?w @ d"
    if "length b = 4" "length e = 4" for b e
    using seg_write_at [of "a @ b" "pos + 4" e c2 "?w @ d"] assms c that by simp
  ultimately show ?thesis
    by (simp add: put_block_def enc_slot_def block_slot_def mem_read_words)
qed

lemma put_blocks_slots:
  assumes "length a = pos" and "length c = 48 * length tps" and "newtot + length tps \<le> tot"
  shows "put_blocks m tps newtot tot pos (a @ c @ d) =
    (newtot + length tps, pos + 48 * length tps, a @ concat (map (enc_slot \<circ> block_slot m) tps) @ d)"
  using assms
proof (induction tps arbitrary: a c newtot pos)
  case Nil
  then show ?case by simp
next
  case (Cons tp tps)
  obtain c1 c2 where c: "c = c1 @ c2" "length c1 = 48" "length c2 = 48 * length tps"
    using Cons.prems(2) append_take_drop_id [of 48 c] by (metis add_diff_cancel_left' length_Cons
        length_append length_drop length_take min.absorb2 le_add1 mult_Suc_right)
  have e: "length (enc_slot (block_slot m tp)) = 48"
    by (rule slot.length_enc) (simp add: block_slot_def MAXCALLERS_def)
  show ?case
    using Cons.IH [of "a @ enc_slot (block_slot m tp)" "pos + 48" c2 "Suc newtot"] Cons.prems c e
      put_block_slot [of a pos c1 m tp "c2 @ d"]
    by simp
qed


definition put_fd :: "fd_t \<Rightarrow> nat \<Rightarrow> nat \<Rightarrow> bytes \<Rightarrow> bytes" where
  "put_fd e pos sizeslot g =
     (let mx = (if sizeslot < RPTSLOTSIZE_FD then sizeslot else RPTSLOTSIZE_FD);
          g1 = seg_write g (pos + 8) (take (mx - 8) (concat (map bytes32 (opener e))));
          g2 = seg_write g1 pos (bytes32 1)
      in seg_write g2 (pos + 4) (bytes32 RESTYPE_FILE))"

lemma put_fd_slot:
  assumes "length a = pos" and "length (opener e) = MAXOPENERS"
  shows "put_fd e pos 48 (a @ replicate 48 0 @ d) = a @ enc_slot (fd_slot e) @ d"
proof -
  let ?w = "concat (map bytes32 (opener e))" and ?z = "\<lambda>n. replicate n (0 :: u8)"
  have w: "length ?w = 24" "take 24 ?w = ?w" using assms(2) by (simp_all add: MAXOPENERS_def)
  have z: "?z 48 = ?z 4 @ ?z 4 @ ?z 24 @ ?z 16" by (simp flip: replicate_add)
  have z16: "?z 16 = concat (map bytes32 (replicate 4 0))" by code_simp
  have "seg_write (a @ ?z 48 @ d) (pos + 8) ?w = a @ ?z 4 @ ?z 4 @ ?w @ ?z 16 @ d"
    using seg_write_at [of "a @ ?z 4 @ ?z 4" "pos + 8" ?w "?z 24" "?z 16 @ d"] assms(1) w by (simp add: z)
  moreover have "seg_write (a @ ?z 4 @ ?z 4 @ ?w @ ?z 16 @ d) pos b = a @ b @ ?z 4 @ ?w @ ?z 16 @ d"
    if "length b = 4" for b
    using seg_write_at [of a pos b "?z 4" "?z 4 @ ?w @ ?z 16 @ d"] assms(1) that by simp
  moreover have "seg_write (a @ b @ ?z 4 @ ?w @ ?z 16 @ d) (pos + 4) x = a @ b @ x @ ?w @ ?z 16 @ d"
    if "length b = 4" "length x = 4" for b x
    using seg_write_at [of "a @ b" "pos + 4" x "?z 4" "?w @ ?z 16 @ d"] assms(1) that by simp
  ultimately show ?thesis
    using w by (simp add: put_fd_def enc_slot_def fd_slot_def z16)
qed

definition tag_fds :: "u32 \<Rightarrow> fd_t list \<Rightarrow> fd_t list" where
  "tag_fds t es = filter (\<lambda>e. inUse e \<noteq> 0 \<and> fdtag e = t) es"

lemma addFds_slots:
  assumes "length a = pos" and "\<forall>e\<in>set es. length (opener e) = MAXOPENERS"
    and "curpos + length (tag_fds t es) \<le> maxpos"
  shows "addFds es pos 48 curpos maxpos t (a @ replicate (48 * length (tag_fds t es)) 0 @ d) =
    a @ concat (map (enc_slot \<circ> fd_slot) (tag_fds t es)) @ d"
  using assms
proof (induction es arbitrary: a curpos pos)
  case Nil
  then show ?case by (simp add: tag_fds_def)
next
  case (Cons e es)
  show ?case
  proof (cases "inUse e \<noteq> 0 \<and> fdtag e = t")
    case False
    then have "tag_fds t (e # es) = tag_fds t es" by (auto simp: tag_fds_def)
    moreover from this have "tag_fds t es = []" if "\<not> curpos < maxpos"
    proof -
      have "length (tag_fds t es) = 0"
        using Cons.prems(3) that unfolding \<open>tag_fds t (e # es) = _\<close> by linarith
      then show ?thesis by simp
    qed
    ultimately show ?thesis using Cons.IH [of a pos curpos] Cons.prems False by auto
  next
    case True
    then have t: "tag_fds t (e # es) = e # tag_fds t es" by (simp add: tag_fds_def)
    let ?n = "48 * length (tag_fds t es)"
    have lt: "curpos < maxpos" using Cons.prems(3) t by simp
    have s: "length (enc_slot (fd_slot e)) = 48"
      by (rule slot.length_enc) (use Cons.prems in \<open>simp add: fd_slot_def MAXOPENERS_def\<close>)
    have "addFds (e # es) pos 48 curpos maxpos t g = addFds es (pos + 48) 48 (Suc curpos) maxpos t (put_fd e pos 48 g)"
      for g using True lt by (simp add: put_fd_def Let_def)
    moreover have "replicate (48 + ?n) (0::u8) = replicate 48 0 @ replicate ?n 0"
      by (rule replicate_add)
    ultimately show ?thesis
      using Cons.IH [of "a @ enc_slot (fd_slot e)" "pos + 48" "Suc curpos"] Cons.prems s t
        put_fd_slot [of a pos e "replicate ?n 0 @ d"]
      by (simp del: addFds.simps)
  qed
qed

lemma sendMgr_more: "os.more (sendMgr c a b s) = os.more (s\<lparr>seqno := seqno (sendMgr c a b s)\<rparr>)"
proof -
  obtain ok s1 where k: "sendCmdMore (sock s) (int_of (seqno s)) c a b 0 None [] s = (ok, s1)" by force
  obtain v sq s2 where r: "recvAck (sock s1) (seqno s1) s1 = ((v, sq), s2)" by (metis prod.collapse)
  have "os.more s1 = os.more s" "os.more s2 = os.more s1"
    using sendCmdMore_more [OF k] recvAck_more [OF r] by simp_all
  then show ?thesis
    using k r by (cases s; cases s1; cases s2) (auto simp: sendMgr_def sendCmd2_def)
qed

lemma sendMgr_segs [simp]: "segs (sendMgr c a b s) = segs s"
  using lib_of_more(22) [OF sendMgr_more [of c a b s]] by simp


section \<open>Properties\<close>

definition report_slots :: "lib \<Rightarrow> blk list \<Rightarrow> u32 \<Rightarrow> u32 list list" where
  "report_slots s B t =
     map (block_slot (memory s)) (map blk_tp (tagged t B)) @ map fd_slot (tag_fds t (fds s))"

text \<open>
  C16. The report segment: on a fresh key the segment \<^verbatim>\<open>libSendReport\<close> leaves for the manager holds
  the amount allocated followed by exactly one slot per tracked live block of the tag, with its
  size and its back trace, and one per open descriptor of the tag; with nothing to report no
  segment is made.
\<close>

theorem report_segment:
  assumes i: "heap_inv s B" and f: "fds_ok s" and t: "0 \<le> tag" "tag < int MAXTAGS"
    and k: "segs s (KEYBASE + pid s) = None" "shmgets s = []" "shmats s = []"
  shows "\<exists>s'. libSendReport tag s = Some (Inr s') \<and>
    segs s' (KEYBASE + pid s) =
      (let sl = report_slots s B (i32 tag) in
       if sl = [] then None
       else Some (bytes32 (curalloc s) @ concat (map enc_slot sl)))"
proof -
  let ?t = "i32 tag" and ?key = "KEYBASE + pid s"
  let ?tps = "map blk_tp (tagged ?t B)" and ?F = "tag_fds ?t (fds s)"
  have ut: "unat ?t < MAXTAGS"
    using t by (simp add: i32_def MAXTAGS_def unsigned_of_int take_bit_int_eq_self nat_less_iff)
  have "dlist (memory s) 0 (alist_list (alist_at s) ?t) ?tps"
    using i ut by (simp add: heap_inv_def mem_ok_def)
  then have tr: "LIST_FOREACH (memory s) (alist_list (alist_at s) ?t) 0 = Some ?tps"
    by (rule LIST_FOREACH_dlist)
  have fd: "take (nat MAXFDS) (fds s) = fds s" "\<forall>e\<in>set (fds s). length (opener e) = MAXOPENERS"
    using f by (simp_all add: fds_ok_def)
  then have cnt: "countFds ?t s = length ?F" by (simp add: countFds_def tag_fds_def)
  show ?thesis
  proof (cases "length ?tps + length ?F = 0")
    case True
    then show ?thesis
      using t k by (simp add: libSendReport_def tr cnt report_slots_def)
  next
    case False
    let ?n = "length ?tps" and ?k = "length ?F" and ?cur = "bytes32 (curalloc s)"
    let ?s1 = "s\<lparr>segs := (segs s)(?key \<mapsto> replicate ((?n + ?k) * 48 + 4) 0)\<rparr>"
    let ?A = "concat (map (enc_slot \<circ> block_slot (memory s)) ?tps)"
    let ?Z = "\<lambda>m. replicate m (0 :: u8)"
    have z: "?Z ((?n + ?k) * 48 + 4) = [] @ ?Z 4 @ ?Z (48 * ?n) @ ?Z (48 * ?k)"
      by (simp flip: replicate_add)
    have g0: "seg_write (?Z ((?n + ?k) * 48 + 4)) 0 ?cur = ?cur @ ?Z (48 * ?n) @ ?Z (48 * ?k)"
      unfolding z by (subst seg_write_at) simp_all
    have la: "length ?A = 48 * ?n"
    proof -
      have "length (concat (map enc_slot (map (block_slot (memory s)) ?tps))) = 48 * length (map (block_slot (memory s)) ?tps)"
        by (rule slot.length_pack) (simp add: block_slot_def MAXCALLERS_def)
      then show ?thesis by (simp add: comp_def)
    qed
    have pb: "put_blocks (memory s) ?tps 0 (?n + ?k) 4 (?cur @ ?Z (48 * ?n) @ ?Z (48 * ?k)) =
        (?n, 4 + 48 * ?n, ?cur @ ?A @ ?Z (48 * ?k))"
      by (subst put_blocks_slots) simp_all
    have af: "addFds (fds s) (4 + 48 * ?n) 48 ?n (?n + ?k) ?t (?cur @ ?A @ ?Z (48 * ?k)) =
        ?cur @ ?A @ concat (map (enc_slot \<circ> fd_slot) ?F)"
      using addFds_slots [of "?cur @ ?A" "4 + 48 * ?n" "fds s" ?n ?t "?n + ?k" "[]"] fd la by simp
    have get: "shm_get ?key ((?n + ?k) * 48 + 4) s = (Some (?Z ((?n + ?k) * 48 + 4)), ?s1)"
      using k by (simp add: shm_get_def)
    have "libSendReport tag s = Some (Inr (sendMgr CMD_REPORT 1 (int_of (curalloc s))
        (?s1\<lparr>segs := (segs ?s1)(?key \<mapsto> ?cur @ ?A @ concat (map (enc_slot \<circ> fd_slot) ?F))\<rparr>)))"
      using t k if_not_P [OF False] unfolding libSendReport_def tr cnt Let_def bind.bind_lunit slot_sizes get fd(1)
      using False by (auto simp: shm_at_def g0 [simplified] pb [simplified] af [simplified])
    then show ?thesis using False by (simp add: report_slots_def Let_def comp_def)
  qed
qed



theorem report_segment_witness:
  "\<exists>s'. libSendReport 3 lib1 = Some (Inr s') \<and>
     segs s' (KEYBASE + 77) = Some (bytes32 12 @ enc_slot (block_slot (memory lib1) (blk_tp blk0)))"
proof -
  have f: "fds_ok lib1" "tag_fds 3 (fds lib1) = []" "pid lib1 = 77" "segs lib1 = (\<lambda>_. None)"
    "shmgets lib1 = []" "shmats lib1 = []" "curalloc lib1 = 12"
    by (simp_all add: lib1_def alloc_post_def lib0_def fds_ok_def MAXFDS_def empty_fd_def tag_fds_def
        trxAlign_def)
  have "i32 3 = 3" "tagged 3 [blk0] = [blk0]" by (simp_all add: i32_def tagged_def blk0_def new_blk_def)
  then show ?thesis
    using report_segment [OF lib1_inv f(1), of 3] f by (simp add: MAXTAGS_def report_slots_def)
qed

end
