(* ===== verification/Trx_Tree.thy ===== *)
theory Trx_Tree imports Trx_Report Trx_Printf "HOL-Library.List_Lexorder" "HOL-Library.Multiset"
begin

text \<open>
  \<^verbatim>\<open>trxTree.c\<close> and the ordering of back traces in \<^verbatim>\<open>trxmgrClient.c\<close>: the entries of a report,
  sorted by their callers, are printed as an indented hierarchy, one line for each call path with
  the bytes allocated below it. An entry is the twelve words of a slot: size, type, callers. The
  lemmas relate the index code to a recursion over lists and show what a sorted report prints.
\<close>

section \<open>Ordering the entries\<close>

type_synonym entry = "u32 list"

definition callers :: "entry \<Rightarrow> u32 list" where
  "callers t = take MAXCALLERS (drop 2 t)"

text \<open>The comparison loop, from word \<open>pc\<close> on.\<close>

function cmp_from :: "nat \<Rightarrow> entry \<Rightarrow> entry \<Rightarrow> int" where
  "cmp_from pc t1 t2 =
     (if pc < MAXCALLERS + 2 then
        (if t1 ! pc < t2 ! pc then -1 else if t1 ! pc > t2 ! pc then 1 else cmp_from (pc + 1) t1 t2)
      else 0)"
  by pat_completeness auto
termination by (relation "measure (\<lambda>(pc, _). MAXCALLERS + 2 - pc)") auto

declare cmp_from.simps [simp del]

definition cmpBackTraces :: "entry \<Rightarrow> entry \<Rightarrow> int" where
  "cmpBackTraces t1 t2 = cmp_from 2 t1 t2"

text \<open>
  \<^verbatim>\<open>qsort\<close> leaves some permutation that is sorted by the comparison; the properties below hold of every
  one. The one the model computes inserts each entry before the later ones it ties with.
\<close>

definition by_qsort :: "entry list \<Rightarrow> entry list \<Rightarrow> bool" where
  "by_qsort ts vs \<longleftrightarrow> mset vs = mset ts \<and> sorted_wrt (\<lambda>t u. cmpBackTraces t u \<le> 0) vs"

fun qs_insert :: "entry \<Rightarrow> entry list \<Rightarrow> entry list" where
  "qs_insert t [] = [t]"
| "qs_insert t (u # us) = (if cmpBackTraces t u \<le> 0 then t # u # us else u # qs_insert t us)"

definition qsort :: "entry list \<Rightarrow> entry list" where
  "qsort ts = foldr qs_insert ts []"

section \<open>Printing the hierarchy\<close>

definition typeChar :: "u32 \<Rightarrow> char" where
  "typeChar ty = (if ty = RESTYPE_MEMORY then CHR ''m'' else if ty = RESTYPE_FILE then CHR ''f''
                  else CHR ''?'')"

text \<open>\<^verbatim>\<open>for(i=idx+1; i<maxEntry; i++) { if(...) break; size += t2[0]; }\<close>\<close>

function span_end :: "entry list \<Rightarrow> nat \<Rightarrow> nat \<Rightarrow> nat \<Rightarrow> u32 \<Rightarrow> u32 \<Rightarrow> nat \<times> u32" where
  "span_end vec i maxEntry col key sz =
     (if i < maxEntry then
        (if vec ! i ! col \<noteq> key then (i, sz)
         else span_end vec (i + 1) maxEntry col key (sz + vec ! i ! 0))
      else (i, sz))"
  by pat_completeness auto
termination by (relation "measure (\<lambda>(vec, i, maxEntry, _). maxEntry - i)") auto

declare span_end.simps [simp del]

lemma span_end_ge: "span_end vec i maxEntry col key sz = (j, sz') \<Longrightarrow> i \<le> j"
proof (induction vec i maxEntry col key sz rule: span_end.induct)
  case (1 vec i maxEntry col key sz)
  then show ?case
    by (subst (asm) span_end.simps [of vec i]) (fastforce split: if_splits)
qed

text \<open>One output line: the caller, the bytes below it, and at the outermost level the type.\<close>

definition tree_line :: "nat \<Rightarrow> entry \<Rightarrow> u32 \<Rightarrow> prt" where
  "tree_line indent t sz =
     (''%*s0x%08x [%d] %c'' @ [CHR 0x0A],
      [PInt (int indent * 4), PStr [], PInt (uint (t ! (indent + 2))), PInt (int_of sz),
       PChr (if indent \<noteq> 0 then CHR '' '' else typeChar (t ! 1))])"

function diveAndPrint ::
  "bool \<Rightarrow> nat \<Rightarrow> nat \<Rightarrow> nat \<Rightarrow> entry list \<Rightarrow> u32 \<Rightarrow> prt list \<times> u32" where
  "diveAndPrint summary idx indent maxEntry vec tot =
     (let t1 = vec ! idx in
      if t1 ! (indent + 2) = 0 then ([], tot)
      else case span_end vec (idx + 1) maxEntry (indent + 2) (t1 ! (indent + 2)) (t1 ! 0) of (i, sz) \<Rightarrow>
        (let tot1 = (if indent = 0 then tot + sz else tot);
             line = (if \<not> summary \<and> int_of sz > 0 then [tree_line indent t1 sz] else []);
             below = (if indent < MAXCALLERS - 1
                      then fst (diveAndPrint summary idx (indent + 1) i vec 0) else []);
             rest = (if i < maxEntry then diveAndPrint summary i indent maxEntry vec tot1
                     else ([], tot1))
         in (line @ below @ fst rest, snd rest)))"
  by pat_completeness auto
termination
proof (relation "measures [\<lambda>(s, idx, indent, m, v, t). MAXCALLERS - indent,
                           \<lambda>(s, idx, indent, m, v, t). m - idx]", goal_cases)
  case 3
  then show ?case by (auto dest!: span_end_ge [OF sym])
qed auto

declare diveAndPrint.simps [simp del]

text \<open>An empty vector makes \<^verbatim>\<open>diveAndPrint\<close> read its first element all the same.\<close>

definition buildShowTree :: "bool \<Rightarrow> entry list \<Rightarrow> fault + prt list \<times> u32" where
  "buildShowTree summary vec =
     (if vec = [] then Inl OutOfBounds else Inr (diveAndPrint summary 0 0 (length vec) vec 0))"

section \<open>The hierarchy over lists\<close>

text \<open>
  The lines in order, each with its level, the first entry it stands for and the bytes below it.
\<close>

abbreviation col_of :: "nat \<Rightarrow> entry \<Rightarrow> u32" where
  "col_of indent e \<equiv> e ! (indent + 2)"

definition same :: "nat \<Rightarrow> entry \<Rightarrow> entry list \<Rightarrow> entry list" where
  "same indent e es = takeWhile (\<lambda>x. col_of indent x = col_of indent e) es"

definition others :: "nat \<Rightarrow> entry \<Rightarrow> entry list \<Rightarrow> entry list" where
  "others indent e es = dropWhile (\<lambda>x. col_of indent x = col_of indent e) es"

lemma length_others: "length (others indent e es) \<le> length es"
  by (simp add: others_def length_dropWhile_le)

definition bytes_below :: "entry list \<Rightarrow> u32" where
  "bytes_below es = sum_list (map (\<lambda>e. e ! 0) es)"

function tree_lines :: "nat \<Rightarrow> entry list \<Rightarrow> (nat \<times> entry \<times> u32) list" where
  "tree_lines indent [] = []"
| "tree_lines indent (e # es) =
     (if col_of indent e = 0 then []
      else (indent, e, bytes_below (e # same indent e es)) #
           (if indent < MAXCALLERS - 1 then tree_lines (indent + 1) (e # same indent e es) else []) @
           tree_lines indent (others indent e es))"
  by pat_completeness auto
termination
  by (relation "measures [\<lambda>(indent, es). MAXCALLERS - indent, \<lambda>(indent, es). length es]")
    (auto simp: le_imp_less_Suc length_others)

declare tree_lines.simps [simp del]

section \<open>The index code computes the list recursion\<close>

definition slice :: "'a list \<Rightarrow> nat \<Rightarrow> nat \<Rightarrow> 'a list" where
  "slice xs i j = take (j - i) (drop i xs)"

lemma slice_Cons: "i < j \<Longrightarrow> j \<le> length xs \<Longrightarrow> slice xs i j = xs ! i # slice xs (i + 1) j"
  by (simp add: slice_def Cons_nth_drop_Suc [symmetric] take_Cons' Suc_diff_Suc)

lemma slice_empty [simp]: "j \<le> i \<Longrightarrow> slice xs i j = []"
  by (simp add: slice_def)

lemma length_slice [simp]: "j \<le> length xs \<Longrightarrow> length (slice xs i j) = j - i"
  by (simp add: slice_def)

lemma slice_split:
  assumes "i \<le> j" and "j \<le> k" and "slice xs i k = a @ b" and "length a = j - i" and "k \<le> length xs"
  shows "slice xs i j = a" and "slice xs j k = b"
proof -
  have "take (j - i) (slice xs i k) = slice xs i j" "drop (j - i) (slice xs i k) = slice xs j k"
    using assms(1,2) by (simp_all add: slice_def drop_take min_def)
  with assms(3,4) show "slice xs i j = a" "slice xs j k = b" by auto
qed

lemma bytes_below_simps [simp]:
  "bytes_below [] = 0" "bytes_below (e # es) = e ! 0 + bytes_below es"
  "bytes_below (es @ fs) = bytes_below es + bytes_below fs"
  by (simp_all add: bytes_below_def)

lemma span_end_slice:
  assumes "i \<le> maxEntry" and "maxEntry \<le> length vec"
  shows "span_end vec i maxEntry col key sz =
    (let g = takeWhile (\<lambda>x. x ! col = key) (slice vec i maxEntry)
     in (i + length g, sz + bytes_below g))"
  using assms
proof (induction vec i maxEntry col key sz rule: span_end.induct)
  case (1 vec i maxEntry col key sz)
  show ?case
  proof (cases "i < maxEntry")
    case False
    with "1.prems" show ?thesis by (subst span_end.simps) simp
  next
    case True
    with "1.prems" have "slice vec i maxEntry = vec ! i # slice vec (i + 1) maxEntry"
      by (intro slice_Cons) simp_all
    with True "1.IH" "1.prems" show ?thesis
      by (subst span_end.simps) (simp add: Let_def ac_simps)
  qed
qed

text \<open>What is printed of the lines, and the tally of the outermost level.\<close>

definition print_lines :: "bool \<Rightarrow> (nat \<times> entry \<times> u32) list \<Rightarrow> prt list" where
  "print_lines summary ls =
     (if summary then []
      else map (\<lambda>(d, e, sz). tree_line d e sz) (filter (\<lambda>(d, e, sz). int_of sz > 0) ls))"

definition tally :: "(nat \<times> entry \<times> u32) list \<Rightarrow> u32" where
  "tally ls = sum_list (map (\<lambda>(d, e, sz). sz) (filter (\<lambda>(d, e, sz). d = 0) ls))"

lemma print_lines_simps [simp]:
  "print_lines summary [] = []"
  "print_lines summary (a @ b) = print_lines summary a @ print_lines summary b"
  "print_lines summary ((d, e, sz) # ls) =
     (if \<not> summary \<and> int_of sz > 0 then [tree_line d e sz] else []) @ print_lines summary ls"
  by (simp_all add: print_lines_def)

lemma tally_simps [simp]:
  "tally [] = 0" "tally (a @ b) = tally a + tally b"
  "tally ((d, e, sz) # ls) = (if d = 0 then sz else 0) + tally ls"
  by (simp_all add: tally_def)

lemma tree_lines_level: "x \<in> set (tree_lines indent es) \<Longrightarrow> indent \<le> fst x"
proof (induction indent es arbitrary: x rule: tree_lines.induct)
  case (2 indent e es)
  from "2.prems" have "x = (indent, e, bytes_below (e # same indent e es)) \<and> col_of indent e \<noteq> 0 \<or>
    x \<in> set (tree_lines (indent + 1) (e # same indent e es)) \<and> col_of indent e \<noteq> 0 \<and>
      indent < MAXCALLERS - 1 \<or>
    x \<in> set (tree_lines indent (others indent e es)) \<and> col_of indent e \<noteq> 0"
    by (subst (asm) tree_lines.simps(2)) (auto split: if_splits)
  then show ?case using "2.IH" by fastforce
qed (simp add: tree_lines.simps(1))

lemma tally_inner:
  assumes "0 < indent"
  shows "tally (tree_lines indent es) = 0"
proof -
  have "filter (\<lambda>(d, e, sz). d = 0) (tree_lines indent es) = []"
    using assms tree_lines_level [of _ indent es] by (fastforce simp: filter_empty_conv)
  then show ?thesis by (simp add: tally_def)
qed

lemma diveAndPrint_lines:
  assumes "idx < maxEntry" and "maxEntry \<le> length vec"
  shows "diveAndPrint summary idx indent maxEntry vec tot =
    (print_lines summary (tree_lines indent (slice vec idx maxEntry)),
     tot + tally (tree_lines indent (slice vec idx maxEntry)))"
  using assms
proof (induction summary idx indent maxEntry vec tot rule: diveAndPrint.induct)
  case (1 summary idx indent maxEntry vec tot)
  let ?e = "vec ! idx"
  let ?r = "slice vec (idx + 1) maxEntry"
  let ?g = "same indent ?e ?r"
  define i where "i = idx + 1 + length ?g"
  define sz where "sz = bytes_below (?e # ?g)"
  have sl: "slice vec idx maxEntry = ?e # ?r" using "1.prems" by (intro slice_Cons) simp_all
  have split: "?r = ?g @ others indent ?e ?r" by (simp add: same_def others_def)
  have i: "idx < i" "i \<le> maxEntry"
    using "1.prems" length_takeWhile_le [of "\<lambda>x. col_of indent x = col_of indent ?e" ?r]
    by (simp_all add: i_def same_def)
  have "slice vec idx maxEntry = (?e # ?g) @ others indent ?e ?r" using sl split by simp
  from slice_split [OF _ i(2) this] i "1.prems"
  have s1: "slice vec idx i = ?e # ?g" and s2: "slice vec i maxEntry = others indent ?e ?r"
    by (simp_all add: i_def)
  have sp: "span_end vec (idx + 1) maxEntry (indent + 2) (?e ! (indent + 2)) (?e ! 0) = (i, sz)"
    using "1.prems" by (simp add: span_end_slice Let_def i_def sz_def same_def)
  show ?case
  proof (cases "col_of indent ?e = 0")
    case True
    then have "tree_lines indent (?e # ?r) = []" by (subst tree_lines.simps(2)) simp
    with True sl show ?thesis by (subst diveAndPrint.simps) simp
  next
    case False
    let ?tot1 = "if indent = 0 then tot + sz else tot"
    have below: "indent < MAXCALLERS - 1 \<Longrightarrow> fst (diveAndPrint summary idx (indent + 1) i vec 0) =
        print_lines summary (tree_lines (indent + 1) (?e # ?g))"
      using "1.IH"(1) [OF refl False sp [symmetric] refl refl] i "1.prems" s1 by simp
    have rest: "i < maxEntry \<Longrightarrow> diveAndPrint summary i indent maxEntry vec ?tot1 =
        (print_lines summary (tree_lines indent (others indent ?e ?r)),
         ?tot1 + tally (tree_lines indent (others indent ?e ?r)))"
      using "1.IH"(2) [OF refl False sp [symmetric] refl refl] i "1.prems" s2 by simp
    have rest': "(if i < maxEntry then diveAndPrint summary i indent maxEntry vec ?tot1 else ([], ?tot1)) =
        (print_lines summary (tree_lines indent (others indent ?e ?r)),
         ?tot1 + tally (tree_lines indent (others indent ?e ?r)))"
    proof (cases "i < maxEntry")
      case False
      then have "others indent ?e ?r = []" using s2 by simp
      with False show ?thesis by (simp add: tree_lines.simps(1))
    qed (simp add: rest)
    let ?inner = "if indent < MAXCALLERS - 1 then tree_lines (indent + 1) (?e # ?g) else []"
    have below': "(if indent < MAXCALLERS - 1
        then fst (diveAndPrint summary idx (indent + 1) i vec 0) else []) = print_lines summary ?inner"
      using below by simp
    have inner: "tally ?inner = 0" using tally_inner [of "indent + 1"] by simp
    have step: "tree_lines indent (slice vec idx maxEntry) =
        (indent, ?e, sz) # ?inner @ tree_lines indent (others indent ?e ?r)"
      unfolding sl by (subst tree_lines.simps(2)) (use False in \<open>simp add: sz_def\<close>)
    show ?thesis
      unfolding step
      by (subst diveAndPrint.simps)
        (simp only: Let_def False if_False sp prod.case below' rest' fst_conv snd_conv
          print_lines_simps tally_simps inner, simp add: False sp)
  qed
qed

section \<open>The order of the entries\<close>

lemma MAXCALLERS_10 [simp]: "MAXCALLERS = 10"
  by (simp add: MAXCALLERS_def)

lemma cmp_from_lists:
  assumes "length t1 = 12" and "length t2 = 12" and "pc \<le> 12"
  shows "cmp_from pc t1 t2 =
    (if drop pc t1 < drop pc t2 then -1 else if drop pc t2 < drop pc t1 then 1 else 0)"
  using assms
proof (induction pc t1 t2 rule: cmp_from.induct)
  case (1 pc t1 t2)
  show ?case
  proof (cases "pc < 12")
    case True
    with "1.prems" have "drop pc t1 = t1 ! pc # drop (pc + 1) t1" "drop pc t2 = t2 ! pc # drop (pc + 1) t2"
      by (simp_all add: Cons_nth_drop_Suc)
    with True "1.IH" "1.prems" show ?thesis by (subst cmp_from.simps) auto
  next
    case False
    with "1.prems" show ?thesis by (subst cmp_from.simps) simp
  qed
qed

lemma callers_12: "length t = 12 \<Longrightarrow> callers t = drop 2 t"
  by (simp add: callers_def)

lemma cmpBackTraces_le:
  assumes "length t1 = 12" and "length t2 = 12"
  shows "cmpBackTraces t1 t2 \<le> 0 \<longleftrightarrow> callers t1 \<le> callers t2"
  using assms by (simp add: cmpBackTraces_def cmp_from_lists callers_12 linorder_not_less) auto

definition full_entry :: "entry \<Rightarrow> bool" where
  "full_entry t \<longleftrightarrow> length t = 12"

lemma qs_insert_props:
  assumes "full_entry t" and "\<forall>u\<in>set us. full_entry u" and "sorted (map callers us)"
  shows "sorted (map callers (qs_insert t us)) \<and> mset (qs_insert t us) = add_mset t (mset us)"
  using assms
proof (induction us)
  case (Cons u us)
  then have le: "cmpBackTraces t u \<le> 0 \<longleftrightarrow> callers t \<le> callers u"
    by (intro cmpBackTraces_le) (simp_all add: full_entry_def)
  from Cons have IH: "sorted (map callers (qs_insert t us))" "mset (qs_insert t us) = add_mset t (mset us)"
    by simp_all
  then have "set (qs_insert t us) = insert t (set us)" by (metis set_mset_add_mset_insert set_mset_mset)
  with IH Cons.prems le show ?case by auto
qed simp

lemma qsort_props:
  "\<forall>t\<in>set ts. full_entry t \<Longrightarrow> sorted (map callers (qsort ts)) \<and> mset (qsort ts) = mset ts"
proof (induction ts)
  case (Cons t ts)
  then have IH: "sorted (map callers (qsort ts))" "mset (qsort ts) = mset ts" by simp_all
  then have "\<forall>u\<in>set (qsort ts). full_entry u" using Cons.prems by (metis mset_eq_setD list.set_intros(2))
  with qs_insert_props [of t "qsort ts"] IH Cons.prems show ?case by (simp add: qsort_def)
qed (simp add: qsort_def)

lemma by_qsortD:
  assumes "by_qsort ts vs" and "\<forall>t\<in>set ts. full_entry t"
  shows "mset vs = mset ts" "set vs = set ts" "sorted (map callers vs)"
proof -
  show m: "mset vs = mset ts" using assms(1) by (simp add: by_qsort_def)
  then show st: "set vs = set ts" by (metis set_mset_mset)
  have "sorted_wrt (\<lambda>t u. callers t \<le> callers u) vs"
    by (rule sorted_wrt_mono_rel [of vs "\<lambda>t u. cmpBackTraces t u \<le> 0"])
      (use assms st in \<open>auto simp: by_qsort_def full_entry_def cmpBackTraces_le\<close>)
  then show "sorted (map callers vs)" by (simp add: sorted_wrt_map)
qed

lemma qsort_sorts: "\<forall>t\<in>set ts. full_entry t \<Longrightarrow> by_qsort ts (qsort ts)"
proof -
  assume f: "\<forall>t\<in>set ts. full_entry t"
  note q = qsort_props [OF f]
  then have st: "set (qsort ts) = set ts" by (metis set_mset_mset)
  have "sorted_wrt (\<lambda>t u. cmpBackTraces t u \<le> 0) (qsort ts)"
    by (rule sorted_wrt_mono_rel [of _ "\<lambda>t u. callers t \<le> callers u"])
      (use q f st in \<open>auto simp: sorted_wrt_map full_entry_def cmpBackTraces_le\<close>)
  with q show ?thesis by (simp add: by_qsort_def)
qed

lemma lex_le_nth:
  fixes a b :: "'a :: linorder list"
  assumes "a \<le> b" and "d < length a" and "d < length b" and "take d a = take d b"
  shows "a ! d \<le> b ! d"
  using assms
proof (induction d arbitrary: a b)
  case 0
  then show ?case by (cases a; cases b) auto
next
  case (Suc d)
  then show ?case by (cases a; cases b) auto
qed

section \<open>What a sorted report prints\<close>

text \<open>
  The entries below a call path, and the lines as call paths with the bytes below them.
\<close>

definition below :: "u32 list \<Rightarrow> entry list \<Rightarrow> entry list" where
  "below p es = filter (\<lambda>e. take (length p) (callers e) = p) es"

definition line_paths :: "(nat \<times> entry \<times> u32) list \<Rightarrow> (u32 list \<times> u32) list" where
  "line_paths ls = map (\<lambda>(d, e, sz). (take (d + 1) (callers e), sz)) ls"

text \<open>Entries of full depth, sorted, that share their first \<open>d\<close> callers.\<close>

definition deep :: "entry \<Rightarrow> bool" where
  "deep e \<longleftrightarrow> full_entry e \<and> 0 \<notin> set (callers e)"

definition sorted_span :: "nat \<Rightarrow> entry list \<Rightarrow> bool" where
  "sorted_span d es \<longleftrightarrow> sorted (map callers es) \<and> (\<forall>e\<in>set es. deep e) \<and>
     (\<forall>e\<in>set es. \<forall>f\<in>set es. take d (callers e) = take d (callers f))"

lemma span_subset: "set (same d e es) \<subseteq> set es" "set (others d e es) \<subseteq> set es"
  by (auto simp: same_def others_def dest: set_takeWhileD set_dropWhileD)

lemma span_whole: "es = same d e es @ others d e es"
  by (simp add: same_def others_def)

lemma callers_col: "full_entry e \<Longrightarrow> d < 10 \<Longrightarrow> callers e ! d = col_of d e"
  by (simp add: full_entry_def callers_12 add.commute)

lemma length_callers: "full_entry e \<Longrightarrow> length (callers e) = 10"
  by (simp add: full_entry_def callers_12)

lemma sorted_span_split:
  assumes s: "sorted_span d (e # es)" and d: "d < 10"
  shows "sorted_span (d + 1) (e # same d e es)" and "sorted_span d (others d e es)"
    and "\<And>x. x \<in> set (others d e es) \<Longrightarrow> col_of d x \<noteq> col_of d e"
proof -
  let ?g = "same d e es" and ?r = "others d e es"
  note es = span_whole [of es d e]
  note sub = span_subset [of d e es]
  have deep: "deep x" if "x \<in> insert e (set es)" for x using s that by (auto simp: sorted_span_def)
  have pre: "take d (callers x) = take d (callers y)" if "x \<in> insert e (set es)" "y \<in> insert e (set es)" for x y
  proof -
    have "\<forall>x\<in>set (e # es). \<forall>y\<in>set (e # es). take d (callers x) = take d (callers y)"
      using s unfolding sorted_span_def by blast
    moreover from that have "x \<in> set (e # es)" "y \<in> set (e # es)" by simp_all
    ultimately show ?thesis by blast
  qed
  have sorted: "sorted (map callers (e # ?g @ ?r))"
    using s es by (simp add: sorted_span_def)
  have eq: "col_of d x = col_of d e" if "x \<in> insert e (set ?g)" for x
    using that by (auto simp: same_def dest: set_takeWhileD)
  have tk: "take (d + 1) (callers x) = take (d + 1) (callers y)"
    if "x \<in> insert e (set ?g)" "y \<in> insert e (set ?g)" for x y
  proof -
    have x: "x \<in> insert e (set es)" "y \<in> insert e (set es)" using that sub by auto
    have "callers x ! d = col_of d x" "callers y ! d = col_of d y"
      using deep [OF x(1)] deep [OF x(2)] d by (simp_all only: callers_col deep_def)
    with eq [OF that(1)] eq [OF that(2)] have "callers x ! d = callers y ! d" by (simp only:)
    with pre [OF x] deep [OF x(1)] deep [OF x(2)] d show ?thesis
      by (simp add: take_Suc_conv_app_nth length_callers deep_def)
  qed
  show "sorted_span (d + 1) (e # ?g)"
    unfolding sorted_span_def
  proof (intro conjI ballI)
    show "sorted (map callers (e # ?g))" using sorted by (simp add: sorted_append)
    show "deep x" if "x \<in> set (e # ?g)" for x using that sub deep by auto
    show "take (d + 1) (callers x) = take (d + 1) (callers y)"
      if "x \<in> set (e # ?g)" "y \<in> set (e # ?g)" for x y using that by (intro tk) simp_all
  qed
  show "sorted_span d ?r"
    unfolding sorted_span_def
  proof (intro conjI ballI)
    show "sorted (map callers ?r)" using sorted by (simp add: sorted_append)
    show "deep x" if "x \<in> set ?r" for x using that sub deep by auto
    show "take d (callers x) = take d (callers y)" if "x \<in> set ?r" "y \<in> set ?r" for x y
      using that sub by (intro pre) auto
  qed
  show "col_of d x \<noteq> col_of d e" if x: "x \<in> set ?r" for x
  proof -
    from x have "?r \<noteq> []" by auto
    then obtain h t where r: "?r = h # t" by (cases ?r) auto
    then have h: "col_of d h \<noteq> col_of d e"
      using hd_dropWhile [of "\<lambda>x. col_of d x = col_of d e" es] by (simp add: others_def)
    have le: "callers e \<le> callers h" "callers h \<le> callers x"
      using sorted r x by (auto simp: sorted_append)
    have nth: "callers y ! d \<le> callers z ! d"
      if "callers y \<le> callers z" "y \<in> insert e (set es)" "z \<in> insert e (set es)" for y z
    proof (rule lex_le_nth [OF that(1)])
      show "take d (callers y) = take d (callers z)" by (rule pre [OF that(2,3)])
    qed (use deep [OF that(2)] deep [OF that(3)] d in \<open>simp_all only: length_callers deep_def\<close>)
    have mem: "h \<in> insert e (set es)" "x \<in> insert e (set es)" using r x sub by auto
    have "callers e ! d \<le> callers h ! d" "callers h ! d \<le> callers x ! d"
      using nth le mem by auto
    moreover have "callers e ! d \<noteq> callers h ! d"
      using h deep [of e] deep [OF mem(1)] d by (simp add: callers_col deep_def)
    ultimately have "callers e ! d \<noteq> callers x ! d" by (metis order.antisym)
    then show ?thesis using deep [of e] deep [OF mem(2)] d by (simp add: callers_col deep_def)
  qed
qed

lemma bytes_below_filter_split:
  assumes "\<forall>x\<in>set a. P x" and "\<forall>x\<in>set b. \<not> P x"
  shows "filter P (a @ b) = a"
  using assms by (simp add: filter_id_conv filter_empty_conv)

lemma below_first:
  assumes "sorted_span d (e # es)" and "d < 10" and "d < length p"
  shows "p ! d = col_of d e \<Longrightarrow> below p (e # es) = below p (e # same d e es)"
    and "p ! d \<noteq> col_of d e \<Longrightarrow> below p (e # es) = below p (others d e es)"
proof -
  have col: "p ! d = col_of d x" if "take (length p) (callers x) = p" "x \<in> set (e # es)" for x
  proof -
    have "full_entry x" using assms(1) that(2) by (auto simp: sorted_span_def deep_def)
    moreover have "take (length p) (callers x) ! d = callers x ! d" using assms(3) by simp
    ultimately show ?thesis using that(1) assms(2) by (simp add: callers_col)
  qed
  note es = span_whole [of es d e]
  have eq: "col_of d x = col_of d e" if "x \<in> set (e # same d e es)" for x
    using that by (auto simp: same_def dest: set_takeWhileD)
  have neq: "col_of d x \<noteq> col_of d e" if "x \<in> set (others d e es)" for x
    using sorted_span_split(3) [OF assms(1,2) that] .
  note sub = span_subset [of d e es]
  have all: "below p (e # es) = below p (e # same d e es) @ below p (others d e es)"
    using arg_cong [OF es, of "filter (\<lambda>x. take (length p) (callers x) = p)"]
    by (simp add: below_def)
  show "p ! d = col_of d e \<Longrightarrow> below p (e # es) = below p (e # same d e es)"
  proof -
    assume "p ! d = col_of d e"
    have "take (length p) (callers x) \<noteq> p" if x: "x \<in> set (others d e es)" for x
    proof
      assume t: "take (length p) (callers x) = p"
      have "x \<in> set (e # es)" using x sub by auto
      from col [OF t this] neq [OF x] \<open>p ! d = col_of d e\<close> show False by simp
    qed
    then have "below p (others d e es) = []" by (simp add: below_def filter_empty_conv)
    with all show ?thesis by simp
  qed
  show "p ! d \<noteq> col_of d e \<Longrightarrow> below p (e # es) = below p (others d e es)"
  proof -
    assume "p ! d \<noteq> col_of d e"
    have "take (length p) (callers x) \<noteq> p" if x: "x \<in> set (e # same d e es)" for x
    proof
      assume t: "take (length p) (callers x) = p"
      have "x \<in> set (e # es)" using x sub by auto
      from col [OF t this] eq [OF x] \<open>p ! d \<noteq> col_of d e\<close> show False by simp
    qed
    then have "below p (e # same d e es) = []" unfolding below_def filter_empty_conv by blast
    with all show ?thesis by simp
  qed
qed

text \<open>The call paths of a span, from length \<open>d + 1\<close> on.\<close>

definition span_paths :: "nat \<Rightarrow> entry list \<Rightarrow> u32 list set" where
  "span_paths d es = {take k (callers e) | e k. e \<in> set es \<and> d < k \<and> k \<le> 10}"

lemma line_paths_simps [simp]:
  "line_paths [] = []" "line_paths (a @ b) = line_paths a @ line_paths b"
  "line_paths ((d, e, sz) # ls) = (take (d + 1) (callers e), sz) # line_paths ls"
  by (simp_all add: line_paths_def)

lemma tree_lines_paths:
  assumes "sorted_span d es" and "d < 10"
  shows "distinct (map fst (line_paths (tree_lines d es))) \<and>
    set (line_paths (tree_lines d es)) = (\<lambda>p. (p, bytes_below (below p es))) ` span_paths d es"
  using assms
proof (induction d es rule: tree_lines.induct)
  case (1 d)
  then show ?case by (simp add: tree_lines.simps(1) span_paths_def)
next
  case (2 d e es)
  let ?g = "e # same d e es" and ?r = "others d e es"
  note split = sorted_span_split [OF "2.prems"]
  note es = span_whole [of es d e]
  have sub: "set ?g \<subseteq> set (e # es)" "set ?r \<subseteq> set (e # es)" using span_subset [of d e es] by auto
  have full: "full_entry x" if "x \<in> set (e # es)" for x
    using "2.prems" that by (auto simp: sorted_span_def deep_def)
  have nz: "col_of d e \<noteq> 0"
  proof -
    have "deep e" using "2.prems"(1) by (simp add: sorted_span_def)
    moreover then have "callers e ! d \<in> set (callers e)"
      using "2.prems"(2) by (simp add: deep_def length_callers)
    ultimately show ?thesis using "2.prems"(2) by (metis deep_def callers_col)
  qed
  let ?p = "take (d + 1) (callers e)"
  let ?inner = "if d < MAXCALLERS - 1 then tree_lines (d + 1) ?g else []"
  have lines: "tree_lines d (e # es) = (d, e, bytes_below ?g) # ?inner @ tree_lines d ?r"
    by (subst tree_lines.simps(2)) (use nz in simp)
  \<comment> \<open>paths of the first span and of the rest differ at position \<open>d\<close>\<close>
  have nthg: "p ! d = col_of d e \<and> d < length p" if pin: "p \<in> span_paths d ?g" for p
  proof -
    obtain x k where x: "x \<in> set ?g" "d < k" "k \<le> 10" "p = take k (callers x)"
      using pin unfolding span_paths_def by blast
    then have "p ! d = callers x ! d" "d < length p" using sub full by (auto simp: length_callers)
    moreover have "callers x ! d = col_of d x" using x sub full "2.prems"(2) by (intro callers_col) auto
    moreover have "col_of d x = col_of d e" using x by (auto simp: same_def dest: set_takeWhileD)
    ultimately show ?thesis by simp
  qed
  have nthr: "p ! d \<noteq> col_of d e \<and> d < length p" if pin: "p \<in> span_paths d ?r" for p
  proof -
    obtain x k where x: "x \<in> set ?r" "d < k" "k \<le> 10" "p = take k (callers x)"
      using pin unfolding span_paths_def by blast
    then have "p ! d = callers x ! d" "d < length p" using sub full by (auto simp: length_callers)
    moreover have "callers x ! d = col_of d x" using x sub full "2.prems"(2) by (intro callers_col) auto
    ultimately show ?thesis using split(3) [OF x(1)] by simp
  qed
  have tk: "take (d + 1) (callers x) = ?p" if "x \<in> set ?g" for x
    using split(1) that by (fastforce simp: sorted_span_def)
  have pg: "span_paths d ?g = insert ?p (span_paths (d + 1) ?g)"
  proof (rule set_eqI, rule iffI)
    fix p assume "p \<in> span_paths d ?g"
    then obtain x k where x: "x \<in> set ?g" "d < k" "k \<le> 10" "p = take k (callers x)"
      unfolding span_paths_def by blast
    show "p \<in> insert ?p (span_paths (d + 1) ?g)"
    proof (cases "k = d + 1")
      case True
      with tk [OF x(1)] x(4) have "p = ?p" by (simp only:)
      then show ?thesis by blast
    next
      case False
      then have "d + 1 < k" using x by simp
      then have "p \<in> span_paths (d + 1) ?g" unfolding span_paths_def using x by blast
      then show ?thesis by simp
    qed
  next
    fix p assume "p \<in> insert ?p (span_paths (d + 1) ?g)"
    then consider "p = ?p" | "p \<in> span_paths (d + 1) ?g" by blast
    then show "p \<in> span_paths d ?g"
    proof cases
      case 1
      then show ?thesis unfolding span_paths_def using "2.prems"(2)
        by (intro CollectI exI [of _ e] exI [of _ "d + 1"]) simp
    next
      case 2
      then show ?thesis by (force simp: span_paths_def)
    qed
  qed
  have long: "?p \<notin> span_paths (d + 1) ?g"
    using sub full by (auto simp: span_paths_def length_callers dest!: arg_cong [of _ _ length])
  have inner: "distinct (map fst (line_paths ?inner)) \<and>
      set (line_paths ?inner) = (\<lambda>p. (p, bytes_below (below p ?g))) ` span_paths (d + 1) ?g"
  proof (cases "d < 9")
    case True
    then show ?thesis using "2.IH"(1) [OF nz _ split(1)] by simp
  next
    case False
    then have "span_paths (d + 1) ?g = {}" using "2.prems"(2) by (auto simp: span_paths_def)
    with False show ?thesis by simp
  qed
  have rest: "distinct (map fst (line_paths (tree_lines d ?r))) \<and>
      set (line_paths (tree_lines d ?r)) = (\<lambda>p. (p, bytes_below (below p ?r))) ` span_paths d ?r"
    by (rule "2.IH"(2) [OF nz split(2) "2.prems"(2)])
  have allp: "span_paths d (e # es) = span_paths d ?g \<union> span_paths d ?r"
    using arg_cong [OF es, of set] by (auto simp: span_paths_def)
  have bg: "below p (e # es) = below p ?g" if "p \<in> span_paths d ?g" for p
    using below_first(1) [OF "2.prems"] nthg [OF that] by simp
  have br: "below p (e # es) = below p ?r" if "p \<in> span_paths d ?r" for p
    using below_first(2) [OF "2.prems"] nthr [OF that] by simp
  have top: "below ?p ?g = ?g"
  proof -
    have "length ?p = d + 1" using full [of e] "2.prems"(2) by (simp add: length_callers)
    then have "take (length ?p) (callers x) = ?p" if "x \<in> set ?g" for x
      using tk [OF that] by (simp only:)
    then show ?thesis unfolding below_def by (intro filter_True ballI)
  qed
  have disj: "span_paths d ?g \<inter> span_paths d ?r = {}" using nthg nthr by blast
  let ?f = "\<lambda>p. (p, bytes_below (below p (e # es)))"
  have "set (line_paths (tree_lines d (e # es))) =
      insert (?p, bytes_below ?g) ((\<lambda>p. (p, bytes_below (below p ?g))) ` span_paths (d + 1) ?g) \<union>
      (\<lambda>p. (p, bytes_below (below p ?r))) ` span_paths d ?r"
    unfolding lines using inner rest by simp
  also have "(\<lambda>p. (p, bytes_below (below p ?r))) ` span_paths d ?r = ?f ` span_paths d ?r"
    using br by (intro image_cong) simp_all
  also have "insert (?p, bytes_below ?g) ((\<lambda>p. (p, bytes_below (below p ?g))) ` span_paths (d + 1) ?g) =
      (\<lambda>p. (p, bytes_below (below p ?g))) ` span_paths d ?g"
    unfolding pg image_insert top ..
  also have "\<dots> = ?f ` span_paths d ?g" using bg by (intro image_cong) simp_all
  finally have sets: "set (line_paths (tree_lines d (e # es))) = ?f ` span_paths d (e # es)"
    unfolding allp by blast
  have fs: "set (map fst (line_paths ?inner)) = span_paths (d + 1) ?g"
    "set (map fst (line_paths (tree_lines d ?r))) = span_paths d ?r"
    using inner rest by (simp_all add: image_image)
  have "distinct (map fst (line_paths (tree_lines d (e # es))))"
    unfolding lines using inner rest fs long disj pg by auto
  with sets show ?case by blast
qed

section \<open>The report\<close>

lemma tally_all:
  assumes "\<forall>e\<in>set es. col_of 0 e \<noteq> 0"
  shows "tally (tree_lines 0 es) = bytes_below es"
  using assms
proof (induction "0 :: nat" es rule: tree_lines.induct)
  case 1
  then show ?case by (simp add: tree_lines.simps(1))
next
  case (2 e es)
  have es: "es = same 0 e es @ others 0 e es" by (rule span_whole)
  have rest: "tally (tree_lines 0 (others 0 e es)) = bytes_below (others 0 e es)"
    using "2.hyps"(2) "2.prems" span_subset(2) [of 0 e es] by auto
  have "tally (tree_lines 0 (e # es)) =
      bytes_below (e # same 0 e es) + tally (tree_lines 0 (others 0 e es))"
    using "2.prems" tally_inner [of 1 "e # same 0 e es"]
    by (subst tree_lines.simps(2)) (simp add: numeral_2_eq_2)
  also have "\<dots> = bytes_below (e # es)"
    using arg_cong [OF es, of bytes_below] rest by simp
  finally show ?case .
qed

text \<open>Two traces that differ in the outermost frame, for the witnesses.\<close>

definition trace_a :: entry where "trace_a = [16, 0, 1, 2, 3, 4, 5, 6, 7, 8, 9, 10]"
definition trace_b :: entry where "trace_b = [8, 1, 1, 2, 3, 4, 5, 6, 7, 8, 9, 11]"
definition trace_0 :: entry where "trace_0 = [4, 0, 0, 0, 0, 0, 0, 0, 0, 0, 0, 0]"

lemmas trace_defs = trace_a_def trace_b_def trace_0_def deep_def full_entry_def callers_def
  MAXCALLERS_def

lemma report_lines:
  assumes "ts \<noteq> []" and "\<forall>t\<in>set ts. deep t" and "by_qsort ts vs"
  shows "\<exists>ls. buildShowTree summary vs = Inr (print_lines summary ls, tally ls) \<and>
    tally ls = bytes_below ts \<and>
    distinct (map fst (line_paths ls)) \<and>
    set (line_paths ls) = (\<lambda>p. (p, bytes_below (below p ts))) ` span_paths 0 ts"
proof -
  have q: "sorted (map callers vs)" "mset vs = mset ts" and "set vs = set ts"
    using by_qsortD [OF assms(3)] assms(2) by (simp_all add: deep_def)
  with assms(2) q(1) have sp: "sorted_span 0 vs" by (simp add: sorted_span_def)
  have ne: "vs \<noteq> []" using assms(1) q(2) by auto
  have "bytes_below (below p vs) = bytes_below (below p ts)" for p
    using q(2) unfolding bytes_below_def below_def
    by (metis (no_types, lifting) mset_filter mset_map sum_mset_sum_list)
  moreover have "span_paths 0 vs = span_paths 0 ts"
    using \<open>set vs = set ts\<close> by (simp add: span_paths_def)
  moreover have "tally (tree_lines 0 vs) = bytes_below ts"
  proof -
    have "col_of 0 e \<noteq> 0" if "e \<in> set vs" for e
    proof -
      have d: "full_entry e" "0 \<notin> set (callers e)"
        using that assms(2) \<open>set vs = set ts\<close> by (auto simp: deep_def)
      have "callers e ! 0 \<in> set (callers e)" using length_callers [OF d(1)] by simp
      with d callers_col [OF d(1), of 0] show ?thesis by auto
    qed
    then have "tally (tree_lines 0 vs) = bytes_below vs" by (simp add: tally_all)
    also have "\<dots> = bytes_below ts"
      unfolding bytes_below_def by (metis q(2) mset_map sum_mset_sum_list)
    finally show ?thesis .
  qed
  ultimately show ?thesis
    using tree_lines_paths [OF sp] ne
    by (auto simp: buildShowTree_def diveAndPrint_lines slice_def intro!: exI [of _ "tree_lines 0 vs"])
qed

text \<open>
  The tree code (\<^verbatim>\<open>buildShowTree\<close>, \<^verbatim>\<open>diveAndPrint\<close>) with its index arithmetic computes the
  recursion over lists: on any non-empty vector it prints the lines of the hierarchy that have a
  positive size, in order, and the total is the tally of the outermost lines.
\<close>

theorem tree_computes_lines:
  "vec \<noteq> [] \<Longrightarrow> buildShowTree summary vec =
     Inr (print_lines summary (tree_lines 0 vec), tally (tree_lines 0 vec))"
  by (simp add: buildShowTree_def diveAndPrint_lines slice_def)

theorem tree_computes_lines_witness:
  "buildShowTree False [trace_b, trace_a] =
     Inr (print_lines False (tree_lines 0 [trace_b, trace_a]), tally (tree_lines 0 [trace_b, trace_a]))"
  by (rule tree_computes_lines) simp

text \<open>
  C15. The report of entries that are all of full depth, in any order \<^verbatim>\<open>qsort\<close> may leave them in: what is
  printed are the lines of a hierarchy in which every call path of the entries, of every length,
  has exactly one line, which carries the bytes of all the entries below that path.
\<close>

theorem report_one_line_per_path:
  assumes "ts \<noteq> []" and "\<forall>t\<in>set ts. deep t" and "by_qsort ts vs"
  shows "\<exists>ls tot. buildShowTree summary vs = Inr (print_lines summary ls, tot) \<and>
    distinct (map fst (line_paths ls)) \<and>
    set (line_paths ls) = (\<lambda>p. (p, bytes_below (below p ts))) ` span_paths 0 ts"
  using report_lines [OF assms, of summary] by blast

theorem report_one_line_per_path_witness:
  "\<exists>ls tot. buildShowTree False (qsort [trace_b, trace_a]) = Inr (print_lines False ls, tot) \<and>
    distinct (map fst (line_paths ls)) \<and>
    set (line_paths ls) =
      (\<lambda>p. (p, bytes_below (below p [trace_b, trace_a]))) ` span_paths 0 [trace_b, trace_a]"
  by (rule report_one_line_per_path) (auto simp: trace_defs intro!: qsort_sorts)

text \<open>
  The total of a report: when every entry has at least one caller, the total is the sum of
  the sizes of all entries, in whatever order the entries come.
\<close>

theorem report_total:
  assumes "ts \<noteq> []" and "\<forall>t\<in>set ts. full_entry t \<and> col_of 0 t \<noteq> 0" and "by_qsort ts vs"
  shows "\<exists>out. buildShowTree summary vs = Inr (out, bytes_below ts)"
proof -
  note q = by_qsortD(1,2) [OF assms(3)]
  have "bytes_below vs = bytes_below ts"
    unfolding bytes_below_def by (metis q(1) assms(2) mset_map sum_mset_sum_list)
  moreover have "vs \<noteq> []" using assms(1,2) q(1) by auto
  ultimately show ?thesis
    using assms(2) q(2) by (simp add: buildShowTree_def diveAndPrint_lines slice_def tally_all)
qed

theorem report_total_witness:
  "\<exists>out. buildShowTree True (qsort [trace_b, trace_a]) = Inr (out, 24)"
proof -
  have "\<exists>out. buildShowTree True (qsort [trace_b, trace_a]) = Inr (out, bytes_below [trace_b, trace_a])"
    by (rule report_total) (auto simp: trace_defs intro!: qsort_sorts)
  then show ?thesis by (simp add: trace_a_def trace_b_def)
qed

text \<open>
  C39. An entry without callers hides the whole report: it is sorted first, where
  \<^verbatim>\<open>diveAndPrint\<close> returns at once, so that nothing is printed and the total is 0 whatever the
  other entries are.
\<close>

theorem empty_trace_hides_report:
  assumes "\<forall>t\<in>set ts. full_entry t" and "t \<in> set ts" and "callers t = replicate 10 0"
    and "by_qsort ts vs"
  shows "buildShowTree summary vs = Inr ([], 0)"
proof -
  note q = by_qsortD [OF assms(4,1)]
  with assms(2) obtain h r where hr: "vs = h # r" by (cases vs) auto
  with q(2,3) assms(2) have le: "callers h \<le> callers t" by auto
  have full: "full_entry h" "full_entry t" using assms(1,2) q(2) hr by auto
  have "callers h ! 0 \<le> callers t ! 0"
    using lex_le_nth [OF le, of 0] full by (simp add: length_callers)
  then have "col_of 0 h = 0"
    using full assms(3) callers_col [of h 0] by simp
  with hr show ?thesis
    by (simp add: buildShowTree_def diveAndPrint_lines slice_def tree_lines.simps)
qed

theorem empty_trace_hides_report_witness:
  "buildShowTree False (qsort [trace_b, trace_0, trace_a]) = Inr ([], 0)"
proof (rule empty_trace_hides_report [where t = trace_0 and ts = "[trace_b, trace_0, trace_a]"])
  show "callers trace_0 = replicate 10 0"
    by (simp add: trace_0_def callers_def eval_nat_numeral)
qed (auto simp: trace_defs intro!: qsort_sorts)

end
