(* ===== verification/Trx_MgrClient.thy ===== *)
theory Trx_MgrClient imports Trx_MgrState Trx_Tree
begin

text \<open>
  \<^verbatim>\<open>trxmgrClient.c\<close>: the manager's side of the protocol. Its table of clients, the commands it
  sends them, the configuration it hands to a client that registers, the messages it receives,
  and the reports it takes from shared memory and shows on the console that asked.
\<close>

section \<open>Clients\<close>

definition clientsPid :: "nat \<Rightarrow> mgr \<Rightarrow> int" where
  "clientsPid idx s = c_pid (clients s ! idx)"

text \<open>The name of the client; its slot keeps the pointer after \<^verbatim>\<open>free\<close>.\<close>

definition closeClient :: "nat \<Rightarrow> mgr_op" where
  "closeClient idx s =
     bindE (cliDecWait (reportTo (clients s ! idx)) s) (\<lambda>s1.
       let s2 = upd_client idx (\<lambda>c. c\<lparr>c_fd := -1\<rparr>) (os_close (c_fd (clients s1 ! idx)) s1)
       in bindE (free_str (c_name (clients s2 ! idx)))
            (\<lambda>p. Inr (upd_client idx (\<lambda>c. c\<lparr>c_name := p\<rparr>) s2)))"

text \<open>
  \<^verbatim>\<open>fgets(buf, n, f)\<close> until the end of the file: at most \<open>n - 1\<close> characters, up to and with a
  newline.
\<close>

definition fgets_len :: "nat \<Rightarrow> string \<Rightarrow> nat" where
  "fgets_len n s =
     (let k = length (takeWhile (\<lambda>c. c \<noteq> CHR 0x0A) s)
      in min (n - 1) (if k < length s then k + 1 else k))"

function fgets_all :: "nat \<Rightarrow> string \<Rightarrow> string list" where
  "fgets_all n s =
     (if s = [] \<or> n < 2 then []
      else take (fgets_len n s) s # fgets_all n (drop (fgets_len n s) s))"
  by pat_completeness auto
termination
  by (relation "measure (\<lambda>(n, s). length s)") (auto simp: fgets_len_def Let_def min_def neq_Nil_conv)

declare fgets_all.simps [simp del]

definition has_substr :: "string \<Rightarrow> string \<Rightarrow> bool" where
  "has_substr p s \<longleftrightarrow> (\<exists>i\<in>set [0..<length s + 1]. take (length p) (drop i s) = p)"

definition ws :: string where "ws = [CHR 0x09, CHR '' '', CHR 0x0A, CHR 0x0D]"

text \<open>The second token of the first line with \<^verbatim>\<open>Name:\<close> that has one.\<close>

fun status_name :: "string list \<Rightarrow> string option" where
  "status_name [] = None"
| "status_name (l # ls) =
     (if has_substr ''Name:'' l then
        (case strtok ws l of
           None \<Rightarrow> status_name ls
         | Some (tok, r) \<Rightarrow>
             (case strtok ws r of None \<Rightarrow> status_name ls | Some (tok2, r2) \<Rightarrow> Some tok2))
      else status_name ls)"

definition prog_name :: "int \<Rightarrow> mgr \<Rightarrow> string" where
  "prog_name p s =
     (case (case procStatus s p of None \<Rightarrow> None | Some f \<Rightarrow> status_name (fgets_all 100 f)) of
        Some n \<Rightarrow> n
      | None \<Rightarrow> ''unknown_'' @ show_int p)"

definition getCmdStr :: "nat \<Rightarrow> int \<Rightarrow> mgr \<Rightarrow> mgr" where
  "getCmdStr idx p s =
     (let name = prog_name p s;
          s1 = upd_client idx (\<lambda>c. c\<lparr>c_adata := getAppConfig name s, c_pid := p\<rparr>) s
      in case os_strdup name s1 of (n, s2) \<Rightarrow> upd_client idx (\<lambda>c. c\<lparr>c_name := n\<rparr>) s2)"

definition getClientVsize :: "nat \<Rightarrow> mgr \<Rightarrow> int" where
  "getClientVsize idx s =
     (case procStatm s (clientsPid idx s) of
        None \<Rightarrow> 0 | Some f \<Rightarrow> (case scan_int f of None \<Rightarrow> 0 | Some n \<Rightarrow> n))"

section \<open>Commands to a client\<close>

text \<open>A client that does not take the command or does not answer is torn down.\<close>

definition mgrSendCmd2 :: "nat \<Rightarrow> nat \<Rightarrow> int \<Rightarrow> int \<Rightarrow> mgr \<Rightarrow> fault + int \<times> mgr" where
  "mgrSendCmd2 idx cmd a1 a2 s =
     (let fail = (\<lambda>t. bindE (closeClient idx t) (\<lambda>t1. Inr (-1, t1)));
          c = clients s ! idx
      in case sendCmdMore (c_fd c) (int_of (c_seq c)) cmd a1 a2 0 None [] s of (ok, s1) \<Rightarrow>
           if ok then
             (case recvAck (c_fd c) (c_seq c) s1 of ((ackval, sq), s2) \<Rightarrow>
                (let s3 = upd_client idx (\<lambda>c. c\<lparr>c_seq := sq\<rparr>) s2
                 in if ackval \<ge> 0 then Inr (ackval, s3) else fail s3))
           else fail s1)"

definition mgrSendCmd1 :: "nat \<Rightarrow> nat \<Rightarrow> int \<Rightarrow> mgr \<Rightarrow> fault + int \<times> mgr" where
  "mgrSendCmd1 idx cmd a1 s = mgrSendCmd2 idx cmd a1 0 s"

text \<open>The walk over the registered clients, with a callback.\<close>

definition trxmgrClientWalkList :: "(nat \<Rightarrow> mgr_op) \<Rightarrow> mgr_op" where
  "trxmgrClientWalkList cb =
     eachE (\<lambda>i s. if c_fd (clients s ! i) \<ge> 0 then cb i s else Inr s) [0..<MAXCLIENTS]"

definition trxmgrClientGetVar :: "nat \<Rightarrow> int \<Rightarrow> mgr \<Rightarrow> fault + int \<times> mgr" where
  "trxmgrClientGetVar client var s =
     (if c_fd (clients s ! client) \<ge> 0 then mgrSendCmd2 client CMD_GET var 0 s else Inr (-1, s))"

definition trxmgrClientAskReport :: "nat \<Rightarrow> nat \<Rightarrow> int \<Rightarrow> int \<Rightarrow> mgr \<Rightarrow> fault + int \<times> mgr" where
  "trxmgrClientAskReport client idx tag subCmd s =
     (if c_fd (clients s ! client) \<ge> 0 then
        bindE (mgrSendCmd2 client CMD_REPORT tag 0 s) (\<lambda>(ret, s1).
          Inr (ret, upd_client client (\<lambda>c. c\<lparr>reportTo := idx, c_subCmd := subCmd\<rparr>) s1))
      else Inr (-1, s))"

definition trxmgrClientAskPush :: "nat \<Rightarrow> mgr \<Rightarrow> fault + int \<times> mgr" where
  "trxmgrClientAskPush client s =
     (if c_fd (clients s ! client) \<ge> 0 then mgrSendCmd1 client CMD_PUSH 0 s else Inr (-1, s))"

definition trxmgrClientAskPop :: "nat \<Rightarrow> mgr \<Rightarrow> fault + int \<times> mgr" where
  "trxmgrClientAskPop client s =
     (if c_fd (clients s ! client) \<ge> 0 then mgrSendCmd1 client CMD_POP 0 s else Inr (-1, s))"

definition trxmgrClientSetVar :: "nat \<Rightarrow> int \<Rightarrow> int \<Rightarrow> mgr \<Rightarrow> fault + int \<times> mgr" where
  "trxmgrClientSetVar client var val s =
     (if c_fd (clients s ! client) \<ge> 0 then mgrSendCmd2 client CMD_SET var val s else Inr (-1, s))"

text \<open>
  \<^verbatim>\<open>sendConfig\<close>: each entry of the flag table as a \<^verbatim>\<open>CMD_SET\<close>, then \<^verbatim>\<open>CMD_DONE\<close>; it stops at the
  first that fails.
\<close>

fun send_flags :: "nat \<Rightarrow> flgmap_t list \<Rightarrow> mgr \<Rightarrow> fault + bool \<times> mgr" where
  "send_flags idx [] s = Inr (True, s)"
| "send_flags idx (e # es) s =
     bindE (app_flags (c_adata (clients s ! idx)) s) (\<lambda>fl.
       bindE (mgrSendCmd2 idx CMD_SET (int (fcmd e)) (if fmask e AND fl \<noteq> 0 then 1 else 0) s)
         (\<lambda>(r, s1). if r < 0 then Inr (False, s1) else send_flags idx es s1))"

definition sendConfig :: "nat \<Rightarrow> mgr_op" where
  "sendConfig idx s =
     bindE (send_flags idx flgmap s) (\<lambda>(ok, s1).
       if ok then bindE (mgrSendCmd1 idx CMD_DONE 0 s1) (\<lambda>(r, s2). Inr s2) else Inr s1)"

section \<open>Messages from a client\<close>

definition TOTAL_FMT :: string where
  "TOTAL_FMT = ''%-20s [pid %6d] [Proc Size : %6d] [Mallocated - total ->%6d - tagged -> ''"

definition mgr_rcvCB :: "nat \<Rightarrow> cmd_t \<Rightarrow> int \<Rightarrow> bytes option \<Rightarrow> mgr \<Rightarrow> fault + int \<times> mgr" where
  "mgr_rcvCB idx cmd mlen pmore s =
     (let c = sint (pcmd cmd); cl = clients s ! idx in
      if c = int CMD_REGISTER then
        Inr (1, upd_client idx (\<lambda>c. c\<lparr>needConfig := True\<rparr>) (getCmdStr idx (int_of (aux0 cmd)) s))
      else if c = int CMD_REPORT then
        (if aux0 cmd = 0 then
           bindE (prt_of (c_name cl)) (\<lambda>name.
           bindE (cliPrt (reportTo cl)
                   (if summary s \<noteq> 0
                    then (TOTAL_FMT @ ''%6d'' @ nl,
                          [PStr name, PInt (c_pid cl), PInt (getClientVsize idx s),
                           PInt (int_of (aux1 cmd)), PInt 0])
                    else (''Client '' @ [CHR 0x27] @ ''%s'' @ [CHR 0x27] @ '' pid %d : nothing to report.'' @ nl,
                          [PStr name, PInt (c_pid cl)])) s) (\<lambda>s1.
           bindE (cliDecWait (reportTo (clients s1 ! idx)) s1) (\<lambda>s2. Inr (1, s2))))
         else
           Inr (1, upd_client idx
                     (\<lambda>c. c\<lparr>c_more := mlen, c_pmore := pmore, produceFinalReport := True\<rparr>) s))
      else Inr (0, s))"

section \<open>Showing a report\<close>

text \<open>The \<open>n\<close> entries behind the first word of a segment, or of its copy.\<close>

definition seg_entries :: "bytes \<Rightarrow> nat \<Rightarrow> fault + entry list" where
  "seg_entries g n =
     (if length g < 4 + n * RPTSLOTSIZE then Inl OutOfBounds
      else Inr (map (\<lambda>i. dec_slot (take RPTSLOTSIZE (drop (4 + i * RPTSLOTSIZE) g))) [0..<n]))"

definition seg_total :: "bytes \<Rightarrow> fault + u32" where
  "seg_total g = (if length g < 4 then Inl OutOfBounds else Inr (word32 (take 4 g)))"

definition RULE :: string where
  "RULE = ''==========================================================='' @ nl"

text \<open>The frame lines of a report that is not a summary.\<close>

definition report_frame :: "string \<Rightarrow> nat \<Rightarrow> mgr_op" where
  "report_frame which idx s =
     (let cl = clients s ! idx; cliIdx = reportTo cl in
      if summary s \<noteq> 0 then Inr s
      else bindE (prt_of (c_name cl)) (\<lambda>name.
        thenE (cliPrt cliIdx (RULE, []))
          (thenE (cliPrt cliIdx (which @ '' of report for registered client '' @ [CHR 0x27] @ ''%s'' @
                                   [CHR 0x27] @ '' pid %d'' @ nl, [PStr name, PInt (c_pid cl)]))
            (cliPrt cliIdx (RULE, []))) s))"

text \<open>The sorted vector of entries as a tree, between the frames, with the totals.\<close>

definition show_vector :: "nat \<Rightarrow> bytes \<Rightarrow> entry list \<Rightarrow> mgr_op" where
  "show_vector idx g es s =
     (let cliIdx = reportTo (clients s ! idx) in
      bindE (report_frame ''Start'' idx s) (\<lambda>s1.
      bindE (buildShowTree (summary s1 \<noteq> 0) (qsort es)) (\<lambda>(lines, tot).
      bindE (eachE (cliPrt cliIdx) lines s1) (\<lambda>s2.
      bindE (if summary s2 \<noteq> 0 then Inr s2 else cliPrt cliIdx (RULE, []) s2) (\<lambda>s3.
      bindE (prt_of (c_name (clients s3 ! idx))) (\<lambda>name.
      bindE (seg_total g) (\<lambda>mtotal.
      bindE (cliPrt cliIdx (TOTAL_FMT @ ''%10d'' @ nl,
               [PStr name, PInt (clientsPid idx s3), PInt (getClientVsize idx s3),
                PInt (int_of mtotal), PInt (int_of tot)]) s3)
        (report_frame ''End'' idx))))))))"

text \<open>The sizes of the entries are negated in the copy kept by a snapshot.\<close>

definition neg_entry :: "bytes \<Rightarrow> nat \<Rightarrow> bytes" where
  "neg_entry g i =
     (let pos = 4 + i * RPTSLOTSIZE in
      take pos g @ bytes32 (- word32 (take 4 (drop pos g))) @ drop (pos + 4) g)"

definition neg_entries :: "bytes \<Rightarrow> nat \<Rightarrow> bytes" where
  "neg_entries g n = fold (\<lambda>i g. neg_entry g i) [0..<n] g"

definition REPORT_REPORT :: int where "REPORT_REPORT = 0"
definition REPORT_SNAP :: int where "REPORT_SNAP = 1"
definition REPORT_SREPORT :: int where "REPORT_SREPORT = 2"

text \<open>
  The three uses of a report; \<open>g\<close> is the mapped segment, \<^term>\<open>None\<close> when \<^verbatim>\<open>shmat\<close> failed, which the
  code does not notice (it tests for a null pointer), and \<open>sz\<close> its size.
\<close>

definition mapped :: "bytes option \<Rightarrow> fault + bytes" where
  "mapped g = (case g of None \<Rightarrow> Inl DeadPointer | Some b \<Rightarrow> Inr b)"

definition do_report :: "nat \<Rightarrow> bytes option \<Rightarrow> nat \<Rightarrow> mgr_op" where
  "do_report idx g sz s =
     (case os_malloc s of (ok, s1) \<Rightarrow>
        if \<not> ok then Inr s1
        else bindE (mapped g) (\<lambda>b. bindE (seg_entries b (sz div RPTSLOTSIZE)) (\<lambda>es.
               show_vector idx b es s1)))"

definition do_snap :: "nat \<Rightarrow> bytes option \<Rightarrow> nat \<Rightarrow> mgr_op" where
  "do_snap idx g sz s =
     (case os_malloc s of (ok, s1) \<Rightarrow>
        if \<not> ok then
          cliPrt (reportTo (clients s1 ! idx))
            (''Could not allocate snap buffer of %d bytes'' @ nl, [PInt (int sz)])
            (upd_client idx (\<lambda>c. c\<lparr>snap := None\<rparr>) s1)
        else bindE (mapped g) (\<lambda>b.
          if sz < 4 + (sz div RPTSLOTSIZE - 1) * RPTSLOTSIZE + 4 \<and> sz div RPTSLOTSIZE \<noteq> 0
          then Inl OutOfBounds
          else Inr (upd_client idx
                 (\<lambda>c. c\<lparr>snap := Some (neg_entries b (sz div RPTSLOTSIZE)), snapsize := sz\<rparr>) s1)))"

definition do_sreport :: "nat \<Rightarrow> bytes option \<Rightarrow> nat \<Rightarrow> mgr_op" where
  "do_sreport idx g sz s =
     (case snap (clients s ! idx) of
        None \<Rightarrow> cliPrt (reportTo (clients s ! idx)) (''Please execute a snap command first.'' @ nl, []) s
      | Some sb \<Rightarrow>
          (case os_malloc s of (ok, s1) \<Rightarrow>
             if \<not> ok then Inr s1
             else bindE (mapped g) (\<lambda>b.
                  bindE (seg_entries b (sz div RPTSLOTSIZE)) (\<lambda>es.
                  bindE (seg_entries sb (snapsize (clients s1 ! idx) div RPTSLOTSIZE)) (\<lambda>ss.
                    show_vector idx b (es @ ss) s1)))))"

definition mshm_at :: "bytes \<Rightarrow> mgr \<Rightarrow> bytes option \<times> mgr" where
  "mshm_at g s =
     (case mshmats s of [] \<Rightarrow> (Some g, s) | ok # r \<Rightarrow> (if ok then Some g else None, s\<lparr>mshmats := r\<rparr>))"

definition mshm_stat :: "mgr \<Rightarrow> bool \<times> mgr" where
  "mshm_stat s = (case mshmstats s of [] \<Rightarrow> (True, s) | ok # r \<Rightarrow> (ok, s\<lparr>mshmstats := r\<rparr>))"

definition showReport :: "nat \<Rightarrow> mgr_op" where
  "showReport idx s =
     (let cl = clients s ! idx; key = KEYBASE + c_pid cl; cliIdx = reportTo cl in
      bindE
        (case msegs s key of
           None \<Rightarrow> Inr s
         | Some g \<Rightarrow>
             (case mshm_at g s of (m, s1) \<Rightarrow>
              case mshm_stat s1 of (ok, s2) \<Rightarrow>
                bindE
                  (if \<not> ok then Inr s2
                   else if c_subCmd cl = REPORT_REPORT then do_report idx m (length g) s2
                   else if c_subCmd cl = REPORT_SNAP then do_snap idx m (length g) s2
                   else if c_subCmd cl = REPORT_SREPORT then do_sreport idx m (length g) s2
                   else Inr s2)
                  (\<lambda>s3. Inr (s3\<lparr>msegs := (msegs s3)(key := None)\<rparr>))))
        (cliDecWait cliIdx))"

section \<open>Serving the clients\<close>

definition mgr_handleExchange :: "nat \<Rightarrow> mgr_op" where
  "mgr_handleExchange idx s =
     bindE (rcvCmd (c_fd (clients s ! idx)) (mgr_rcvCB idx) s) (\<lambda>(r, s1).
       if r < 0 then thenE (cliDecWait (reportTo (clients s1 ! idx))) (closeClient idx) s1
       else
         bindE (if needConfig (clients s1 ! idx)
                then bindE (sendConfig idx s1)
                       (\<lambda>t. Inr (upd_client idx (\<lambda>c. c\<lparr>needConfig := False\<rparr>) t))
                else Inr s1) (\<lambda>s2.
         if produceFinalReport (clients s2 ! idx)
         then showReport idx (upd_client idx (\<lambda>c. c\<lparr>produceFinalReport := False\<rparr>) s2)
         else Inr s2))"

text \<open>The first free slot of a table.\<close>

definition first_free :: "int list \<Rightarrow> nat option" where
  "first_free fs = find (\<lambda>i. fs ! i < 0) [0..<length fs]"

definition newClient :: "mgr \<Rightarrow> mgr" where
  "newClient s =
     (case sys_newfd False s of (fd, s1) \<Rightarrow>
        if fd = -1 then s1
        else case first_free (map c_fd (clients s1)) of
          None \<Rightarrow> os_close fd s1
        | Some idx \<Rightarrow> upd_client idx (\<lambda>c. c\<lparr>c_fd := fd\<rparr>) s1)"

text \<open>The descriptors of a table put into a set, with the largest one.\<close>

fun set_fds :: "int list \<Rightarrow> int list \<times> int \<Rightarrow> int list \<times> int" where
  "set_fds [] acc = acc"
| "set_fds (fd # fs) (fdset, maxfd) =
     set_fds fs (if fd \<ge> 0 then (fdset @ [fd], if fd > maxfd then fd else maxfd) else (fdset, maxfd))"

definition clientSetFds :: "mgr \<Rightarrow> int list \<times> int \<Rightarrow> int list \<times> int" where
  "clientSetFds s acc = set_fds (serverFd s # map c_fd (clients s)) acc"

definition clientProcessFds :: "int list \<Rightarrow> mgr_op" where
  "clientProcessFds fdset s =
     eachE (\<lambda>idx t. if c_fd (clients t ! idx) \<ge> 0 \<and> c_fd (clients t ! idx) \<in> set fdset
                    then mgr_handleExchange idx t else Inr t)
       [0..<MAXCLIENTS]
       (if serverFd s \<ge> 0 \<and> serverFd s \<in> set fdset then newClient s else s)"

definition setupClientSocket :: "mgr_op" where
  "setupClientSocket s =
     (case sys_newfd False s of (sk, s1) \<Rightarrow>
        if sk = -1 then Inl Exit
        else case sys_call s1 of (b, s2) \<Rightarrow>
          if b = -1 then Inl Exit
          else case sys_call s2 of (l, s3) \<Rightarrow>
            if l = -1 then Inl Exit
            else Inr (s3\<lparr>serverFd := sk, clients := map (\<lambda>c. c\<lparr>c_fd := -1\<rparr>) (clients s3)\<rparr>))"

definition shutdownClientSocket :: "mgr \<Rightarrow> mgr" where
  "shutdownClientSocket s = (if serverFd s \<ge> 0 then os_close (serverFd s) s else s)"

end
