(* ===== verification/Trx_Cli.thy ===== *)
theory Trx_Cli imports Trx_MgrClient
begin

text \<open>
  \<^verbatim>\<open>trxmgrCli.c\<close>: the consoles of the manager. The commands a user can give, the scope of
  applications they apply to, the interpreter that runs a command line, and the handling of
  connections. A command function takes the console's index and the arguments, as in the code;
  \<open>argc\<close> is the length of the argument list.
\<close>

section \<open>Commands\<close>

type_synonym cmdFunc_t = "nat \<Rightarrow> string list \<Rightarrow> mgr_op"

definition prts :: "nat \<Rightarrow> string list \<Rightarrow> mgr_op" where
  "prts idx fs = eachE (\<lambda>f. cliPrt idx (f, [])) fs"

definition cmdQuit :: cmdFunc_t where
  "cmdQuit idx argv = closeCli idx"

text \<open>A line about a client: its name is read through the pointer of its slot.\<close>

definition prt_client :: "nat \<Rightarrow> nat \<Rightarrow> (string \<Rightarrow> prt) \<Rightarrow> mgr_op" where
  "prt_client idx client p s = bindE (prt_of (c_name (clients s ! client))) (\<lambda>name. cliPrt idx (p name) s)"

definition listCb :: "nat \<Rightarrow> nat \<Rightarrow> mgr_op" where
  "listCb idx client s =
     prt_client idx client (\<lambda>name. (''%6d   %s'' @ nl, [PInt (clientsPid client s), PStr name])) s"

definition cmdList :: cmdFunc_t where
  "cmdList idx argv =
     thenE (prts idx
     [''   Below is the list of registered application.'' @ nl,
      ''   Any of those names can be added to you local scope with   - set scope <name>'' @ nl,
      ''   You can add all registered application with to your scope - set scope all'' @ nl,
      ''   -- Start of list --'' @ nl])
       (thenE (trxmgrClientWalkList (listCb idx)) (prts idx [''   -- End of list --'' @ nl]))"

text \<open>\<^verbatim>\<open>onoff2val\<close>: \<^term>\<open>None\<close> for its \<^verbatim>\<open>-1\<close>, after the message.\<close>

definition onoff2val :: "nat \<Rightarrow> string \<Rightarrow> mgr \<Rightarrow> fault + int option \<times> mgr" where
  "onoff2val idx valstr s =
     (if strcaseeq valstr ''on'' then Inr (Some 1, s)
      else if strcaseeq valstr ''off'' then Inr (Some 0, s)
      else bindE (cliPrt idx
             (''Invalid boolean specified '' @ [CHR 0x27] @ ''%s'' @ [CHR 0x27] @ '' - must be '' @
              [CHR 0x27] @ ''on'' @ [CHR 0x27] @ '' or '' @ [CHR 0x27] @ ''off'' @ [CHR 0x27] @ ''.'' @ nl,
              [PStr valstr]) s)
             (\<lambda>s1. Inr (None, s1)))"

text \<open>\<^verbatim>\<open>inList\<close>: by name or, read as a number, by process id.\<close>

fun inList :: "sptr \<Rightarrow> int \<Rightarrow> sptr list \<Rightarrow> fault + bool" where
  "inList name p [] = Inl OutOfBounds"
| "inList name p (e # es) =
     (if e = SNull then Inr False
      else bindE (str_of e) (\<lambda>t. bindE (str_of name) (\<lambda>n.
        if t = n then Inr True else if atoi t = p then Inr True else inList name p es)))"

definition inScope :: "nat \<Rightarrow> nat \<Rightarrow> mgr \<Rightarrow> fault + bool" where
  "inScope idx client s =
     (if scope (cli s ! idx) ! 0 = SNull then Inr True
      else inList (c_name (clients s ! client)) (clientsPid client s) (scope (cli s ! idx)))"

text \<open>A callback that acts on the clients in scope.\<close>

definition in_scope :: "nat \<Rightarrow> nat \<Rightarrow> mgr_op \<Rightarrow> mgr_op" where
  "in_scope idx client f s = bindE (inScope idx client s) (\<lambda>b. if b then f s else Inr s)"

definition reportCb :: "nat \<Rightarrow> nat \<Rightarrow> mgr_op" where
  "reportCb idx client =
     in_scope idx client (\<lambda>s.
       bindE (trxmgrClientAskReport client idx (t_tag (cli s ! idx)) (t_subCmd (cli s ! idx)) s) (\<lambda>(ret, s1).
         let s2 = upd_cli idx (\<lambda>c. c\<lparr>waiting := waiting c + 1\<rparr>) s1
         in if ret < 0 then cliDecWait idx s2 else Inr s2))"

text \<open>The file and the tag of a report command; \<^term>\<open>None\<close> for too many arguments.\<close>

definition report_args :: "string list \<Rightarrow> (string option \<times> int) option" where
  "report_args argv =
     (if length argv = 2 then
        (if argv ! 1 \<noteq> [] \<and> is_digit (argv ! 1 ! 0)
         then Some (None, atoi (argv ! 1)) else Some (Some (argv ! 1), TAGCUR))
      else if length argv = 3 then Some (Some (argv ! 1), atoi (argv ! 2))
      else if length argv > 3 then None
      else Some (None, TAGCUR))"

definition cmdReportHub :: "int \<Rightarrow> cmdFunc_t" where
  "cmdReportHub subCmd idx argv s =
     (let s1 = upd_cli idx (\<lambda>c. c\<lparr>t_tag := TAGCUR, t_subCmd := subCmd\<rparr>) s in
      case report_args argv of
        None \<Rightarrow> cliPrt idx (''To many arguments.'' @ nl, []) s1
      | Some (fname, tag) \<Rightarrow>
          (let s2 = upd_cli idx (\<lambda>c. c\<lparr>t_tag := tag\<rparr>) s1 in
           case fname of
             None \<Rightarrow> trxmgrClientWalkList (reportCb idx) s2
           | Some f \<Rightarrow>
               (case sys_newfd True s2 of (fd, s3) \<Rightarrow>
                  (let s4 = upd_cli idx (\<lambda>c. c\<lparr>t_ffd := fd\<rparr>) s3
                   in if fd < 0
                      then cliPrt idx (''Error opening file '' @ [CHR 0x27] @ ''%s'' @ [CHR 0x27] @ '' : %s'' @ nl,
                                       [PStr f, PStr (errstr s4)]) s4
                      else trxmgrClientWalkList (reportCb idx) s4))))"

definition cmdReport :: cmdFunc_t where "cmdReport = cmdReportHub REPORT_REPORT"
definition cmdSnap :: cmdFunc_t where "cmdSnap = cmdReportHub REPORT_SNAP"
definition cmdSreport :: cmdFunc_t where "cmdSreport = cmdReportHub REPORT_SREPORT"

definition incCb :: "nat \<Rightarrow> nat \<Rightarrow> mgr_op" where
  "incCb idx client =
     in_scope idx client (\<lambda>s. bindE (trxmgrClientAskPush client s) (\<lambda>(newtag, s1).
       prt_client idx client (\<lambda>name. (''%-10s : new tag is %d'' @ nl, [PStr name, PInt newtag])) s1))"

definition cmdPush :: cmdFunc_t where
  "cmdPush idx argv = trxmgrClientWalkList (incCb idx)"

definition decCb :: "nat \<Rightarrow> nat \<Rightarrow> mgr_op" where
  "decCb idx client =
     in_scope idx client (\<lambda>s. bindE (trxmgrClientAskPop client s) (\<lambda>(newtag, s1).
       prt_client idx client (\<lambda>name. (''%-10s : new tag is %d'' @ nl, [PStr name, PInt newtag])) s1))"

definition cmdPop :: cmdFunc_t where
  "cmdPop idx argv = trxmgrClientWalkList (decCb idx)"

definition getVarCb :: "nat \<Rightarrow> nat \<Rightarrow> mgr_op" where
  "getVarCb idx client =
     in_scope idx client (\<lambda>s. bindE (trxmgrClientGetVar client (curcmd (cli s ! idx)) s) (\<lambda>(val, s1).
       prt_client idx client (\<lambda>name. (''    %-10s : %d'' @ nl, [PStr name, PInt val])) s1))"

definition getAppVar :: "nat \<Rightarrow> nat \<Rightarrow> mgr_op" where
  "getAppVar idx cmd s =
     trxmgrClientWalkList (getVarCb idx) (upd_cli idx (\<lambda>c. c\<lparr>curcmd := int cmd\<rparr>) s)"

definition setVarCb :: "nat \<Rightarrow> nat \<Rightarrow> mgr_op" where
  "setVarCb idx client =
     in_scope idx client (\<lambda>s.
       bindE (trxmgrClientSetVar client (curcmd (cli s ! idx)) (curval (cli s ! idx)) s) (\<lambda>(val, s1).
         prt_client idx client
           (\<lambda>name. (''    %-10s : %s'' @ nl, [PStr name, PStr (if val \<ge> 0 then ''ok'' else ''Failed'')])) s1))"

definition setAppVar :: "nat \<Rightarrow> nat \<Rightarrow> int \<Rightarrow> mgr_op" where
  "setAppVar idx cmd val s =
     trxmgrClientWalkList (setVarCb idx) (upd_cli idx (\<lambda>c. c\<lparr>curval := val, curcmd := int cmd\<rparr>) s)"

section \<open>The \<open>set\<close> command\<close>

definition set_usage :: "string list" where
  "set_usage =
     [''Usage is : set <variable> <value>'' @ nl,
      ''Possibilities are:'' @ nl,
      ''     summary on|off'' @ nl,
      ''        Turn on summary mode for reports.'' @ nl,
      ''     validate on|off'' @ nl,
      ''        Turn on validation code in scoped applications.'' @ nl,
      ''     tracking on|off'' @ nl,
      ''        Turn on tracking code in scoped applications. That is actual backtrace of each'' @ nl,
      ''        allocations and free that the application(s) do. (HEAVY LOAD)'' @ nl,
      ''     poison   on|off'' @ nl,
      ''        Turn on poisonning code in scoped applications. This involves filling the freed'' @ nl,
      ''        buffers with invalid and misaligned addresses for easier detection of use-after-free (MEDIUM LOAD)'' @ nl,
      ''     tag      <int value>'' @ nl,
      ''        Change the tag value associated with each allocations. Only used when '' @ [CHR 0x27] @ ''tracking'' @ [CHR 0x27] @ '' is enabled'' @ nl,
      ''     scope    <name1>[ <name2> [ name3]]'' @ nl,
      ''        Set the list of applications to which the following command will apply. The application names'' @ nl,
      ''        can be selected from the output of the '' @ [CHR 0x27] @ ''list'' @ [CHR 0x27] @ '' command. But a name of an application that as yet'' @ nl,
      ''        to register can also be specified. Special name '' @ [CHR 0x27] @ ''all'' @ [CHR 0x27] @ '' matches all registered applications.'' @ nl]"

text \<open>A variable of the clients that is on or off.\<close>

definition set_bool :: "nat \<Rightarrow> nat \<Rightarrow> string list \<Rightarrow> mgr_op" where
  "set_bool idx cmd argv s =
     (if length argv < 3 then getAppVar idx cmd s
      else bindE (onoff2val idx (argv ! 2) s) (\<lambda>(v, s1).
        case v of None \<Rightarrow> Inr s1 | Some val \<Rightarrow> setAppVar idx cmd val s1))"

text \<open>
  The new scope: the old strings are freed one by one, then the arguments are copied, up to the
  size of the table.
\<close>

definition clear_scope :: "sptr list \<Rightarrow> fault + sptr list" where
  "clear_scope sc =
     (if SFreed \<in> set (take (MAXSCOPE - 1) sc) then Inl DeadPointer
      else Inr (replicate (MAXSCOPE - 1) SNull @ drop (MAXSCOPE - 1) sc))"

fun fill_scope :: "nat \<Rightarrow> string list \<Rightarrow> sptr list \<Rightarrow> mgr \<Rightarrow> sptr list \<times> mgr" where
  "fill_scope i [] sc s = (sc[i := SNull], s)"
| "fill_scope i (a # as) sc s =
     (if i < MAXSCOPE - 1 then
        (case os_strdup a s of (p, s1) \<Rightarrow> fill_scope (i + 1) as (sc[i := p]) s1)
      else (sc[i := SNull], s))"

definition set_scope :: "nat \<Rightarrow> string list \<Rightarrow> mgr_op" where
  "set_scope idx argv s =
     bindE (clear_scope (scope (cli s ! idx))) (\<lambda>sc.
       if strcaseeq (argv ! 2) ''all'' then Inr (upd_cli idx (\<lambda>c. c\<lparr>scope := sc\<rparr>) s)
       else case fill_scope 0 (drop 2 argv) sc s of (sc1, s1) \<Rightarrow>
         Inr (upd_cli idx (\<lambda>c. c\<lparr>scope := sc1\<rparr>) s1))"

fun show_scope :: "nat \<Rightarrow> sptr list \<Rightarrow> mgr_op" where
  "show_scope idx [] s = Inl OutOfBounds"
| "show_scope idx (p # ps) s =
     (if p = SNull then Inr s
      else bindE (prt_of p) (\<lambda>t. bindE (cliPrt idx (''     %s'' @ nl, [PStr t]) s) (show_scope idx ps)))"

text \<open>
  \<^verbatim>\<open>set summary\<close> without a value reads an element of \<^verbatim>\<open>argv\<close> that was never assigned.
\<close>

definition cmdSet :: cmdFunc_t where
  "cmdSet idx argv s =
     (if length argv < 2 then prts idx set_usage s
      else if argv ! 1 = ''validate'' then set_bool idx CMD_VALIDATE argv s
      else if argv ! 1 = ''summary'' then
        (if length argv < 3 then Inl Indeterminate
         else bindE (onoff2val idx (argv ! 2) s) (\<lambda>(v, s1).
           case v of None \<Rightarrow> Inr s1 | Some val \<Rightarrow> Inr (s1\<lparr>summary := val\<rparr>)))
      else if argv ! 1 = ''tracking'' then set_bool idx CMD_TRACK argv s
      else if argv ! 1 = ''poison'' then set_bool idx CMD_POISON argv s
      else if argv ! 1 = ''tag'' then
        (if length argv < 3 then getAppVar idx CMD_TAG s
         else if atoi (argv ! 2) \<ge> 0 then setAppVar idx CMD_TAG (atoi (argv ! 2)) s
         else Inr s)
      else if argv ! 1 = ''scope'' then
        (if length argv < 3 then
           thenE (prts idx [''Current scope is :'' @ nl])
             (\<lambda>s1. if scope (cli s1 ! idx) ! 0 = SNull
                   then prts idx [''All Registered Applications are within scope.'' @ nl] s1
                   else show_scope idx (scope (cli s1 ! idx)) s1) s
         else set_scope idx argv s)
      else cliPrt idx (''Invalid command '' @ [CHR 0x27] @ ''%s'' @ [CHR 0x27] @ ''.'' @ nl, [PStr (argv ! 1)]) s)"

section \<open>The command table and the interpreter\<close>

text \<open>The names, descriptions and \<^verbatim>\<open>wait\<close> marks of the table, which \<^verbatim>\<open>help\<close> lists.\<close>

definition cmd_texts :: "(string \<times> string \<times> int) list" where
  "cmd_texts =
     [(''help'', ''Display the list of available commands.'', 0),
      (''list'', ''List all of the registered application names.'', 0),
      (''pop'', ''Decrement the current allocation tag.'', 0),
      (''push'', ''Increment the current allocation tag.'', 0),
      (''snap'', ''Take a snapshot of all allocations call stack for later compare.'', 0),
      (''sreport'', ''Show difference in allocation from all unique call stacks.'', 0),
      (''quit'', ''exit the cli altogether'', 0),
      (''report'', ''Report allocations. Usage is report [tag] [file]'' @ nl @ [CHR 0x0D]
         @ ''             Examples: report 0 -or- report -or- report /tmp/report1 -or- report /tmp/foo 3'' @ nl @ [CHR 0x0D]
         @ ''             Optional '' @ [CHR 0x27] @ ''tag'' @ [CHR 0x27] @ '' defaults to current tag.'' @ nl @ [CHR 0x0D]
         @ ''             Optional '' @ [CHR 0x27] @ ''file'' @ [CHR 0x27] @ '' defaults to console.'', 1),
      (''set'', ''Set the value of memory tracking variables for the current scope. Usage : set <variable> <value>'', 0)]"

definition cmdHelp :: cmdFunc_t where
  "cmdHelp idx argv =
     thenE (prts idx [''List of possible commands is :'' @ nl])
       (eachE (\<lambda>(name, d, w). cliPrt idx (''%-10s - %s'' @ nl, [PStr name, PStr d])) cmd_texts)"

definition cmds :: "(string \<times> cmdFunc_t) list" where
  "cmds = zip (map fst cmd_texts)
     [cmdHelp, cmdList, cmdPop, cmdPush, cmdSnap, cmdSreport, cmdQuit, cmdReport, cmdSet]"

definition getCmd :: "string \<Rightarrow> cmdFunc_t option" where
  "getCmd name = map_of cmds name"

definition MAXARGS :: nat where "MAXARGS = 10"

text \<open>
  \<^verbatim>\<open>cliNewCmd\<close>: the result tells whether the console can be prompted again. Without memory for
  its copy of the line, \<^verbatim>\<open>strtok_r\<close> starts from a pointer that was never set.
\<close>

definition cliNewCmd :: "string \<Rightarrow> nat \<Rightarrow> mgr \<Rightarrow> fault + bool \<times> mgr" where
  "cliNewCmd cmdstr idx s =
     (case os_strdup cmdstr s of (p, s1) \<Rightarrow>
        if p = SNull then Inl Indeterminate
        else
          (let argv = take MAXARGS (tokens [CHR '' '', CHR 0x09] cmdstr) in
           if argv = [] then Inr (True, s1)
           else case getCmd (argv ! 0) of
             None \<Rightarrow>
               bindE (cliPrt idx (''Command not found '' @ [CHR 0x27] @ ''%s'' @ [CHR 0x27] @ nl,
                                  [PStr (argv ! 0)]) s1)
                 (\<lambda>s2. Inr (True, s2))
           | Some f \<Rightarrow> bindE (f idx argv s1) (\<lambda>s2. Inr (waiting (cli s2 ! idx) = 0, s2))))"

section \<open>Connections\<close>

definition CLI_PORT :: int where "CLI_PORT = 12012"

text \<open>The telnet options: echo, suppress go-ahead, binary both ways.\<close>

definition IACSET :: "u8 \<Rightarrow> u8 \<Rightarrow> u8 \<Rightarrow> bytes" where
  "IACSET a b c = [a, b, c]"

definition cli_telnet_init :: "int \<Rightarrow> mgr \<Rightarrow> mgr" where
  "cli_telnet_init fd s =
     fold (\<lambda>b t. snd (os_write fd b t))
       [IACSET 0xff 0xfb 0x01, IACSET 0xff 0xfb 0x03, IACSET 0xff 0xfb 0x00, IACSET 0xff 0xfd 0x00] s"

definition newCli :: "mgr_op" where
  "newCli s =
     (case sys_newfd False s of (fd, s1) \<Rightarrow>
        if fd = -1 then Inr s1
        else case first_free (map t_fd (cli s1)) of
          None \<Rightarrow> Inr (os_close fd s1)
        | Some idx \<Rightarrow>
            (let s2 = upd_cli idx (\<lambda>c. c\<lparr>ipStr := peer s1, t_fd := fd, t_ffd := -1, t_iac := 0\<rparr>) s1;
                 s3 = cli_telnet_init fd s2
             in bindE (rl_init (mjunk s3) (terminfo s3) (termcaps s3) idx s3) (\<lambda>((rl, out), cp, s4).
                  bindE (run_outs idx out (s4\<lparr>termcaps := cp\<rparr>)) (\<lambda>s5.
                    Inr (upd_cli idx (\<lambda>c. c\<lparr>t_rl := rl\<rparr>) s5)))))"

text \<open>
  \<^verbatim>\<open>handleCli\<close>: one character to the editor of the console, and what it asks for.
\<close>

definition handleCli :: "nat \<Rightarrow> mgr_op" where
  "handleCli idx s =
     (case cliGetchar idx s of (c, s1) \<Rightarrow>
        case (t_rl (cli s1 ! idx), termcaps s1) of
          (Some rl, Some cp) \<Rightarrow>
            bindE (rl_newChar cp (mjunk s1) c rl s1) (\<lambda>(act, rl1, out, s2).
            bindE (run_outs idx out (upd_cli idx (\<lambda>c. c\<lparr>t_rl := Some rl1\<rparr>) s2)) (\<lambda>s3.
              case act of
                Stay \<Rightarrow> Inr s3
              | Close \<Rightarrow> closeCli idx s3
              | Line cmd \<Rightarrow>
                  bindE (cliNewCmd cmd idx s3) (\<lambda>(again, s4). on_rl idx (\<lambda>cp. rl_after_cmd cp again) s4)))
        | _ \<Rightarrow> Inl DeadPointer)"

definition cliSetFds :: "mgr \<Rightarrow> int list \<times> int \<Rightarrow> int list \<times> int" where
  "cliSetFds s acc = set_fds (cliFd s # map t_fd (filter (\<lambda>c. waiting c = 0) (cli s))) acc"

definition cliProcessFds :: "int list \<Rightarrow> mgr_op" where
  "cliProcessFds fdset s =
     bindE (if cliFd s \<ge> 0 \<and> cliFd s \<in> set fdset then newCli s else Inr s)
       (eachE (\<lambda>idx t. if t_fd (cli t ! idx) \<ge> 0 \<and> t_fd (cli t ! idx) \<in> set fdset
                       then handleCli idx t else Inr t) [0..<MAXCLI])"

definition setupCliSocket :: "mgr_op" where
  "setupCliSocket s =
     (case sys_newfd False s of (fd, s1) \<Rightarrow>
        if fd < 0 then Inl Exit
        else case sys_call s1 of (b, s2) \<Rightarrow>
          if b < 0 then Inl Exit
          else case sys_call s2 of (l, s3) \<Rightarrow>
            if l \<noteq> 0 then Inl Exit
            else Inr (s3\<lparr>cliFd := fd, cli := map (\<lambda>c. c\<lparr>t_fd := -1\<rparr>) (cli s3)\<rparr>))"

definition shutdownCliSocket :: "mgr \<Rightarrow> mgr" where
  "shutdownCliSocket s = s"

end
