(* ===== verification/Trx_Mgr.thy ===== *)
theory Trx_Mgr imports Trx_Cli
begin

text \<open>
  \<^verbatim>\<open>trxmgr.c\<close>: the configuration file, the signals, the start of the manager and its main loop.
\<close>

section \<open>The configuration file\<close>

definition defaultAppSettings :: u32 where
  "defaultAppSettings = FLAG_ENABLE + FLAG_POISON + FLAG_VALIDATE + FLAG_TRACK"

text \<open>The delimiters between the settings of a line.\<close>

definition conf_delims :: string where
  "conf_delims = [CHR '' '', CHR 0x09, CHR '','', CHR 0x0D, CHR 0x0A]"

text \<open>
  The settings \<^verbatim>\<open>flag=on|off\<close> of one line, in their order: the flags, and the number of errors. A
  setting in error leaves the flags as they are.
\<close>

fun conf_flags :: "string list \<Rightarrow> u32 \<Rightarrow> nat \<Rightarrow> u32 \<times> nat" where
  "conf_flags [] fl err = (fl, err)"
| "conf_flags (tok # toks) fl err =
     (if CHR ''='' \<notin> set tok then conf_flags toks fl (err + 1)
      else
        (let flag = takeWhile (\<lambda>c. c \<noteq> CHR ''='') tok;
             val = drop 1 (dropWhile (\<lambda>c. c \<noteq> CHR ''='') tok)
         in case flagMask flag of
              None \<Rightarrow> conf_flags toks fl (err + 1)
            | Some msk \<Rightarrow>
                if strcaseeq val ''on'' then conf_flags toks (fl OR msk) err
                else if \<not> strcaseeq val ''off'' then conf_flags toks fl (err + 1)
                else conf_flags toks (fl AND NOT msk) err))"

text \<open>One line: nothing, a name that is too long, or an entry with the errors of its settings.\<close>

datatype conf_line_t = Skip | TooLong | Entry appdata_t nat

definition conf_line :: "string \<Rightarrow> conf_line_t" where
  "conf_line buf =
     (case strtok ws buf of
        None \<Rightarrow> Skip
      | Some (tok, r) \<Rightarrow>
          if tok ! 0 = CHR ''#'' then Skip
          else if length tok \<ge> MAXCNAME then TooLong
          else case conf_flags (tokens conf_delims r) 0 0 of (fl, err) \<Rightarrow>
            Entry \<lparr>cname = tok, aflags = fl, atag = 0\<rparr> err)"

text \<open>
  The loop over the lines: the new table, the number of errors, and the state, whose defaults an
  entry \<^verbatim>\<open>*\<close> sets at once.
\<close>

fun conf_lines :: "string list \<Rightarrow> appdata_t list \<Rightarrow> nat \<Rightarrow> mgr \<Rightarrow> (appdata_t list \<times> nat) \<times> mgr" where
  "conf_lines [] newapps err s = ((newapps, err), s)"
| "conf_lines (l # ls) newapps err s =
     (if length newapps < MAXAPPS then
        (case conf_line (cstr l) of
           Skip \<Rightarrow> conf_lines ls newapps err s
         | TooLong \<Rightarrow> conf_lines ls newapps (err + 1) s
         | Entry app e \<Rightarrow>
             if cname app = ''*''
             then conf_lines ls newapps (err + e) (s\<lparr>defaultsValid := True, defaultFlags := aflags app\<rparr>)
             else conf_lines ls (newapps @ [app]) (err + e) s)
      else ((newapps, err), s))"

text \<open>\<^verbatim>\<open>fgets\<close> is given one byte less than the buffer of 200.\<close>

definition CONFBUF :: nat where "CONFBUF = 199"

definition readConf :: "mgr \<Rightarrow> fault + bool \<times> mgr" where
  "readConf s =
     (case files s (conffile s) of
        None \<Rightarrow> Inl Exit
      | Some f \<Rightarrow>
          (case conf_lines (fgets_all CONFBUF f) [] 0 s of ((newapps, err), s1) \<Rightarrow>
             if err \<noteq> 0 then Inr (False, s1) else Inr (True, s1\<lparr>apps := newapps\<rparr>)))"

section \<open>Signals\<close>

definition sigHandler :: "mgr \<Rightarrow> mgr" where
  "sigHandler s = s\<lparr>redoConf := True\<rparr>"

definition mgrShutDown :: "mgr \<Rightarrow> mgr" where
  "mgrShutDown s = shutdownCliSocket (shutdownClientSocket s)"

definition intHandler :: "mgr \<Rightarrow> mgr" where
  "intHandler s = mgrShutDown s"

datatype signal = SIGHUP | SIGINT | SIGTERM | SIGQUIT | SIGSEGV | SIGBUS | SIGSYS | SIGXFSZ | SIGXCPU

text \<open>\<^verbatim>\<open>setSig\<close>: the handler of a signal; all but that of \<^verbatim>\<open>SIGHUP\<close> are reset when they run.\<close>

definition setSig :: "signal \<Rightarrow> mgr \<Rightarrow> mgr" where
  "setSig sig = (if sig = SIGHUP then sigHandler else intHandler)"

section \<open>Start and main loop\<close>

text \<open>What \<^verbatim>\<open>getopt\<close> returns: \<^verbatim>\<open>-d\<close>, \<^verbatim>\<open>-c file\<close>, or an option it does not know.\<close>

datatype opt = OptD | OptC string | OptBad

fun options :: "opt list \<Rightarrow> int \<times> mgr \<Rightarrow> int \<times> mgr" where
  "options [] acc = acc"
| "options (OptD # os) (lvl, s) = options os (lvl + 1, s)"
| "options (OptC f # os) (lvl, s) = options os (lvl, s\<lparr>conffile := f\<rparr>)"
| "options (OptBad # os) acc = options os acc"

text \<open>
  Up to the main loop. Without \<^verbatim>\<open>-d\<close> the parent of the \<^verbatim>\<open>fork\<close> leaves with \<^verbatim>\<open>exit(0)\<close>.
\<close>

definition main_init :: "opt list \<Rightarrow> mgr_op" where
  "main_init opts s =
     bindE (setupClientSocket s) (\<lambda>s1.
     bindE (setupCliSocket s1) (\<lambda>s2.
     case options opts (0, s2) of (lvl, s3) \<Rightarrow>
     bindE (readConf s3) (\<lambda>(ok, s4).
       if \<not> ok then Inl Exit
       else if lvl = 0 then (case sys_call s4 of (p, s5) \<Rightarrow> if p \<noteq> 0 then Inl Exit else Inr s5)
       else Inr s4)))"

text \<open>
  One turn of the main loop. \<^verbatim>\<open>select\<close> waits for the descriptors of both tables; \<open>readys\<close> holds
  those it then reports, \<open>eintrs\<close> whether a failure is an interruption.
\<close>

definition sel_ready :: "int list \<Rightarrow> mgr \<Rightarrow> int list \<times> mgr" where
  "sel_ready fdset s =
     (case readys s of [] \<Rightarrow> ([], s)
      | r # rs \<Rightarrow> (filter (\<lambda>fd. fd \<in> set r) fdset, s\<lparr>readys := rs\<rparr>))"

definition sel_eintr :: "mgr \<Rightarrow> bool \<times> mgr" where
  "sel_eintr s = (case eintrs s of [] \<Rightarrow> (False, s) | b # bs \<Rightarrow> (b, s\<lparr>eintrs := bs\<rparr>))"

definition main_step :: "mgr_op" where
  "main_step s =
     (case cliSetFds s (clientSetFds s ([], 0)) of (fdset, maxfd) \<Rightarrow>
      case os_select s of (n, s1) \<Rightarrow>
        if n > 0 then
          (case sel_ready fdset s1 of (ready, s2) \<Rightarrow>
             thenE (clientProcessFds ready) (cliProcessFds ready) s2)
        else if n < 0 then
          (case sel_eintr s1 of (b, s2) \<Rightarrow>
             if \<not> b then Inl Exit
             else if redoConf s2
                  then bindE (readConf s2) (\<lambda>(ok, s3). Inr (s3\<lparr>redoConf := False\<rparr>))
                  else Inr s2)
        else Inr s1)"

end
