(* ===== verification/Trx_MgrInv.thy ===== *)
theory Trx_MgrInv imports Trx_Mgr
begin

text \<open>
  The invariant of the manager's tables, one lemma per operation, and the reachable states of the
  manager as a state machine: turns of its main loop, signals, and whatever its peers do to the
  descriptors.
\<close>

section \<open>The invariant\<close>

text \<open>
  Both tables keep their size; a client's report goes to a slot of the console table, a console's
  scope ends inside its array, its count of pending answers is never negative, and the
  configuration fits its table and its name buffers.
\<close>

definition client_ok :: "cdata_t \<Rightarrow> bool" where
  "client_ok c \<longleftrightarrow> reportTo c < MAXCLI"

definition cli_ok :: "cli_t \<Rightarrow> bool" where
  "cli_ok c \<longleftrightarrow> 0 \<le> waiting c \<and> length (scope c) = MAXSCOPE \<and> scope c ! (MAXSCOPE - 1) = SNull"

definition app_ok :: "appdata_t \<Rightarrow> bool" where
  "app_ok a \<longleftrightarrow> cname a \<noteq> [] \<and> length (cname a) < MAXCNAME"

definition mgr_ok :: "mgr \<Rightarrow> bool" where
  "mgr_ok s \<longleftrightarrow>
     length (clients s) = MAXCLIENTS \<and> length (cli s) = MAXCLI \<and>
     (\<forall>c\<in>set (clients s). client_ok c) \<and> (\<forall>c\<in>set (cli s). cli_ok c) \<and>
     length (apps s) \<le> MAXAPPS \<and> (\<forall>a\<in>set (apps s). app_ok a) \<and> summary s \<in> {0, 1}"

lemma mgr_ok_cong:
  "clients s = clients t \<Longrightarrow> cli s = cli t \<Longrightarrow> apps s = apps t \<Longrightarrow> summary s = summary t \<Longrightarrow>
   mgr_ok s = mgr_ok t"
  by (simp add: mgr_ok_def)

lemma mgr_of_more:
  assumes "os.more s = os.more (t :: mgr)"
  shows "clients s = clients t" "cli s = cli t" "apps s = apps t" "summary s = summary t"
    "termcaps s = termcaps t" "serverFd s = serverFd t" "cliFd s = cliFd t"
    "defaultsValid s = defaultsValid t" "defaultFlags s = defaultFlags t" "conffile s = conffile t"
    "files s = files t" "msegs s = msegs t" "redoConf s = redoConf t"
  using assms by (cases s, cases t, simp)+

lemma ok_more: "os.more s = os.more t \<Longrightarrow> mgr_ok s = mgr_ok t"
  by (rule mgr_ok_cong) (rule mgr_of_more, assumption)+

lemma mgr_set_chan [simp]:
  "clients (set_chan fd c s) = clients s" "cli (set_chan fd c s) = cli s" "apps (set_chan fd c s) = apps s"
  "defaultsValid (set_chan fd c s) = defaultsValid s" "defaultFlags (set_chan fd c s) = defaultFlags s"
  by (simp_all add: set_chan_def)

named_theorems ok_intro \<open>the operations keep the invariant\<close>

lemma ok_upd_cli [ok_intro]:
  assumes "mgr_ok s" and "cli_ok (cli s ! idx) \<Longrightarrow> cli_ok (f (cli s ! idx))"
  shows "mgr_ok (upd_cli idx f s)"
proof (cases "idx < length (cli s)")
  case True
  with assms show ?thesis
    using set_update_subset_insert [of "cli s" idx "f (cli s ! idx)"]
    by (auto simp: mgr_ok_def upd_cli_def)
qed (use assms in \<open>simp add: mgr_ok_def upd_cli_def list_update_beyond\<close>)

lemma ok_upd_client [ok_intro]:
  assumes "mgr_ok s" and "client_ok (clients s ! idx) \<Longrightarrow> client_ok (f (clients s ! idx))"
  shows "mgr_ok (upd_client idx f s)"
proof (cases "idx < length (clients s)")
  case True
  with assms show ?thesis
    using set_update_subset_insert [of "clients s" idx "f (clients s ! idx)"]
    by (auto simp: mgr_ok_def upd_client_def)
qed (use assms in \<open>simp add: mgr_ok_def upd_client_def list_update_beyond\<close>)

lemma ok_cli_at: "mgr_ok s \<Longrightarrow> idx < MAXCLI \<Longrightarrow> cli_ok (cli s ! idx)"
  by (simp add: mgr_ok_def)

lemma ok_client_at: "mgr_ok s \<Longrightarrow> idx < MAXCLIENTS \<Longrightarrow> client_ok (clients s ! idx)"
  by (simp add: mgr_ok_def)

section \<open>System calls\<close>

lemma ok_set_chan [simp]: "mgr_ok (set_chan fd c s) = mgr_ok s"
  by (rule ok_more) simp

lemma ok_os_close [simp]: "mgr_ok (os_close fd s) = mgr_ok s"
  by (simp add: os_close_def)

lemma ok_fields [simp]:
  "mgr_ok (s\<lparr>sys := a\<rparr>) = mgr_ok s" "mgr_ok (s\<lparr>readys := b\<rparr>) = mgr_ok s"
  "mgr_ok (s\<lparr>eintrs := c\<rparr>) = mgr_ok s" "mgr_ok (s\<lparr>msegs := d\<rparr>) = mgr_ok s"
  "mgr_ok (s\<lparr>mshmats := e\<rparr>) = mgr_ok s" "mgr_ok (s\<lparr>mshmstats := g\<rparr>) = mgr_ok s"
  "mgr_ok (s\<lparr>termcaps := h\<rparr>) = mgr_ok s" "mgr_ok (s\<lparr>redoConf := i\<rparr>) = mgr_ok s"
  "mgr_ok (s\<lparr>conffile := j\<rparr>) = mgr_ok s" "mgr_ok (s\<lparr>defaultsValid := k, defaultFlags := l\<rparr>) = mgr_ok s"
  by (simp_all add: mgr_ok_def)

lemma ok_os_write [simp]: "mgr_ok (snd (os_write fd b s)) = mgr_ok s"
  by (rule ok_more) (metis os_write_more prod.collapse)

lemma ok_sys_call: "sys_call s = (r, s') \<Longrightarrow> mgr_ok s' = mgr_ok s"
  by (auto simp: sys_call_def split: list.splits)

lemma ok_sys_newfd: "sys_newfd b s = (r, s') \<Longrightarrow> mgr_ok s' = mgr_ok s"
  by (auto simp: sys_newfd_def split: prod.splits if_splits dest: ok_sys_call)

lemma ok_os_malloc: "os_malloc s = (r, s') \<Longrightarrow> mgr_ok s' = mgr_ok s"
  by (rule ok_more) (rule os_malloc_more)

lemma ok_os_strdup: "os_strdup t s = (r, s') \<Longrightarrow> mgr_ok s' = mgr_ok s"
  by (auto simp: os_strdup_def split: prod.splits dest: ok_os_malloc)

lemma ok_os_read: "os_read fd n s = (r, s') \<Longrightarrow> mgr_ok s' = mgr_ok s"
  by (rule ok_more) (rule os_read_more)

lemma ok_os_select: "os_select s = (n, s') \<Longrightarrow> mgr_ok s' = mgr_ok s"
  by (rule ok_more) (rule os_select_more)

lemmas ok_sys = ok_sys_call ok_sys_newfd ok_os_malloc ok_os_strdup ok_os_read ok_os_select

section \<open>Consoles\<close>

lemma ok_eachE:
  assumes "eachE f xs s = Inr s'" and "mgr_ok s"
    and "\<And>x t t'. x \<in> set xs \<Longrightarrow> f x t = Inr t' \<Longrightarrow> mgr_ok t \<Longrightarrow> mgr_ok t'"
  shows "mgr_ok s'"
proof -
  have "keeps (\<lambda>t t'. mgr_ok t \<longrightarrow> mgr_ok t') (eachE f xs)"
  proof (rule keeps_eachE)
    fix x assume "x \<in> set xs"
    then show "keeps (\<lambda>t t'. mgr_ok t \<longrightarrow> mgr_ok t') (f x)" using assms(3) by (auto simp: keeps_def)
  qed (auto simp: transp_def reflp_def)
  from keepsD [OF this assms(1)] assms(2) show ?thesis by simp
qed

lemma ok_cliPrt: "cliPrt idx p s = Inr s' \<Longrightarrow> mgr_ok s \<Longrightarrow> mgr_ok s'"
  by (auto simp: cliPrt_def Let_def split: prod.splits if_splits option.splits)

lemma ok_cliPutStr [simp]: "mgr_ok (cliPutStr idx t s) = mgr_ok s"
  by (simp add: cliPutStr_def)

lemma ok_run_outs: "run_outs idx out s = Inr s' \<Longrightarrow> mgr_ok s \<Longrightarrow> mgr_ok s'"
  unfolding run_outs_def
  by (erule ok_eachE) (auto simp: run_out_def split: out.splits dest: ok_cliPrt)

lemma free_scope_keeps:
  "free_scope sc = Inr sc' \<Longrightarrow>
     length sc' = length sc \<and> (\<forall>i < length sc. sc ! i = SNull \<longrightarrow> sc' ! i = SNull)"
proof (induction sc arbitrary: sc')
  case (Cons p ps)
  then show ?case
    by (auto simp: nth_Cons' less_Suc_eq_0_disj split: if_splits)
qed simp

lemma ok_closeCli:
  assumes "closeCli idx s = Inr s'" and "mgr_ok s"
  shows "mgr_ok s'"
proof -
  define s1 where "s1 = upd_cli idx (\<lambda>c. c\<lparr>t_fd := -1\<rparr>) (os_close (t_fd (cli s ! idx)) s)"
  have ok1: "mgr_ok s1" unfolding s1_def by (rule ok_upd_cli) (use assms(2) in \<open>auto simp: cli_ok_def\<close>)
  from assms(1) obtain sc where sc: "free_scope (scope (cli s1 ! idx)) = Inr sc"
    and s': "s' = upd_cli idx (\<lambda>c. c\<lparr>scope := sc\<rparr>) s1"
    by (auto simp: closeCli_def s1_def Let_def)
  show ?thesis
    unfolding s' by (rule ok_upd_cli [OF ok1])
      (use free_scope_keeps [OF sc] in \<open>auto simp: cli_ok_def MAXSCOPE_def\<close>)
qed

lemma ok_on_rl: "on_rl idx f s = Inr s' \<Longrightarrow> mgr_ok s \<Longrightarrow> mgr_ok s'"
  by (auto simp: on_rl_def cli_ok_def split: option.splits prod.splits elim!: ok_run_outs intro!: ok_upd_cli)

lemma ok_cliDecWait: "cliDecWait idx s = Inr s' \<Longrightarrow> mgr_ok s \<Longrightarrow> mgr_ok s'"
  by (auto simp: cliDecWait_def Let_def cli_ok_def split: if_splits elim!: ok_on_rl intro!: ok_upd_cli)

lemma ok_cliGetchar: "cliGetchar idx s = (c, s') \<Longrightarrow> mgr_ok s \<Longrightarrow> mgr_ok s'"
  by (auto simp: cliGetchar_def cli_ok_def split: prod.splits if_splits intro!: ok_upd_cli dest: ok_os_read)

section \<open>Clients\<close>

lemma ok_closeClient: "closeClient idx s = Inr s' \<Longrightarrow> mgr_ok s \<Longrightarrow> mgr_ok s'"
  by (auto simp: closeClient_def Let_def client_ok_def intro!: ok_upd_client elim: ok_cliDecWait)

lemma ok_sendCmdMore: "sendCmdMore fd sq c a b n pm cb s = (r, s') \<Longrightarrow> mgr_ok s' = mgr_ok s"
  by (rule ok_more) (rule sendCmdMore_more)

lemma ok_recvAck: "recvAck fd sq s = (r, s') \<Longrightarrow> mgr_ok s' = mgr_ok s"
  by (rule ok_more) (cases r, simp add: recvAck_more)

lemma ok_mgrSendCmd2: "mgrSendCmd2 idx cmd a b s = Inr (r, s') \<Longrightarrow> mgr_ok s \<Longrightarrow> mgr_ok s'"
  by (auto simp: mgrSendCmd2_def Let_def client_ok_def split: prod.splits if_splits
      intro!: ok_upd_client elim!: ok_closeClient dest: ok_sendCmdMore ok_recvAck)

lemma ok_mgrSendCmd1: "mgrSendCmd1 idx cmd a s = Inr (r, s') \<Longrightarrow> mgr_ok s \<Longrightarrow> mgr_ok s'"
  unfolding mgrSendCmd1_def by (rule ok_mgrSendCmd2)

lemma ok_walk:
  assumes "trxmgrClientWalkList cb s = Inr s'" and "mgr_ok s"
    and "\<And>i t t'. i < MAXCLIENTS \<Longrightarrow> cb i t = Inr t' \<Longrightarrow> mgr_ok t \<Longrightarrow> mgr_ok t'"
  shows "mgr_ok s'"
  using assms(1,2) unfolding trxmgrClientWalkList_def
  by (rule ok_eachE) (auto split: if_splits intro: assms(3))

lemma ok_GetVar: "trxmgrClientGetVar c v s = Inr (r, s') \<Longrightarrow> mgr_ok s \<Longrightarrow> mgr_ok s'"
  by (auto simp: trxmgrClientGetVar_def split: if_splits elim: ok_mgrSendCmd2)

lemma ok_SetVar: "trxmgrClientSetVar c v x s = Inr (r, s') \<Longrightarrow> mgr_ok s \<Longrightarrow> mgr_ok s'"
  by (auto simp: trxmgrClientSetVar_def split: if_splits elim: ok_mgrSendCmd2)

lemma ok_AskPush: "trxmgrClientAskPush c s = Inr (r, s') \<Longrightarrow> mgr_ok s \<Longrightarrow> mgr_ok s'"
  by (auto simp: trxmgrClientAskPush_def split: if_splits elim: ok_mgrSendCmd1)

lemma ok_AskPop: "trxmgrClientAskPop c s = Inr (r, s') \<Longrightarrow> mgr_ok s \<Longrightarrow> mgr_ok s'"
  by (auto simp: trxmgrClientAskPop_def split: if_splits elim: ok_mgrSendCmd1)

lemma ok_AskReport:
  "trxmgrClientAskReport c idx tag k s = Inr (r, s') \<Longrightarrow> idx < MAXCLI \<Longrightarrow> mgr_ok s \<Longrightarrow> mgr_ok s'"
  by (auto simp: trxmgrClientAskReport_def client_ok_def split: if_splits
      elim!: ok_mgrSendCmd2 intro!: ok_upd_client)

lemma ok_send_flags: "send_flags idx es s = Inr (r, s') \<Longrightarrow> mgr_ok s \<Longrightarrow> mgr_ok s'"
  by (induction es arbitrary: s) (auto split: if_splits dest: ok_mgrSendCmd2)

lemma ok_sendConfig: "sendConfig idx s = Inr s' \<Longrightarrow> mgr_ok s \<Longrightarrow> mgr_ok s'"
  by (auto simp: sendConfig_def split: if_splits dest!: ok_send_flags dest: ok_mgrSendCmd1)

lemma ok_getCmdStr: "mgr_ok s \<Longrightarrow> mgr_ok (getCmdStr idx p s)"
  by (auto simp: getCmdStr_def Let_def client_ok_def split: prod.splits intro!: ok_upd_client dest: ok_os_strdup)

lemma ok_rcvCB: "mgr_rcvCB idx c n pm s = Inr (v, s') \<Longrightarrow> mgr_ok s \<Longrightarrow> mgr_ok s'"
  by (auto simp: mgr_rcvCB_def Let_def client_ok_def split: if_splits
      intro!: ok_upd_client ok_getCmdStr elim!: ok_cliDecWait ok_cliPrt)

section \<open>Reports\<close>

lemma ok_report_frame: "report_frame w idx s = Inr s' \<Longrightarrow> mgr_ok s \<Longrightarrow> mgr_ok s'"
  by (auto simp: report_frame_def Let_def thenE_Inr_iff split: if_splits elim!: ok_cliPrt)

lemma ok_show_vector: "show_vector idx g es s = Inr s' \<Longrightarrow> mgr_ok s \<Longrightarrow> mgr_ok s'"
  by (auto simp: show_vector_def Let_def split: if_splits prod.splits
      elim!: ok_report_frame ok_cliPrt ok_eachE)

lemma ok_do_report: "do_report idx g n s = Inr s' \<Longrightarrow> mgr_ok s \<Longrightarrow> mgr_ok s'"
  by (auto simp: do_report_def split: if_splits prod.splits elim!: ok_show_vector dest: ok_os_malloc)

lemma ok_do_snap: "do_snap idx g n s = Inr s' \<Longrightarrow> mgr_ok s \<Longrightarrow> mgr_ok s'"
  by (auto simp: do_snap_def client_ok_def split: if_splits prod.splits elim!: ok_cliPrt
      intro!: ok_upd_client dest: ok_os_malloc)

lemma ok_do_sreport: "do_sreport idx g n s = Inr s' \<Longrightarrow> mgr_ok s \<Longrightarrow> mgr_ok s'"
  by (auto simp: do_sreport_def split: if_splits prod.splits option.splits
      elim!: ok_show_vector ok_cliPrt dest: ok_os_malloc)

lemma ok_mshm: "mshm_at g s = (r, s') \<Longrightarrow> mgr_ok s' = mgr_ok s" "mshm_stat s = (b, s') \<Longrightarrow> mgr_ok s' = mgr_ok s"
  by (auto simp: mshm_at_def mshm_stat_def split: list.splits)

lemma ok_showReport: "showReport idx s = Inr s' \<Longrightarrow> mgr_ok s \<Longrightarrow> mgr_ok s'"
  by (auto simp: showReport_def Let_def split: if_splits prod.splits option.splits
      elim!: ok_cliDecWait dest!: ok_do_report ok_do_snap ok_do_sreport dest: ok_mshm)

section \<open>Serving clients\<close>

lemma ok_handleExchange: 
  assumes "mgr_handleExchange idx s = Inr s'" and "mgr_ok s"
  shows "mgr_ok s'"
proof -
  from assms(1) obtain r s1 where rc: "rcvCmd (c_fd (clients s ! idx)) (mgr_rcvCB idx) s = Inr (r, s1)"
    by (auto simp: mgr_handleExchange_def)
  have "mgr_ok s1" by (rule rcvCmd_inv [where P = mgr_ok, OF rc ok_more ok_rcvCB assms(2)])
  with assms(1) rc show ?thesis
    by (auto simp: mgr_handleExchange_def thenE_Inr_iff client_ok_def split: if_splits
        elim!: ok_closeClient ok_cliDecWait ok_showReport intro!: ok_upd_client dest: ok_sendConfig)
qed

lemma ok_newClient: "mgr_ok s \<Longrightarrow> mgr_ok (newClient s)"
  by (auto simp: newClient_def client_ok_def split: prod.splits option.splits intro!: ok_upd_client
      dest: ok_sys_newfd)

lemma ok_clientProcessFds: "clientProcessFds f s = Inr s' \<Longrightarrow> mgr_ok s \<Longrightarrow> mgr_ok s'"
  unfolding clientProcessFds_def
  by (erule ok_eachE) (auto split: if_splits intro: ok_newClient elim: ok_handleExchange)

section \<open>Commands\<close>

lemma ok_prts: "prts idx fs s = Inr s' \<Longrightarrow> mgr_ok s \<Longrightarrow> mgr_ok s'"
  unfolding prts_def by (erule ok_eachE) (auto elim: ok_cliPrt)

lemma ok_prt_client: "prt_client idx c p s = Inr s' \<Longrightarrow> mgr_ok s \<Longrightarrow> mgr_ok s'"
  by (auto simp: prt_client_def elim: ok_cliPrt)

lemma ok_cmdList: "cmdList idx argv s = Inr s' \<Longrightarrow> mgr_ok s \<Longrightarrow> mgr_ok s'"
  by (auto simp: cmdList_def thenE_Inr_iff listCb_def elim!: ok_prts ok_walk ok_prt_client)

lemma ok_onoff2val: "onoff2val idx v s = Inr (r, s') \<Longrightarrow> mgr_ok s \<Longrightarrow> mgr_ok s'"
  by (auto simp: onoff2val_def split: if_splits elim: ok_cliPrt)

lemma ok_reportCb:
  assumes "reportCb idx c s = Inr s'" and "idx < MAXCLI" and "mgr_ok s"
  shows "mgr_ok s'"
  using assms(1,3)
  by (auto simp: reportCb_def in_scope_def Let_def cli_ok_def split: if_splits
      elim!: ok_cliDecWait intro!: ok_upd_cli dest!: ok_AskReport [OF _ assms(2,3)])

lemma ok_cmdReportHub: "cmdReportHub k idx argv s = Inr s' \<Longrightarrow> idx < MAXCLI \<Longrightarrow> mgr_ok s \<Longrightarrow> mgr_ok s'"
  by (auto simp: cmdReportHub_def Let_def cli_ok_def split: option.splits prod.splits if_splits
      elim!: ok_cliPrt ok_walk ok_reportCb intro!: ok_upd_cli dest!: ok_sys_newfd)

lemma ok_callbacks:
  "incCb idx c s = Inr s' \<Longrightarrow> mgr_ok s \<Longrightarrow> mgr_ok s'"
  "decCb idx c s = Inr s' \<Longrightarrow> mgr_ok s \<Longrightarrow> mgr_ok s'"
  "getVarCb idx c s = Inr s' \<Longrightarrow> mgr_ok s \<Longrightarrow> mgr_ok s'"
  "setVarCb idx c s = Inr s' \<Longrightarrow> mgr_ok s \<Longrightarrow> mgr_ok s'"
  by (auto simp: incCb_def decCb_def getVarCb_def setVarCb_def in_scope_def split: if_splits
      elim!: ok_prt_client dest: ok_AskPush ok_AskPop ok_GetVar ok_SetVar)

lemma ok_getAppVar: "getAppVar idx c s = Inr s' \<Longrightarrow> mgr_ok s \<Longrightarrow> mgr_ok s'"
  unfolding getAppVar_def by (erule ok_walk) (auto simp: cli_ok_def intro!: ok_upd_cli elim: ok_callbacks)

lemma ok_setAppVar: "setAppVar idx c v s = Inr s' \<Longrightarrow> mgr_ok s \<Longrightarrow> mgr_ok s'"
  unfolding setAppVar_def by (erule ok_walk) (auto simp: cli_ok_def intro!: ok_upd_cli elim: ok_callbacks)

lemma ok_set_bool: "set_bool idx c argv s = Inr s' \<Longrightarrow> mgr_ok s \<Longrightarrow> mgr_ok s'"
  by (auto simp: set_bool_def split: if_splits option.splits
      elim!: ok_getAppVar ok_setAppVar dest: ok_onoff2val)

lemma ok_fill_scope:
  "fill_scope i as sc s = (sc', s') \<Longrightarrow> i < MAXSCOPE \<Longrightarrow> length sc = MAXSCOPE \<Longrightarrow>
     sc ! (MAXSCOPE - 1) = SNull \<Longrightarrow>
     mgr_ok s' = mgr_ok s \<and> length sc' = MAXSCOPE \<and> sc' ! (MAXSCOPE - 1) = SNull"
proof (induction i as sc s arbitrary: sc' s' rule: fill_scope.induct)
  case (2 i a as sc s)
  show ?case
  proof (cases "i < MAXSCOPE - 1")
    case True
    obtain p s1 where d: "os_strdup a s = (p, s1)" by force
    with True "2.prems" have "fill_scope (i + 1) as (sc[i := p]) s1 = (sc', s')" by simp
    from "2.IH" [OF True d [symmetric] this] True "2.prems" ok_os_strdup [OF d] show ?thesis by simp
  qed (use "2.prems" in \<open>auto simp: nth_list_update\<close>)
qed (auto simp: nth_list_update)

lemma ok_set_scope:
  assumes "set_scope idx argv s = Inr s'" and "idx < MAXCLI" and "mgr_ok s"
  shows "mgr_ok s'"
proof -
  have c: "cli_ok (cli s ! idx)" using assms by (simp add: ok_cli_at)
  from assms(1) obtain sc where sc: "clear_scope (scope (cli s ! idx)) = Inr sc"
    by (auto simp: set_scope_def)
  then have l: "length sc = MAXSCOPE" "sc ! (MAXSCOPE - 1) = SNull"
    using c by (auto simp: clear_scope_def cli_ok_def nth_append MAXSCOPE_def split: if_splits)
  obtain sc1 s1 where f: "fill_scope 0 (drop 2 argv) sc s = (sc1, s1)" by force
  from ok_fill_scope [OF f _ l] assms c l sc f show ?thesis
    by (auto simp: set_scope_def cli_ok_def MAXSCOPE_def split: if_splits intro!: ok_upd_cli)
qed

lemma ok_show_scope: "show_scope idx ps s = Inr s' \<Longrightarrow> mgr_ok s \<Longrightarrow> mgr_ok s'"
  by (induction ps arbitrary: s) (auto split: if_splits dest: ok_cliPrt)

lemma ok_summary: "mgr_ok s \<Longrightarrow> v \<in> {0, 1} \<Longrightarrow> mgr_ok (s\<lparr>summary := v\<rparr>)"
  by (simp add: mgr_ok_def)

lemma onoff2val_bool: "onoff2val idx v s = Inr (Some x, s') \<Longrightarrow> x \<in> {0, 1}"
  by (auto simp: onoff2val_def split: if_splits)

lemma ok_cmdSet: "cmdSet idx argv s = Inr s' \<Longrightarrow> idx < MAXCLI \<Longrightarrow> mgr_ok s \<Longrightarrow> mgr_ok s'"
  by (auto simp: cmdSet_def thenE_Inr_iff split: if_splits option.splits
      elim!: ok_prts ok_set_bool ok_getAppVar ok_setAppVar ok_cliPrt ok_set_scope ok_show_scope
      dest: ok_onoff2val onoff2val_bool intro!: ok_summary)

lemma ok_cmdHelp: "cmdHelp idx argv s = Inr s' \<Longrightarrow> mgr_ok s \<Longrightarrow> mgr_ok s'"
  unfolding cmdHelp_def thenE_Inr_iff
  by (auto elim!: ok_eachE ok_prts ok_cliPrt)

section \<open>The interpreter\<close>

lemma getCmd_cases:
  "getCmd n = Some f \<Longrightarrow>
     f \<in> {cmdHelp, cmdList, cmdPop, cmdPush, cmdSnap, cmdSreport, cmdQuit, cmdReport, cmdSet}"
  unfolding getCmd_def by (drule map_of_SomeD) (auto simp: cmds_def cmd_texts_def)

lemma ok_cmd:
  assumes "getCmd n = Some f" and "f idx argv s = Inr s'" and "idx < MAXCLI" and "mgr_ok s"
  shows "mgr_ok s'"
proof -
  have walk: "mgr_ok s'" if "trxmgrClientWalkList (incCb idx) s = Inr s' \<or> trxmgrClientWalkList (decCb idx) s = Inr s'"
    using that assms(4) by (auto elim!: ok_walk ok_callbacks)
  show ?thesis
    using getCmd_cases [OF assms(1)] assms(2-4) walk
    by (auto simp: cmdPop_def cmdPush_def cmdQuit_def cmdReport_def cmdSnap_def cmdSreport_def
        elim: ok_cmdHelp ok_cmdList ok_cmdReportHub ok_closeCli ok_cmdSet)
qed

lemma ok_cliNewCmd:
  assumes "cliNewCmd c idx s = Inr (b, s')" and "idx < MAXCLI" and "mgr_ok s"
  shows "mgr_ok s'"
  using assms
  by (auto simp: cliNewCmd_def Let_def split: prod.splits if_splits option.splits
      dest: ok_os_strdup ok_cliPrt ok_cmd)

section \<open>Connections of consoles\<close>

lemma hist_setmax_more: "hist_setmax j m h s = (o1, h', s') \<Longrightarrow> os.more s' = os.more s"
  by (auto simp: hist_setmax_def split: if_splits prod.splits dest!: os_malloc_more)

lemma hist_init_more: "hist_init j m c idx s = Inr (o1, h', s') \<Longrightarrow> os.more s' = os.more s"
  by (auto simp: hist_init_def split: if_splits prod.splits dest!: os_malloc_more hist_setmax_more)

lemma hist_add_more: "hist_add a b h s = Inr (p, h', s') \<Longrightarrow> os.more s' = os.more s"
  by (auto simp: hist_add_def Let_def split: if_splits prod.splits dest!: os_malloc_more)

lemma repeat_more: "repeat i x h s = Inr (p, h', s') \<Longrightarrow> os.more s' = os.more s"
  by (auto simp: repeat_def dest: hist_add_more)

lemma hist_designator_more: "hist_designator t h s = Inr (p, h', s') \<Longrightarrow> os.more s' = os.more s"
  by (auto simp: hist_designator_def Let_def split: if_splits option.splits dest: repeat_more)

lemma hist_cmd_more: "hist_cmd j t h s = Inr (p, h', s') \<Longrightarrow> os.more s' = os.more s"
  by (auto simp: hist_cmd_def Let_def split: if_splits option.splits prod.splits
      dest: hist_designator_more hist_add_more hist_setmax_more)

lemma ok_rl_newChar: "rl_newChar cp j c rl s = Inr (act, rl', out, s') \<Longrightarrow> mgr_ok s' = mgr_ok s"
  by (rule ok_more)
    (auto simp: rl_newChar_def key_linedone_def Let_def split: if_splits option.splits prod.splits;
      erule hist_cmd_more)

lemma ok_rl_init: "rl_init j db cur idx s = Inr (r, cp, s') \<Longrightarrow> mgr_ok s' = mgr_ok s"
  by (rule ok_more)
    (auto simp: rl_init_def Let_def split: if_splits option.splits prod.splits
      dest!: os_malloc_more hist_init_more)

lemma ok_telnet [simp]: "mgr_ok (cli_telnet_init fd s) = mgr_ok s"
  by (simp add: cli_telnet_init_def)

lemma ok_newCli: "newCli s = Inr s' \<Longrightarrow> mgr_ok s \<Longrightarrow> mgr_ok s'"
  by (auto simp: newCli_def Let_def cli_ok_def split: prod.splits if_splits option.splits
      intro!: ok_upd_cli elim!: ok_run_outs dest!: ok_sys_newfd ok_rl_init)

lemma ok_handleCli:
  assumes "handleCli idx s = Inr s'" and "idx < MAXCLI" and "mgr_ok s"
  shows "mgr_ok s'"
proof -
  obtain c s1 where g: "cliGetchar idx s = (c, s1)" by force
  have ok1: "mgr_ok s1" by (rule ok_cliGetchar [OF g assms(3)])
  obtain rl cp where r: "t_rl (cli s1 ! idx) = Some rl" "termcaps s1 = Some cp"
    using assms(1) g by (auto simp: handleCli_def split: option.splits)
  then obtain act rl1 out s2 s3 where n: "rl_newChar cp (mjunk s1) c rl s1 = Inr (act, rl1, out, s2)"
    and o: "run_outs idx out (upd_cli idx (\<lambda>c. c\<lparr>t_rl := Some rl1\<rparr>) s2) = Inr s3"
    and f: "(case act of Stay \<Rightarrow> Inr s3 | Close \<Rightarrow> closeCli idx s3
             | Line cmd \<Rightarrow> bindE (cliNewCmd cmd idx s3)
                 (\<lambda>(again, s4). on_rl idx (\<lambda>cp. rl_after_cmd cp again) s4)) = Inr s'"
    using assms(1) g by (auto simp: handleCli_def)
  have "mgr_ok s2" using ok_rl_newChar [OF n] ok1 by simp
  then have "mgr_ok (upd_cli idx (\<lambda>c. c\<lparr>t_rl := Some rl1\<rparr>) s2)"
    by (rule ok_upd_cli) (simp add: cli_ok_def)
  then have "mgr_ok s3" by (rule ok_run_outs [OF o])
  with f show ?thesis
    by (auto split: rl_act.splits elim: ok_closeCli elim!: ok_on_rl dest: ok_cliNewCmd [OF _ assms(2)])
qed

lemma ok_cliProcessFds: "cliProcessFds f s = Inr s' \<Longrightarrow> mgr_ok s \<Longrightarrow> mgr_ok s'"
  by (auto simp: cliProcessFds_def split: if_splits elim!: ok_eachE ok_handleCli dest: ok_newCli)

section \<open>Configuration and main loop\<close>

lemma conf_line_entry: "conf_line buf = Entry app e \<Longrightarrow> app_ok app"
  by (auto simp: conf_line_def app_ok_def split: option.splits if_splits prod.splits dest: strtok_token(1))

lemma ok_conf_lines:
  assumes "conf_lines ls newapps err s = ((newapps', err'), s')"
    and "length newapps \<le> MAXAPPS" and "\<forall>a\<in>set newapps. app_ok a" and "mgr_ok s"
  shows "length newapps' \<le> MAXAPPS \<and> (\<forall>a\<in>set newapps'. app_ok a) \<and> mgr_ok s'"
  using assms
proof (induction ls newapps err s rule: conf_lines.induct)
  case (2 l ls newapps err s)
  show ?case
  proof (cases "length newapps < MAXAPPS")
    case True
    with 2 show ?thesis
      by (cases "conf_line (cstr l)") (auto simp: Let_def conf_line_entry split: if_splits)
  qed (use 2 in auto)
qed auto

lemma ok_readConf: "readConf s = Inr (b, s') \<Longrightarrow> mgr_ok s \<Longrightarrow> mgr_ok s'"
  by (auto simp: readConf_def mgr_ok_def split: option.splits prod.splits if_splits
      dest!: ok_conf_lines)

lemma ok_signal: "mgr_ok (setSig sig s) = mgr_ok s"
  by (simp add: setSig_def sigHandler_def intHandler_def mgrShutDown_def shutdownCliSocket_def
      shutdownClientSocket_def)

lemma ok_main_step: "main_step s = Inr s' \<Longrightarrow> mgr_ok s \<Longrightarrow> mgr_ok s'"
  by (auto simp: main_step_def sel_ready_def sel_eintr_def thenE_Inr_iff
      split: prod.splits if_splits list.splits
      elim!: ok_cliProcessFds ok_clientProcessFds ok_readConf dest!: ok_os_select)

section \<open>The manager as a state machine\<close>

text \<open>What belongs to the manager: the peers and the kernel change the rest of the state.\<close>

definition same_tables :: "mgr \<Rightarrow> mgr \<Rightarrow> bool" where
  "same_tables s t \<longleftrightarrow>
     clients t = clients s \<and> serverFd t = serverFd s \<and> cli t = cli s \<and> summary t = summary s \<and>
     cliFd t = cliFd s \<and> apps t = apps s \<and> defaultsValid t = defaultsValid s \<and>
     defaultFlags t = defaultFlags s \<and> conffile t = conffile s \<and> redoConf t = redoConf s \<and>
     termcaps t = termcaps s"

inductive mgr_step :: "mgr \<Rightarrow> mgr \<Rightarrow> bool" where
  turn: "main_step s = Inr s' \<Longrightarrow> mgr_step s s'"
| signalled: "mgr_step s (setSig sig s)"
| peers: "same_tables s s' \<Longrightarrow> mgr_step s s'"

inductive_cases mgr_stepE: "mgr_step s s'"

interpretation mgr_machine: state_machine mgr_step mgr_ok
proof
  fix s s' assume "mgr_ok s" "mgr_step s s'"
  then show "mgr_ok s'"
    by (auto simp: ok_signal same_tables_def elim!: mgr_stepE elim: ok_main_step cong: mgr_ok_cong)
qed

text \<open>The tables as the program starts with them, all zeros.\<close>

definition client0 :: cdata_t where
  "client0 = \<lparr>c_fd = 0, c_pid = 0, c_total = 0, needConfig = False, produceFinalReport = False,
     c_more = 0, reportTo = 0, c_subCmd = 0, c_pmore = None, c_name = SNull, c_seq = 0,
     c_adata = ANull, snap = None, snapsize = 0\<rparr>"

definition cli0 :: cli_t where
  "cli0 = \<lparr>t_fd = 0, t_ffd = 0, t_iac = 0, waiting = 0, curval = 0, curcmd = 0, t_tag = 0,
     t_subCmd = 0, ipStr = [], t_rl = None, scope = replicate MAXSCOPE SNull\<rparr>"

definition booted :: "mgr \<Rightarrow> bool" where
  "booted s \<longleftrightarrow> clients s = replicate MAXCLIENTS client0 \<and> serverFd s = -1 \<and>
     cli s = replicate MAXCLI cli0 \<and> summary s = 0 \<and> cliFd s = -1 \<and> apps s = [] \<and>
     \<not> defaultsValid s \<and> defaultFlags s = defaultAppSettings \<and> \<not> redoConf s \<and> termcaps s = None"

lemma ok_options: "options os (l, s) = (l', s') \<Longrightarrow> mgr_ok s' = mgr_ok s"
  by (induction os "(l, s)" arbitrary: l s rule: options.induct) auto

lemma ok_main_init:
  assumes "main_init opts s = Inr s'" and "booted s"
  shows "mgr_ok s'"
proof -
  have "mgr_ok s"
    using assms(2)
    by (simp add: booted_def mgr_ok_def client_ok_def cli_ok_def client0_def cli0_def MAXCLI_def
        MAXSCOPE_def)
  obtain s1 s2 where s1: "setupClientSocket s = Inr s1" and s2: "setupCliSocket s1 = Inr s2"
    using assms(1) by (auto simp: main_init_def)
  have "mgr_ok s1" using s1 \<open>mgr_ok s\<close>
    by (auto simp: setupClientSocket_def split: prod.splits if_splits dest!: ok_sys_call ok_sys_newfd)
      (auto simp: mgr_ok_def client_ok_def)
  then have "mgr_ok s2" using s2
    by (auto simp: setupCliSocket_def split: prod.splits if_splits dest!: ok_sys_call ok_sys_newfd)
      (auto simp: mgr_ok_def cli_ok_def)
  with assms(1) s1 s2 show ?thesis
    by (auto simp: main_init_def split: prod.splits if_splits dest!: ok_options ok_readConf dest: ok_sys_call)
qed

section \<open>Every reachable state\<close>

text \<open>
  C4. Whatever the clients and the consoles send, in every state the manager reaches from its start
  its tables have their sizes, the console a report of any client would go to exists, the scope of
  every console ends inside its array, no console counts a negative number of pending answers, and
  the configuration fits the table and the name buffers of its entries.
\<close>

theorem manager_tables:
  assumes "booted s0" and "main_init opts s0 = Inr s1" and "mgr_step\<^sup>*\<^sup>* s1 s"
  shows "length (clients s) = 100 \<and> length (cli s) = 10 \<and>
    (\<forall>i<100. reportTo (clients s ! i) < 10) \<and>
    (\<forall>i<10. 0 \<le> waiting (cli s ! i) \<and> length (scope (cli s ! i)) = 20 \<and>
            scope (cli s ! i) ! 19 = SNull) \<and>
    length (apps s) \<le> 100 \<and> (\<forall>a\<in>set (apps s). 0 < length (cname a) \<and> length (cname a) < 100)"
proof -
  from mgr_machine.inv_run [OF assms(3) ok_main_init [OF assms(2,1)]] have "mgr_ok s" .
  then show ?thesis
    by (auto simp: mgr_ok_def client_ok_def cli_ok_def app_ok_def MAXCLIENTS_def MAXCLI_def
        MAXSCOPE_def MAXAPPS_def MAXCNAME_def)
qed

text \<open>A manager with a configuration of one application, whose first turn times out.\<close>

definition conf1 :: string where
  "conf1 = ''cat track=on'' @ [CHR 0x0A]"

definition mgr0 :: mgr where
  "mgr0 =
     \<lparr>chans = (\<lambda>_. closed_chan), sels = [], oom = [],
      clients = replicate MAXCLIENTS client0, serverFd = -1, cli = replicate MAXCLI cli0, summary = 0,
      cliFd = -1, apps = [], defaultsValid = False, defaultFlags = defaultAppSettings,
      conffile = ''/etc/trxdbg.conf'', redoConf = False, termcaps = None,
      sys = [3, 0, 0, 4, 0, 0, 0], readys = [], eintrs = [],
      files = (\<lambda>f. if f = ''/etc/trxdbg.conf'' then Some conf1 else None),
      procStatus = (\<lambda>_. None), procStatm = (\<lambda>_. None), msegs = (\<lambda>_. None), mshmats = [],
      mshmstats = [], terminfo = None, mjunk = (\<lambda>_. 0), peer = [], errstr = []\<rparr>"

lemma mgr0_booted: "booted mgr0"
  by (simp add: booted_def mgr0_def)

lemma mgr0_starts: "\<exists>s1 s2. main_init [] mgr0 = Inr s1 \<and> main_step s1 = Inr s2"
proof -
  have "\<not> isl (bindE (main_init [] mgr0) main_step)" by code_simp
  then show ?thesis by (cases "main_init [] mgr0"; cases "main_step (projr (main_init [] mgr0))") auto
qed

lemma manager_tables_witness:
  "\<exists>s1 s2. main_init [] mgr0 = Inr s1 \<and> mgr_step\<^sup>*\<^sup>* s1 s2 \<and> length (clients s2) = 100"
proof -
  obtain s1 s2 where i: "main_init [] mgr0 = Inr s1" and t: "main_step s1 = Inr s2"
    using mgr0_starts by blast
  from t have "mgr_step\<^sup>*\<^sup>* s1 s2" by (blast intro: mgr_step.turn)
  with manager_tables [OF mgr0_booted i this] i show ?thesis by blast
qed

end
