(* ===== verification/Trx_MgrConf.thy ===== *)
theory Trx_MgrConf imports Trx_MgrInv
begin

text \<open>
  What the configuration file means to the manager: reading back what a printer of configurations
  writes, the settings an application gets, and what a file with errors still changes.
\<close>

section \<open>A configuration as text\<close>

definition setting :: "u32 \<Rightarrow> flgmap_t \<Rightarrow> string" where
  "setting fl e = flgstr e @ (if fmask e AND fl \<noteq> 0 then ''=on'' else ''=off'')"

definition settings :: "u32 \<Rightarrow> string" where
  "settings fl = concat (map (\<lambda>e. '' '' @ setting fl e) flgmap)"

definition conf_text :: "appdata_t list \<Rightarrow> string" where
  "conf_text as = concat (map (\<lambda>a. cname a @ settings (aflags a) @ [CHR 0x0A]) as)"

text \<open>
  Names that can stand in a file: one word that is not a comment, shorter than the buffer, and not
  the entry for the defaults.
\<close>

definition good_name :: "string \<Rightarrow> bool" where
  "good_name n \<longleftrightarrow> n \<noteq> [] \<and> length n < MAXCNAME \<and> set n \<inter> set ws = {} \<and> CHR 0x00 \<notin> set n \<and>
     hd n \<noteq> CHR ''#'' \<and> n \<noteq> ''*''"

definition good_app :: "appdata_t \<Rightarrow> bool" where
  "good_app a \<longleftrightarrow> good_name (cname a) \<and> aflags a \<in> set (map of_nat [0..<16]) \<and> atag a = 0"

lemma fgets_all_line:
  assumes "CHR 0x0A \<notin> set b" and "length b + 2 \<le> n"
  shows "fgets_all n (b @ CHR 0x0A # r) = (b @ [CHR 0x0A]) # fgets_all n r"
proof -
  have "takeWhile (\<lambda>c. c \<noteq> CHR 0x0A) (b @ CHR 0x0A # r) = b"
    using assms(1) by (induction b) auto
  then have "fgets_len n (b @ CHR 0x0A # r) = length b + 1"
    using assms(2) by (simp add: fgets_len_def Let_def)
  then show ?thesis using assms(2) by (simp add: fgets_all.simps [of n "b @ CHR 0x0A # r"])
qed

lemma strtok_first:
  assumes "w \<noteq> []" and "set w \<inter> set d = {}" and "c \<in> set d"
  shows "strtok d (w @ c # r) = Some (w, r)"
proof -
  have h: "dropWhile (\<lambda>c. c \<in> set d) (w @ c # r) = w @ c # r"
    using assms(1,2) by (cases w) auto
  have "takeWhile (\<lambda>c. c \<notin> set d) (w @ c # r) = w" "dropWhile (\<lambda>c. c \<notin> set d) (w @ c # r) = c # r"
    using assms(2,3) by (auto simp: takeWhile_append2 dropWhile_append2 disjoint_iff)
  with h show ?thesis by (simp add: strtok_def Let_def)
qed

lemma settings_read:
  "list_all (\<lambda>k. hd (settings (of_nat k)) = CHR '' '' \<and> length (settings (of_nat k)) \<le> 50 \<and>
       settings (of_nat k) \<noteq> [] \<and> CHR 0x0A \<notin> set (settings (of_nat k)) \<and> CHR 0x00 \<notin> set (settings (of_nat k)) \<and>
       conf_flags (tokens conf_delims (tl (settings (of_nat k)) @ [CHR 0x0A])) 0 0 = (of_nat k, 0)) [0..<16]"
  by code_simp

lemma settings_at:
  assumes "fl \<in> set (map of_nat [0..<16])"
  shows "\<exists>r. settings fl = CHR '' '' # r \<and> conf_flags (tokens conf_delims (r @ [CHR 0x0A])) 0 0 = (fl, 0)"
    and "length (settings fl) \<le> 50" and "CHR 0x0A \<notin> set (settings fl)" and "CHR 0x00 \<notin> set (settings fl)"
proof -
  from assms obtain k where k: "fl = of_nat k" "k \<in> set [0..<16]" by auto
  note r = settings_read [unfolded list_all_iff, rule_format, OF k(2), folded k(1)]
  from r show "\<exists>r. settings fl = CHR '' '' # r \<and> conf_flags (tokens conf_delims (r @ [CHR 0x0A])) 0 0 = (fl, 0)"
    by (intro exI [of _ "tl (settings fl)"]) (metis list.collapse)
  from r show "length (settings fl) \<le> 50" "CHR 0x0A \<notin> set (settings fl)" "CHR 0x00 \<notin> set (settings fl)"
    by simp_all
qed

lemma cstr_no_nul: "CHR 0x00 \<notin> set t \<Longrightarrow> cstr t = t"
  by (auto simp: cstr_def takeWhile_eq_all_conv NUL_def)

lemma conf_line_text:
  assumes "good_app a"
  shows "conf_line (cstr (cname a @ settings (aflags a) @ [CHR 0x0A])) = Entry a 0"
proof -
  let ?n = "cname a" and ?t = "cname a @ settings (aflags a) @ [CHR 0x0A]"
  from assms have g: "?n \<noteq> []" "set ?n \<inter> set ws = {}" "length ?n < MAXCNAME" "hd ?n \<noteq> CHR ''#''"
    and fl: "aflags a \<in> set (map of_nat [0..<16])" and z: "CHR 0x00 \<notin> set ?n" "atag a = 0"
    by (simp_all add: good_app_def good_name_def)
  obtain r where r: "settings (aflags a) = CHR '' '' # r"
    and f: "conf_flags (tokens conf_delims (r @ [CHR 0x0A])) 0 0 = (aflags a, 0)"
    using settings_at(1) [OF fl] by blast
  have "cstr ?t = ?t" by (rule cstr_no_nul) (use z settings_at(4) [OF fl] in auto)
  moreover have "strtok ws ?t = Some (?n, r @ [CHR 0x0A])"
    unfolding r append_Cons by (rule strtok_first) (use g in \<open>auto simp: ws_def\<close>)
  ultimately show ?thesis
    using g f z by (cases a) (simp add: conf_line_def hd_conv_nth)
qed

lemma conf_lines_text:
  assumes "\<forall>a\<in>set as. good_app a" and "length new + length as \<le> MAXAPPS"
  shows "conf_lines (map (\<lambda>a. cname a @ settings (aflags a) @ [CHR 0x0A]) as) new 0 s = ((new @ as, 0), s)"
  using assms
proof (induction as arbitrary: new)
  case (Cons a as)
  then have "cname a \<noteq> ''*''" by (simp add: good_app_def good_name_def)
  with Cons show ?case by (simp add: conf_line_text)
qed simp

lemma fgets_conf_text:
  assumes "\<forall>a\<in>set as. good_app a"
  shows "fgets_all CONFBUF (conf_text as) = map (\<lambda>a. cname a @ settings (aflags a) @ [CHR 0x0A]) as"
  using assms
proof (induction as)
  case Nil
  show ?case by (simp add: conf_text_def fgets_all.simps [of _ "[]"])
next
  case (Cons a as)
  let ?b = "cname a @ settings (aflags a)"
  from Cons.prems have fl: "aflags a \<in> set (map of_nat [0..<16])"
    and n: "length (cname a) < MAXCNAME" "set (cname a) \<inter> set ws = {}"
    by (simp_all add: good_app_def good_name_def)
  from n(2) have "CHR 0x0A \<notin> set (cname a)" by (auto simp: ws_def)
  then have "CHR 0x0A \<notin> set ?b" using settings_at(3) [OF fl] by simp
  moreover have "length ?b + 2 \<le> CONFBUF"
    using n(1) settings_at(2) [OF fl] by (simp add: CONFBUF_def MAXCNAME_def)
  ultimately have "fgets_all CONFBUF (?b @ CHR 0x0A # conf_text as) =
      (?b @ [CHR 0x0A]) # fgets_all CONFBUF (conf_text as)" by (rule fgets_all_line)
  with Cons show ?case by (simp add: conf_text_def)
qed

text \<open>
  C17. A configuration of up to 100 applications written to the file, with the name of every flag as
  the flag table has it, is read back entry by entry: the names, the flags, the order; and the
  defaults stay as they were.
\<close>

theorem conf_roundtrip:
  assumes "files s (conffile s) = Some (conf_text as)" and "length as \<le> MAXAPPS"
    and "\<forall>a\<in>set as. good_app a"
  shows "readConf s = Inr (True, s\<lparr>apps := as\<rparr>)"
  using assms by (simp add: readConf_def fgets_conf_text conf_lines_text)

lemma conf_roundtrip_witness:
  "readConf (mgr0\<lparr>files := \<lambda>_. Some (conf_text [\<lparr>cname = ''cat'', aflags = 9, atag = 0\<rparr>])\<rparr>) =
     Inr (True, mgr0\<lparr>files := \<lambda>_. Some (conf_text [\<lparr>cname = ''cat'', aflags = 9, atag = 0\<rparr>]),
                     apps := [\<lparr>cname = ''cat'', aflags = 9, atag = 0\<rparr>]\<rparr>)"
  by (subst conf_roundtrip [where as = "[\<lparr>cname = ''cat'', aflags = 9, atag = 0\<rparr>]"])
    (simp_all add: MAXAPPS_def good_app_def good_name_def MAXCNAME_def ws_def upt_rec image_iff)

section \<open>What a file means\<close>

text \<open>The entries of the file and the number of its errors, line by line.\<close>

definition conf_entries :: "string list \<Rightarrow> appdata_t list" where
  "conf_entries ls = concat (map (\<lambda>l. case conf_line (cstr l) of Entry a e \<Rightarrow> [a] | _ \<Rightarrow> []) ls)"

definition conf_errors :: "string list \<Rightarrow> nat" where
  "conf_errors ls =
     sum_list (map (\<lambda>l. case conf_line (cstr l) of Entry a e \<Rightarrow> e | TooLong \<Rightarrow> 1 | Skip \<Rightarrow> 0) ls)"

definition named :: "appdata_t list \<Rightarrow> appdata_t list" where
  "named as = filter (\<lambda>a. cname a \<noteq> ''*'') as"

definition starred :: "appdata_t list \<Rightarrow> appdata_t list" where
  "starred as = filter (\<lambda>a. cname a = ''*'') as"

definition set_default :: "appdata_t list \<Rightarrow> mgr \<Rightarrow> mgr" where
  "set_default as s =
     (if starred as = [] then s
      else s\<lparr>defaultsValid := True, defaultFlags := aflags (last (starred as))\<rparr>)"

lemma conf_lines_spec:
  "length new + length (named (conf_entries ls)) < MAXAPPS \<Longrightarrow>
   conf_lines ls new err s =
     ((new @ named (conf_entries ls), err + conf_errors ls), set_default (conf_entries ls) s)"
proof (induction ls arbitrary: new err s)
  case (Cons l ls)
  show ?case
  proof (cases "conf_line (cstr l)")
    case (Entry a e)
    with Cons show ?thesis
      by (auto simp: conf_entries_def conf_errors_def named_def starred_def set_default_def Let_def)
  qed (use Cons in \<open>auto simp: conf_entries_def conf_errors_def\<close>)
qed (simp add: conf_entries_def conf_errors_def named_def starred_def set_default_def)

text \<open>
  C18. What a configuration of less than 100 entries means, errors included: with an error anywhere
  the table stays as it is, without one it becomes the named entries in their order; the last
  entry for the defaults takes effect in both cases, also when the file is reported as ignored.
\<close>

theorem conf_file_meaning:
  assumes "files s (conffile s) = Some f" and "length (named (conf_entries (fgets_all CONFBUF f))) < MAXAPPS"
  shows "readConf s =
    (if conf_errors (fgets_all CONFBUF f) \<noteq> 0
     then Inr (False, set_default (conf_entries (fgets_all CONFBUF f)) s)
     else Inr (True, (set_default (conf_entries (fgets_all CONFBUF f)) s)
                       \<lparr>apps := named (conf_entries (fgets_all CONFBUF f))\<rparr>))"
  using assms by (simp add: readConf_def conf_lines_spec)

definition conf_bad :: string where
  "conf_bad = ''* poison=on'' @ [CHR 0x0A] @ ''cat nonsense'' @ [CHR 0x0A]"

lemma conf_bad_read:
  "named (conf_entries (fgets_all CONFBUF conf_bad)) = [\<lparr>cname = ''cat'', aflags = 0, atag = 0\<rparr>] \<and>
   starred (conf_entries (fgets_all CONFBUF conf_bad)) = [\<lparr>cname = ''*'', aflags = 2, atag = 0\<rparr>] \<and>
   conf_errors (fgets_all CONFBUF conf_bad) = 1"
  by code_simp

lemma conf_file_meaning_witness:
  "readConf (mgr0\<lparr>files := \<lambda>_. Some conf_bad\<rparr>) =
     Inr (False, mgr0\<lparr>files := \<lambda>_. Some conf_bad, defaultsValid := True, defaultFlags := FLAG_POISON\<rparr>)"
  using conf_file_meaning [of "mgr0\<lparr>files := \<lambda>_. Some conf_bad\<rparr>" conf_bad] conf_bad_read
  by (simp add: MAXAPPS_def set_default_def FLAG_POISON_def mgr0_def)

section \<open>What an application gets\<close>

lemma find_index_value:
  assumes "find (\<lambda>i. P (xs ! i)) [0..<length xs] = Some i"
  shows "i < length xs \<and> find P xs = Some (xs ! i)"
proof -
  from assms have i: "i < length xs" "P (xs ! i)" and "\<forall>j<i. \<not> P (xs ! j)"
    by (auto simp: find_Some_iff)
  then show ?thesis by (auto simp: find_Some_iff intro!: exI [of _ i])
qed

text \<open>
  The settings of an application are the flags of the first entry with its name; without one
  they are those of the defaults once a file has set them, and none before. The pointer to them is
  always valid.
\<close>

theorem application_settings:
  "app_flags (getAppConfig name s) s =
     Inr (case find (\<lambda>a. cname a = name) (apps s) of
            Some a \<Rightarrow> aflags a
          | None \<Rightarrow> if defaultsValid s then defaultFlags s else 0)"
proof (cases "find (\<lambda>i. cname (apps s ! i) = name) [0..<length (apps s)]")
  case None
  then have "find (\<lambda>a. cname a = name) (apps s) = None"
    by (auto simp: find_None_iff in_set_conv_nth)
  with None show ?thesis by (simp add: getAppConfig_def app_flags_def)
next
  case (Some i)
  from find_index_value [OF this] Some show ?thesis by (simp add: getAppConfig_def app_flags_def)
qed

section \<open>The type of the table\<close>

text \<open>A name is one word of the file, and the flags are those that exist.\<close>

definition entry_typed :: "appdata_t \<Rightarrow> bool" where
  "entry_typed a \<longleftrightarrow> cname a \<noteq> [] \<and> length (cname a) < MAXCNAME \<and> set (cname a) \<inter> set ws = {} \<and>
     hd (cname a) \<noteq> CHR ''#'' \<and> cname a \<noteq> ''*'' \<and> atag a = 0 \<and>
     aflags a AND NOT (FLAG_ENABLE + FLAG_POISON + FLAG_VALIDATE + FLAG_TRACK) = 0"

lemma flagMask_known: "flagMask f = Some m \<Longrightarrow> m \<in> {1, 2, 4, 8}"
  by (auto simp: flagMask_def flgmap_def flag_defs split: if_splits)

lemma conf_flags_known:
  assumes "conf_flags toks fl err = (fl', err')" and "fl AND NOT 15 = 0"
  shows "fl' AND NOT 15 = 0"
  using assms
proof (induction toks fl err rule: conf_flags.induct)
  case (2 tok toks fl err)
  have "(fl OR m) AND NOT 15 = 0" if "m \<in> {1, 2, 4, 8}" for m :: u32
  proof -
    have "(fl OR m) AND NOT 15 = (fl AND NOT 15) OR (m AND NOT 15)" by (rule bit.conj_disj_distrib2)
    moreover have "m AND NOT 15 = 0" using that by auto
    ultimately show ?thesis using "2.prems"(2) by simp
  qed
  moreover have "(fl AND NOT m) AND NOT 15 = 0" for m
    using "2.prems"(2) by (metis and.assoc and.commute and_zero_eq)
  ultimately show ?case
    using 2 by (auto simp: Let_def split: if_splits option.splits dest!: flagMask_known)
qed simp

lemma conf_line_typed: "conf_line buf = Entry a e \<Longrightarrow> cname a \<noteq> ''*'' \<Longrightarrow> entry_typed a"
  using strtok_token(1,2) [of ws buf]
  by (auto simp: conf_line_def entry_typed_def hd_conv_nth flag_defs disjoint_iff
      split: option.splits if_splits prod.splits dest: conf_flags_known)

lemma conf_lines_typed:
  "conf_lines ls new err s = ((new', err'), s') \<Longrightarrow> \<forall>a\<in>set new. entry_typed a \<Longrightarrow> length new \<le> MAXAPPS \<Longrightarrow>
     (\<forall>a\<in>set new'. entry_typed a) \<and> length new' \<le> MAXAPPS"
proof (induction ls new err s rule: conf_lines.induct)
  case (2 l ls new err s)
  then show ?case
    by (cases "conf_line (cstr l)") (auto simp: Let_def split: if_splits dest: conf_line_typed)
qed simp

text \<open>
  C30. The type of the configuration: whatever the file holds, after it has been accepted every entry
  of the table has a name that is one word of less than 100 characters, not a comment and not the
  mark of the defaults, only flags that exist, and a tag of zero, and the entries fit the table.
\<close>

theorem configuration_typed:
  assumes "readConf s = Inr (True, s')"
  shows "length (apps s') \<le> MAXAPPS \<and> (\<forall>a\<in>set (apps s'). entry_typed a)"
proof -
  from assms obtain f new s1 where "conf_lines (fgets_all CONFBUF f) [] 0 s = ((new, 0), s1)"
    and a: "apps s' = new"
    by (auto simp: readConf_def split: option.splits prod.splits if_splits)
  from conf_lines_typed [OF this(1)] a show ?thesis by simp
qed

lemma configuration_typed_witness:
  "\<exists>s'. readConf mgr0 = Inr (True, s') \<and> (\<forall>a\<in>set (apps s'). entry_typed a)"
proof -
  have "case readConf mgr0 of Inl _ \<Rightarrow> False | Inr (b, s') \<Rightarrow> b" by code_simp
  then obtain s' where "readConf mgr0 = Inr (True, s')"
    by (cases "readConf mgr0") auto
  with configuration_typed [OF this] show ?thesis by blast
qed

end
