(* ===== verification/Trx_MgrOps.thy ===== *)
theory Trx_MgrOps imports Trx_MgrInv
begin

text \<open>
  Properties of the manager's operations: output to a console and its bounds, the telnet filter,
  the slots of its two tables, what a client that dies does to its slot, and the types of the
  configuration.
\<close>

section \<open>Output to a console\<close>

lemma length_crlf: "length (crlf f) = length f + length (filter (\<lambda>c. c = CHR 0x0A) f)"
  by (induction f) (simp_all add: crlf_def)

text \<open>Where the output of a console goes.\<close>

definition out_fd :: "nat \<Rightarrow> mgr \<Rightarrow> int" where
  "out_fd idx s = (if t_ffd (cli s ! idx) \<ge> 0 then t_ffd (cli s ! idx) else t_fd (cli s ! idx))"

definition shown_fmt :: "nat \<Rightarrow> string \<Rightarrow> mgr \<Rightarrow> string" where
  "shown_fmt idx fmt s = (if t_ffd (cli s ! idx) < 0 then crlf fmt else fmt)"

text \<open>
  C33. A print to a console is without fault exactly when its format, with every newline doubled on
  the terminal or as it is into a file, is shorter than 300 bytes. Then it appends to one descriptor
  at most the first 298 characters of the formatted text, all of them when the kernel takes them,
  and changes nothing else.
\<close>

theorem console_print:
  assumes "printf (shown_fmt idx fmt s) args = Some full" and "CHR 0x00 \<notin> set full"
  shows "(cliPrt idx (fmt, args) s = Inl OutOfBounds \<longleftrightarrow>
            300 \<le> length fmt + (if t_ffd (cli s ! idx) < 0 then length (filter (\<lambda>c. c = CHR 0x0A) fmt) else 0)) \<and>
    (\<forall>s'. cliPrt idx (fmt, args) s = Inr s' \<longrightarrow>
       os.more s' = os.more s \<and> (\<forall>fd. fd \<noteq> out_fd idx s \<longrightarrow> chans s' fd = chans s fd) \<and>
       (\<exists>n. tx (chans s' (out_fd idx s)) = tx (chans s (out_fd idx s)) @ bytes_of (take n full) \<and> n \<le> 298 \<and>
            (isopen (chans s (out_fd idx s)) \<and> wq (chans s (out_fd idx s)) = [] \<longrightarrow> n = 298)))"
proof -
  let ?o = "bytes_of (take 298 full)" and ?fd = "out_fd idx s"
  have o: "cstr (take (PRTBUF - 2) full) = take 298 full"
    using assms(2) by (auto simp: cstr_def PRTBUF_def NUL_def takeWhile_eq_all_conv dest: in_set_takeD)
  have eq: "cliPrt idx (fmt, args) s =
      (if 300 \<le> length (shown_fmt idx fmt s) then Inl OutOfBounds else Inr (snd (os_write ?fd ?o s)))"
    using assms(1) o by (simp add: cliPrt_def Let_def PRTBUF_def out_fd_def shown_fmt_def)
  have w: "os.more (snd (os_write fd b t)) = os.more t \<and> (\<forall>fd'. fd' \<noteq> fd \<longrightarrow> chans (snd (os_write fd b t)) fd' = chans t fd') \<and>
      (\<exists>n. tx (chans (snd (os_write fd b t)) fd) = tx (chans t fd) @ take n b \<and>
           (isopen (chans t fd) \<and> wq (chans t fd) = [] \<longrightarrow> n = length b))" for fd b and t :: mgr
    by (auto simp: os_write_def Let_def intro: exI [of _ 0] exI [of _ "length b"] split: list.splits)
  have "\<exists>n. tx (chans s' ?fd) = tx (chans s ?fd) @ bytes_of (take n full) \<and> n \<le> 298 \<and>
            (isopen (chans s ?fd) \<and> wq (chans s ?fd) = [] \<longrightarrow> n = 298)"
    if s': "s' = snd (os_write ?fd ?o s)" for s'
  proof -
    obtain n where n: "tx (chans s' ?fd) = tx (chans s ?fd) @ take n ?o"
      "isopen (chans s ?fd) \<and> wq (chans s ?fd) = [] \<longrightarrow> n = length ?o"
      using w [of ?fd ?o s] s' by blast
    show ?thesis
    proof (cases "isopen (chans s ?fd) \<and> wq (chans s ?fd) = []")
      case True
      with n show ?thesis by (intro exI [of _ 298]) simp
    next
      case False
      with n show ?thesis by (intro exI [of _ "min n 298"]) (auto simp: bytes_of_def take_map min_def)
    qed
  qed
  with w [of ?fd ?o s] show ?thesis
    by (auto simp: eq shown_fmt_def length_crlf)
qed

lemma console_print_witness:
  "os.more (projr (cliPrt 0 (''hello'' @ [CHR 0x0A], []) mgr0)) = os.more mgr0"
proof -
  have f: "shown_fmt 0 (''hello'' @ [CHR 0x0A]) mgr0 = ''hello'' @ [CHR 0x0A]"
    by (simp add: shown_fmt_def mgr0_def MAXCLI_def cli0_def)
  have p: "printf (shown_fmt 0 (''hello'' @ [CHR 0x0A]) mgr0) [] = Some (''hello'' @ [CHR 0x0A])"
    by (subst f) simp
  from console_print [OF p] show ?thesis
    by (cases "cliPrt 0 (''hello'' @ [CHR 0x0A], []) mgr0")
      (auto simp: cliPrt_def Let_def PRTBUF_def mgr0_def MAXCLI_def cli0_def)
qed

section \<open>The telnet filter\<close>

text \<open>
  What the filter should take out of the input: the escape \<^verbatim>\<open>IAC\<close> with two bytes, or with one if that
  is \<^verbatim>\<open>IAC\<close> or \<^verbatim>\<open>IAC_BREAK\<close>.
\<close>

fun telnet_text :: "u8 list \<Rightarrow> u8 list" where
  "telnet_text [] = []"
| "telnet_text (c # cs) =
     (if c \<noteq> 255 then c # telnet_text cs
      else case cs of
        [] \<Rightarrow> []
      | d # ds \<Rightarrow> if d = 255 \<or> d = 243 then telnet_text ds
                  else case ds of [] \<Rightarrow> [] | e # es \<Rightarrow> telnet_text es)"

text \<open>The results of \<open>n\<close> calls of \<^verbatim>\<open>cliGetchar\<close>.\<close>

fun getchars :: "nat \<Rightarrow> nat \<Rightarrow> mgr \<Rightarrow> int list \<times> mgr" where
  "getchars 0 idx s = ([], s)"
| "getchars (Suc n) idx s =
     (case cliGetchar idx s of (c, s1) \<Rightarrow> case getchars n idx s1 of (cs, s2) \<Rightarrow> (c # cs, s2))"

fun iac_run :: "int \<Rightarrow> u8 list \<Rightarrow> int list" where
  "iac_run iac [] = []"
| "iac_run iac (b # bs) = (case iac_step iac (uint b) of (iac', r) \<Rightarrow> r # iac_run iac' bs)"

lemma uint8_eq: "uint (b :: u8) = 255 \<longleftrightarrow> b = 255" "uint b = 243 \<longleftrightarrow> b = 243" "uint b = 0 \<longleftrightarrow> b = 0"
  by (simp_all add: word_uint_eq_iff)

lemma iac_run_text:
  "filter (\<lambda>r. r \<noteq> 0) (iac_run 0 bs) = map uint (filter (\<lambda>b. b \<noteq> 0) (telnet_text bs))"
proof (induction bs rule: telnet_text.induct)
  case (2 c cs)
  show ?case
  proof (cases "c = 255")
    case False
    with 2 show ?thesis by (simp add: iac_step_def IAC_def uint8_eq)
  next
    case c: True
    show ?thesis
    proof (cases cs)
      case (Cons d ds)
      with 2 c show ?thesis
        by (cases ds) (auto simp: iac_step_def IAC_def IAC_BREAK_def uint8_eq)
    qed (simp add: c iac_step_def IAC_def)
  qed
qed simp

definition console_in :: "nat \<Rightarrow> bytes \<Rightarrow> mgr \<Rightarrow> bool" where
  "console_in idx b s \<longleftrightarrow>
     idx < length (cli s) \<and> isopen (chans s (t_fd (cli s ! idx))) \<and>
     [] \<notin> set (rx (chans s (t_fd (cli s ! idx)))) \<and> concat (rx (chans s (t_fd (cli s ! idx)))) = b"

lemma cliGetchar_step:
  assumes "console_in idx (b # bs) s"
  shows "\<exists>s'. cliGetchar idx s = (snd (iac_step (t_iac (cli s ! idx)) (uint b)), s') \<and>
    t_iac (cli s' ! idx) = fst (iac_step (t_iac (cli s ! idx)) (uint b)) \<and> console_in idx bs s'"
proof -
  let ?fd = "t_fd (cli s ! idx)"
  from assms obtain c cs r where rx: "rx (chans s ?fd) = (c # cs) # r"
    by (cases "rx (chans s ?fd)"; cases "hd (rx (chans s ?fd))") (auto simp: console_in_def)
  with assms have b: "c = b" "cs @ concat r = bs" by (auto simp: console_in_def)
  define s1 where "s1 = set_chan ?fd ((chans s ?fd)\<lparr>rx := (if cs = [] then r else cs # r)\<rparr>) s"
  define f where "f = iac_step (t_iac (cli s ! idx)) (uint b)"
  have "os_read ?fd 1 s = ((1, [c]), s1)"
    using assms rx by (simp add: os_read_def Let_def console_in_def s1_def)
  moreover have "cli s1 = cli s" by (simp add: s1_def set_chan_def)
  ultimately have "cliGetchar idx s = (snd f, upd_cli idx (\<lambda>c. c\<lparr>t_iac := fst f\<rparr>) s1)"
    using b by (simp add: cliGetchar_def f_def split_beta)
  moreover have "console_in idx bs (upd_cli idx (\<lambda>c. c\<lparr>t_iac := fst f\<rparr>) s1)"
    using assms rx b \<open>cli s1 = cli s\<close> by (auto simp: console_in_def upd_cli_def s1_def)
  moreover have "t_iac (cli (upd_cli idx (\<lambda>c. c\<lparr>t_iac := fst f\<rparr>) s1) ! idx) = fst f"
    using assms \<open>cli s1 = cli s\<close> by (simp add: upd_cli_def console_in_def)
  ultimately show ?thesis by (auto simp: f_def)
qed

lemma getchars_run:
  "console_in idx bs s \<Longrightarrow>
     \<exists>s'. getchars (length bs) idx s = (iac_run (t_iac (cli s ! idx)) bs, s') \<and> console_in idx [] s'"
proof (induction bs arbitrary: s)
  case (Cons b bs)
  from cliGetchar_step [OF Cons.prems] obtain s1 where
    s1: "cliGetchar idx s = (snd (iac_step (t_iac (cli s ! idx)) (uint b)), s1)"
      "t_iac (cli s1 ! idx) = fst (iac_step (t_iac (cli s ! idx)) (uint b))" "console_in idx bs s1" by blast
  from Cons.IH [OF s1(3)] s1 show ?case by (auto simp: split_beta)
qed simp

text \<open>
  C20. Reading a console byte by byte takes out exactly telnet's negotiation: the characters the
  reads return, however the bytes were cut into packets, are those of the text without the escape
  sequences, and without the NULs, which the reads cannot tell from bytes taken out; after the last
  one a read reports the end.
\<close>

theorem telnet_filtered:
  assumes "console_in idx bs s" and "t_iac (cli s ! idx) = 0"
  shows "\<exists>rs s'. getchars (length bs) idx s = (rs, s') \<and> length rs = length bs \<and>
    filter (\<lambda>r. r \<noteq> 0) rs = map uint (filter (\<lambda>b. b \<noteq> 0) (telnet_text bs)) \<and> fst (cliGetchar idx s') = -1"
proof -
  from getchars_run [OF assms(1)] assms(2) obtain s' where
    s': "getchars (length bs) idx s = (iac_run 0 bs, s')" "console_in idx [] s'" by auto
  have l: "length (iac_run i bs) = length bs" for i
    by (induction bs arbitrary: i) (simp_all add: split_beta)
  have "fst (cliGetchar idx s') = -1"
  proof -
    from s'(2) have "rx (chans s' (t_fd (cli s' ! idx))) = []"
      by (cases "rx (chans s' (t_fd (cli s' ! idx)))") (auto simp: console_in_def)
    then show ?thesis by (auto simp: cliGetchar_def os_read_def Let_def split: if_splits)
  qed
  with s' l iac_run_text show ?thesis by auto
qed

definition mgr_con :: "bytes list \<Rightarrow> mgr" where
  "mgr_con r = mgr0\<lparr>cli := (cli mgr0)[0 := cli0\<lparr>t_fd := 9, t_ffd := -1\<rparr>],
     chans := (\<lambda>_. closed_chan)(9 := \<lparr>isopen = True, rx = r, ended = Hangup, tx = [], wq = []\<rparr>)\<rparr>"

lemma telnet_filtered_witness:
  "\<exists>rs s'. getchars 5 0 (mgr_con [[255, 253], [1, 104, 105]]) = (rs, s') \<and>
     filter (\<lambda>r. r \<noteq> 0) rs = [104, 105]"
proof -
  let ?s = "mgr_con [[255, 253], [1, 104, 105]]"
  have c: "console_in 0 [255, 253, 1, 104, 105] ?s" and i: "t_iac (cli ?s ! 0) = 0"
    by (simp_all add: console_in_def mgr_con_def mgr0_def MAXCLI_def cli0_def)
  have l: "length [255, 253, 1, 104, 105 :: u8] = 5" by simp
  have t: "map uint (filter (\<lambda>b. b \<noteq> 0) (telnet_text [255, 253, 1, 104, 105])) = [104, 105]" by simp
  from telnet_filtered [OF c i] show ?thesis unfolding l t by blast
qed

section \<open>Slots for connections\<close>

lemma first_free_Some:
  assumes "first_free fs = Some i"
  shows "i < length fs" and "fs ! i < 0" and "\<forall>j<i. 0 \<le> fs ! j"
  using assms by (auto simp: first_free_def find_Some_iff)

lemma first_free_None: "first_free fs = None \<longleftrightarrow> (\<forall>f\<in>set fs. 0 \<le> f)"
  by (force simp: first_free_def find_None_iff in_set_conv_nth)

text \<open>
  What the two tables share: a connection takes the first free slot, or none when all are taken. The
  descriptors in use are then the ones before and the new one.
\<close>

definition in_use :: "int list \<Rightarrow> int multiset" where
  "in_use fs = filter_mset (\<lambda>f. 0 \<le> f) (mset fs)"

locale slot_table =
  fixes slots :: "'s \<Rightarrow> int list"
    and accept :: "int \<Rightarrow> 's \<Rightarrow> fault + 's"
  assumes takes_first_free: "0 \<le> fd \<Longrightarrow> accept fd s = Inr s' \<Longrightarrow>
    slots s' = (case first_free (slots s) of Some i \<Rightarrow> (slots s)[i := fd] | None \<Rightarrow> slots s)"
begin

lemma accept_in_use:
  assumes "0 \<le> fd" and "accept fd s = Inr s'"
  shows "in_use (slots s') =
    (if \<exists>f\<in>set (slots s). f < 0 then add_mset fd (in_use (slots s)) else in_use (slots s))"
proof (cases "first_free (slots s)")
  case None
  moreover from this have "\<forall>f\<in>set (slots s). 0 \<le> f" by (simp add: first_free_None)
  ultimately show ?thesis using takes_first_free [OF assms] by auto
next
  case (Some i)
  note f = first_free_Some [OF this]
  then have "\<exists>f\<in>set (slots s). f < 0" by (meson nth_mem)
  with takes_first_free [OF assms] Some f assms(1) show ?thesis
    by (simp add: in_use_def mset_update)
qed

lemma accept_distinct:
  assumes "0 \<le> fd" and "accept fd s = Inr s'" and "\<forall>f. count (in_use (slots s)) f \<le> 1"
    and "fd \<notin> set (slots s)"
  shows "\<forall>f. count (in_use (slots s')) f \<le> 1"
proof -
  have "count (in_use (slots s)) fd = 0" using assms(4) by (simp add: in_use_def count_eq_zero_iff)
  with assms(3) accept_in_use [OF assms(1,2)] show ?thesis by auto
qed

lemma accept_length: "0 \<le> fd \<Longrightarrow> accept fd s = Inr s' \<Longrightarrow> length (slots s') = length (slots s)"
  by (simp add: takes_first_free split: option.split)

end

text \<open>A connection whose \<^verbatim>\<open>accept\<close> returns \<open>fd\<close>.\<close>

definition connect_client :: "int \<Rightarrow> mgr \<Rightarrow> fault + mgr" where
  "connect_client fd s = Inr (newClient (s\<lparr>sys := fd # sys s\<rparr>))"

definition connect_cli :: "int \<Rightarrow> mgr \<Rightarrow> fault + mgr" where
  "connect_cli fd s = newCli (s\<lparr>sys := fd # sys s\<rparr>)"

lemma accept_call: "0 \<le> fd \<Longrightarrow> sys_newfd False (s\<lparr>sys := fd # sys s\<rparr>) =
    (fd, set_chan fd ((chans s fd)\<lparr>isopen := True\<rparr>) s)"
  by (simp add: sys_newfd_def sys_call_def)

interpretation client_table: slot_table "\<lambda>s. map c_fd (clients s)" connect_client
proof
  fix fd and s s' :: mgr assume "0 \<le> fd" "connect_client fd s = Inr s'"
  then show "map c_fd (clients s') = (case first_free (map c_fd (clients s)) of
      Some i \<Rightarrow> (map c_fd (clients s))[i := fd] | None \<Rightarrow> map c_fd (clients s))"
    by (auto simp: connect_client_def newClient_def accept_call upd_client_def map_update
        os_close_def set_chan_def split: option.splits)
qed

lemma cli_same: "os.more s = os.more (t :: mgr) \<Longrightarrow> cli s = cli t"
  by (rule mgr_of_more(2))

lemma os_write_snd [simp]: "os.more (snd (os_write fd b s)) = os.more s"
  by (metis os_write_more prod.collapse)

lemma cliPrt_cli: "cliPrt idx p s = Inr s' \<Longrightarrow> cli s' = cli s"
  by (rule cli_same)
    (auto simp: cliPrt_def Let_def split: prod.splits if_splits option.splits)

lemma run_outs_cli: "run_outs idx out s = Inr s' \<Longrightarrow> cli s' = cli s"
proof (induction out arbitrary: s)
  case (Cons x out)
  from Cons.prems obtain s1 where s1: "run_out idx x s = Inr s1" "run_outs idx out s1 = Inr s'"
    by (auto simp: run_outs_def)
  have "cli s1 = cli s"
    using s1(1) by (cases x) (auto simp: run_out_def cliPutStr_def intro: cliPrt_cli cli_same)
  with Cons.IH [OF s1(2)] show ?case by simp
qed (simp add: run_outs_def)

lemma rl_init_cli: "rl_init j db cur idx s = Inr (r, cp, s') \<Longrightarrow> cli s' = cli (s :: mgr)"
  by (rule cli_same)
    (auto simp: rl_init_def Let_def split: if_splits option.splits prod.splits
      dest!: os_malloc_more hist_init_more)

lemma telnet_cli [simp]: "cli (cli_telnet_init fd s) = cli s"
  by (rule cli_same) (simp add: cli_telnet_init_def)

interpretation cli_table: slot_table "\<lambda>s. map t_fd (cli s)" connect_cli
proof
  fix fd and s s' :: mgr assume fd: "0 \<le> fd" and a: "connect_cli fd s = Inr s'"
  show "map t_fd (cli s') = (case first_free (map t_fd (cli s)) of
      Some i \<Rightarrow> (map t_fd (cli s))[i := fd] | None \<Rightarrow> map t_fd (cli s))"
  proof (cases "first_free (map t_fd (cli s))")
    case None
    with fd a show ?thesis
      by (auto simp: connect_cli_def newCli_def accept_call os_close_def set_chan_def)
  next
    case (Some i)
    from first_free_Some(1) [OF this] have i: "i < length (cli s)" by simp
    let ?s1 = "set_chan fd ((chans s fd)\<lparr>isopen := True\<rparr>) s"
    let ?s3 = "cli_telnet_init fd (upd_cli i (\<lambda>c. c\<lparr>ipStr := peer ?s1, t_fd := fd, t_ffd := -1, t_iac := 0\<rparr>) ?s1)"
    have c3: "cli ?s3 = (cli s)[i := (cli s ! i)\<lparr>ipStr := peer ?s1, t_fd := fd, t_ffd := -1, t_iac := 0\<rparr>]"
      by (simp add: upd_cli_def)
    from fd a Some obtain rl out cp s4 s5 where
      r: "rl_init (mjunk ?s3) (terminfo ?s3) (termcaps ?s3) i ?s3 = Inr ((rl, out), cp, s4)"
      and o: "run_outs i out (s4\<lparr>termcaps := cp\<rparr>) = Inr s5"
      and s': "s' = upd_cli i (\<lambda>c. c\<lparr>t_rl := rl\<rparr>) s5"
      by (auto simp: connect_cli_def newCli_def accept_call Let_def set_chan_def)
    have "cli s5 = cli ?s3" using run_outs_cli [OF o] rl_init_cli [OF r] by simp
    with s' c3 i Some show ?thesis by (simp add: upd_cli_def map_update)
  qed
qed

text \<open>Every descriptor in use belongs to one slot.\<close>

definition one_each :: "int list \<Rightarrow> bool" where
  "one_each fs \<longleftrightarrow> (\<forall>f. count (in_use fs) f \<le> 1)"

text \<open>
  C28. A new connection, of a client or of a console: while the table has a free slot its descriptor
  joins the ones in use, all of which stay, each in one slot; with the table full nothing changes
  in it and the descriptor is closed. The table keeps its size.
\<close>

theorem connection_slots:
  assumes "sys s = fd # r" and "0 \<le> fd"
  shows "(let fs = map c_fd (clients s); fs' = map c_fd (clients (newClient s)) in
      length fs' = length fs \<and>
      in_use fs' = (if \<exists>f\<in>set fs. f < 0 then add_mset fd (in_use fs) else in_use fs) \<and>
      (one_each fs \<and> fd \<notin> set fs \<longrightarrow> one_each fs') \<and>
      ((\<forall>f\<in>set fs. 0 \<le> f) \<longrightarrow> \<not> isopen (chans (newClient s) fd))) \<and>
    (\<forall>s'. newCli s = Inr s' \<longrightarrow> (let fs = map t_fd (cli s); fs' = map t_fd (cli s') in
      length fs' = length fs \<and>
      in_use fs' = (if \<exists>f\<in>set fs. f < 0 then add_mset fd (in_use fs) else in_use fs) \<and>
      (one_each fs \<and> fd \<notin> set fs \<longrightarrow> one_each fs') \<and>
      ((\<forall>f\<in>set fs. 0 \<le> f) \<longrightarrow> \<not> isopen (chans s' fd))))"
proof -
  let ?t = "s\<lparr>sys := r\<rparr>"
  have s: "s = ?t\<lparr>sys := fd # sys ?t\<rparr>" using assms(1) by simp
  have a: "connect_client fd ?t = Inr (newClient s)" by (subst (2) s) (simp only: connect_client_def)
  have full: "first_free fs = None" if "\<forall>f\<in>set fs. 0 \<le> f" for fs using that by (simp add: first_free_None)
  have opened: "sys_newfd False s = (fd, set_chan fd ((chans s fd)\<lparr>isopen := True\<rparr>) ?t)"
    using accept_call [OF assms(2), of ?t] s by simp
  have c: "\<not> isopen (chans (newClient s) fd)" if "\<forall>f\<in>set (map c_fd (clients s)). 0 \<le> f"
    using full [OF that] opened assms(2) by (simp add: newClient_def os_close_def)
  note client = client_table.accept_length [OF assms(2) a] client_table.accept_in_use [OF assms(2) a]
    client_table.accept_distinct [OF assms(2) a]
  have "connect_cli fd ?t = newCli s" by (subst (2) s) (simp only: connect_cli_def)
  then have b: "connect_cli fd ?t = Inr s'" if "newCli s = Inr s'" for s' using that by simp
  have d: "\<not> isopen (chans s' fd)" if "newCli s = Inr s'" "\<forall>f\<in>set (map t_fd (cli s)). 0 \<le> f" for s'
    using full [OF that(2)] opened assms(2) that(1) by (auto simp: newCli_def os_close_def)
  show ?thesis
    using client c cli_table.accept_length [OF assms(2) b] cli_table.accept_in_use [OF assms(2) b]
      cli_table.accept_distinct [OF assms(2) b] d
    by (auto simp: Let_def one_each_def)
qed

lemma connection_slots_witness:
  "in_use (map c_fd (clients (newClient (mgr0\<lparr>clients := map (\<lambda>c. c\<lparr>c_fd := -1\<rparr>) (clients mgr0)\<rparr>)))) = {#3#}"
proof -
  let ?s = "mgr0\<lparr>clients := map (\<lambda>c. c\<lparr>c_fd := -1\<rparr>) (clients mgr0)\<rparr>"
  have f: "map c_fd (clients ?s) = replicate 100 (-1)" and y: "sys ?s = 3 # [0, 0, 4, 0, 0, 0]"
    by (simp_all add: mgr0_def MAXCLIENTS_def client0_def)
  have e: "in_use (replicate 100 (-1)) = {#}" by (simp add: in_use_def)
  from connection_slots [OF y] show ?thesis unfolding f e Let_def by simp
qed

end
