(* ===== verification/Trx_MgrErr.thy ===== *)
theory Trx_MgrErr imports Trx_MgrInv
begin

text \<open>
  What goes wrong with the name of a client: its slot keeps the pointer after \<^verbatim>\<open>free\<close>, and a command
  that is not answered in time frees it in the middle of the walk that is about to print it.
\<close>

lemma closeClient_quiet:
  assumes "waiting (cli s ! reportTo (clients s ! i)) = 0" and "c_name (clients s ! i) = SStr n"
  shows "closeClient i s =
    Inr (upd_client i (\<lambda>c. c\<lparr>c_name := SFreed\<rparr>)
           (upd_client i (\<lambda>c. c\<lparr>c_fd := -1\<rparr>) (os_close (c_fd (clients s ! i)) s)))"
proof (cases "i < length (clients s)")
  case True
  with assms show ?thesis
    by (simp add: closeClient_def cliDecWait_def Let_def free_str_def upd_client_def os_close_def)
next
  case False
  with assms show ?thesis
    by (simp add: closeClient_def cliDecWait_def Let_def free_str_def upd_client_def os_close_def
        list_update_beyond)
qed

text \<open>A client that takes a command and does not answer within the second it is given.\<close>

definition silent :: "nat \<Rightarrow> mgr \<Rightarrow> bool" where
  "silent i s \<longleftrightarrow> i < length (clients s) \<and> 0 \<le> c_fd (clients s ! i) \<and>
     isopen (chans s (c_fd (clients s ! i))) \<and> wq (chans s (c_fd (clients s ! i))) = [] \<and>
     (\<exists>r. sels s = 0 # r)"

lemma silent_send:
  assumes "silent i s" and "waiting (cli s ! reportTo (clients s ! i)) = 0"
    and "c_name (clients s ! i) = SStr n"
  shows "\<exists>s'. mgrSendCmd2 i cmd a b s = Inr (-1, s') \<and> c_name (clients s' ! i) = SFreed \<and>
    c_fd (clients s' ! i) = -1"
proof -
  let ?fd = "c_fd (clients s ! i)" and ?q = "c_seq (clients s ! i)"
  let ?p = "encode_cmd (mk_cmd (int_of ?q) cmd a b 0)"
  obtain r where r: "sels s = 0 # r" using assms(1) by (auto simp: silent_def)
  let ?s1 = "set_chan ?fd ((chans s ?fd)\<lparr>tx := tx (chans s ?fd) @ ?p\<rparr>) s"
  let ?s3 = "upd_client i (\<lambda>c. c\<lparr>c_seq := ?q\<rparr>) (?s1\<lparr>sels := r\<rparr>)"
  have "sendCmdMore ?fd (int_of ?q) cmd a b 0 None [] s = (True, ?s1)"
    using assms(1) by (simp add: sendCmdMore_def os_write_def Let_def CMDLEN_def length_encode_cmd silent_def)
  moreover have "recvAck ?fd ?q ?s1 = ((-1, ?q), ?s1\<lparr>sels := r\<rparr>)"
    using r by (simp add: recvAck_def os_select_def)
  ultimately have send: "mgrSendCmd2 i cmd a b s = bindE (closeClient i ?s3) (\<lambda>t. Inr (-1, t))"
    by (simp add: mgrSendCmd2_def Let_def)
  have i: "i < length (clients s)" using assms(1) by (simp add: silent_def)
  then have "closeClient i ?s3 =
      Inr (upd_client i (\<lambda>c. c\<lparr>c_name := SFreed\<rparr>)
             (upd_client i (\<lambda>c. c\<lparr>c_fd := -1\<rparr>) (os_close (c_fd (clients ?s3 ! i)) ?s3)))"
    using assms(2,3) by (intro closeClient_quiet [where n = n]) (simp_all add: upd_client_def)
  with send i show ?thesis by (simp add: upd_client_def os_close_def)
qed

text \<open>
  C35. Use after free: when a client in the scope of a console does not answer in time, each of the
  commands \<^verbatim>\<open>push\<close>, \<^verbatim>\<open>pop\<close>, \<^verbatim>\<open>set\<close> with and without a value closes its slot, which frees its
  name, and then prints that name.
\<close>

theorem unanswered_command_prints_freed_name:
  assumes "silent i s" and "waiting (cli s ! reportTo (clients s ! i)) = 0"
    and "c_name (clients s ! i) = SStr n" and "scope (cli s ! idx) ! 0 = SNull"
  shows "incCb idx i s = Inl DeadPointer \<and> decCb idx i s = Inl DeadPointer \<and>
    getVarCb idx i s = Inl DeadPointer \<and> setVarCb idx i s = Inl DeadPointer"
proof -
  have sc: "inScope idx i s = Inr True" using assms(4) by (simp add: inScope_def)
  have fd: "0 \<le> c_fd (clients s ! i)" using assms(1) by (simp add: silent_def)
  have dead: "bindE (mgrSendCmd2 i cmd a b s) (\<lambda>(v, s1). prt_client idx i (p v) s1) = Inl DeadPointer"
    for cmd a b and p :: "int \<Rightarrow> string \<Rightarrow> prt"
    using silent_send [OF assms(1-3), of cmd a b] by (auto simp: prt_client_def prt_of_def)
  show ?thesis
    using dead fd
    by (simp add: incCb_def decCb_def getVarCb_def setVarCb_def in_scope_def sc mgrSendCmd1_def
        trxmgrClientAskPush_def trxmgrClientAskPop_def trxmgrClientGetVar_def trxmgrClientSetVar_def)
qed

definition mgr_silent :: mgr where
  "mgr_silent = mgr0\<lparr>clients := (clients mgr0)[0 := client0\<lparr>c_fd := 7, c_name := SStr ''cat''\<rparr>],
     sels := [0], chans := (\<lambda>_. closed_chan)(7 := closed_chan\<lparr>isopen := True\<rparr>)\<rparr>"

lemma unanswered_command_prints_freed_name_witness: "incCb 0 0 mgr_silent = Inl DeadPointer"
  using unanswered_command_prints_freed_name [of 0 mgr_silent "''cat''" 0]
  by (simp add: silent_def mgr_silent_def mgr0_def MAXCLIENTS_def MAXCLI_def MAXSCOPE_def client0_def
      cli0_def closed_chan_def)

text \<open>
  C36. Double free: the slot of a client that has left is given to the next connection with the freed
  name still in it. If the other side closes that connection before it registers, the manager frees the name again.
\<close>

theorem reused_slot_frees_name_twice:
  assumes "closeClient i s = Inr s1" and "i < length (clients s)" and "c_name (clients s ! i) \<noteq> SNull"
    and "\<forall>j<i. 0 \<le> c_fd (clients s1 ! j)" and "sys s1 = fd # r" and "0 \<le> fd"
    and "rx (chans s1 fd) = []" and "ended (chans s1 fd) \<noteq> Silent" and "waiting (cli s1 ! reportTo (clients s1 ! i)) = 0"
  shows "c_fd (clients (newClient s1) ! i) = fd \<and> mgr_handleExchange i (newClient s1) = Inl DeadPointer"
proof -
  obtain s0 where c: "cliDecWait (reportTo (clients s ! i)) s = Inr s0"
    using assms(1) by (auto simp: closeClient_def)
  have k: "clients s0 = clients s"
  proof -
    have p: "clients t' = clients t" if "run_outs j out t = Inr t'" for j out t t'
      using that unfolding run_outs_def
    proof (induction out arbitrary: t)
      case (Cons x out)
      then obtain t1 where t1: "run_out j x t = Inr t1" "eachE (run_out j) out t1 = Inr t'" by auto
      have w: "clients (snd (os_write fd b u)) = clients u" for fd b and u :: mgr
        by (rule mgr_of_more(1)) (metis os_write_more prod.collapse)
      have "clients t1 = clients t"
        using t1(1) by (auto simp: run_out_def cliPutStr_def cliPrt_def Let_def w
            split: out.splits prod.splits if_splits option.splits)
      with Cons.IH [OF t1(2)] show ?case by simp
    qed simp
    have q: "clients t' = clients t" if "on_rl j f t = Inr t'" for j f t t'
      using that by (auto simp: on_rl_def upd_cli_def split: option.splits prod.splits dest!: p)
    show ?thesis
      using c by (auto simp: cliDecWait_def Let_def upd_cli_def os_close_def split: if_splits dest!: q)
  qed
  have s1: "length (clients s1) = length (clients s)" "c_name (clients s1 ! i) = SFreed" "c_fd (clients s1 ! i) = -1"
    using assms(1-3) c k
    by (auto simp: closeClient_def Let_def upd_client_def os_close_def free_str_def split: sptr.splits)
  have "first_free (map c_fd (clients s1)) = Some i"
    using assms(2,4) s1 by (auto simp: first_free_def find_Some_iff intro!: exI [of _ i])
  then have n: "newClient s1 = upd_client i (\<lambda>c. c\<lparr>c_fd := fd\<rparr>)
      (set_chan fd ((chans s1 fd)\<lparr>isopen := True\<rparr>) (s1\<lparr>sys := r\<rparr>))" (is "_ = ?t")
    using assms(5,6) by (simp add: newClient_def sys_newfd_def sys_call_def)
  have t: "c_fd (clients ?t ! i) = fd" "c_name (clients ?t ! i) = SFreed" "cli ?t = cli s1"
    "reportTo (clients ?t ! i) = reportTo (clients s1 ! i)"
    using s1 assms(2) by (simp_all add: upd_client_def)
  have "os_wait_read fd CMDLEN ?t = Inr ((if ended (chans s1 fd) = Hangup then 0 else -1, []), ?t)"
    using assms(7,8) by (simp add: os_wait_read_def would_wait_def os_read_def Let_def CMDLEN_def upd_client_def)
  then have "rcvCmd fd (mgr_rcvCB i) ?t = Inr (-1, ?t)"
    by (simp add: rcvCmd_def CMDLEN_def split: if_splits)
  moreover have "cliDecWait (reportTo (clients ?t ! i)) ?t = Inr ?t"
    using t assms(9) by (simp add: cliDecWait_def)
  moreover from this have "closeClient i ?t = Inl DeadPointer"
    using t s1 assms(2) by (simp add: closeClient_def Let_def free_str_def upd_client_def os_close_def)
  ultimately show ?thesis unfolding n using t by (simp add: mgr_handleExchange_def thenE_def)
qed

lemma reused_slot_frees_name_twice_witness:
  "\<exists>s1. closeClient 0 (mgr_silent\<lparr>sys := [8]\<rparr>) = Inr s1 \<and>
     c_fd (clients (newClient s1) ! 0) = 8 \<and> mgr_handleExchange 0 (newClient s1) = Inl DeadPointer"
proof -
  let ?s = "mgr_silent\<lparr>sys := [8]\<rparr>"
  let ?s1 = "upd_client 0 (\<lambda>c. c\<lparr>c_name := SFreed\<rparr>)
               (upd_client 0 (\<lambda>c. c\<lparr>c_fd := -1\<rparr>) (os_close (c_fd (clients ?s ! 0)) ?s))"
  have n: "c_name (clients ?s ! 0) = SStr ''cat''" "waiting (cli ?s ! reportTo (clients ?s ! 0)) = 0"
    by (simp_all add: mgr_silent_def mgr0_def MAXCLIENTS_def MAXCLI_def client0_def cli0_def)
  have c: "closeClient 0 ?s = Inr ?s1" by (rule closeClient_quiet [OF n(2,1)])
  have "c_fd (clients (newClient ?s1) ! 0) = 8 \<and> mgr_handleExchange 0 (newClient ?s1) = Inl DeadPointer"
    by (rule reused_slot_frees_name_twice [OF c, where r = "[]"])
      (simp_all add: upd_client_def os_close_def mgr_silent_def mgr0_def MAXCLIENTS_def
        MAXCLI_def client0_def cli0_def closed_chan_def set_chan_def)
  with c show ?thesis by blast
qed

section \<open>Half a command\<close>

text \<open>A payload that stops short leaves the receiver waiting.\<close>

lemma read_all_waits:
  assumes "isopen (chans s fd)" and "ended (chans s fd) = Silent" and "[] \<notin> set (rx (chans s fd))"
    and "int (length (concat (rx (chans s fd)))) < left"
  shows "read_all fd left acc s = Inl Blocked"
  using assms
proof (induction "rx (chans s fd)" arbitrary: s acc left)
  case Nil
  then have "would_wait fd left s" by (simp add: would_wait_def Let_def)
  with Nil show ?case by (simp add: read_all.simps [of fd left] os_wait_read_def)
next
  case (Cons b bs)
  define s1 where "s1 = set_chan fd ((chans s fd)\<lparr>rx := bs\<rparr>) s"
  have ne: "rx (chans s fd) \<noteq> []" using Cons.hyps(2) by (metis list.distinct(1))
  have b: "b \<noteq> []" "[] \<notin> set bs" using Cons.prems(3) Cons.hyps(2) by (metis list.set_intros)+
  have left: "int (length b) + int (length (concat bs)) < left"
    using Cons.prems(4) Cons.hyps(2) [symmetric] by simp
  have "os_read fd left s = ((int (length b), b), s1)"
    using Cons.prems(1) left by (auto simp: os_read_def Let_def s1_def Cons.hyps(2) [symmetric])
  then have "os_wait_read fd left s = Inr ((int (length b), b), s1)"
    using os_wait_read_Inr(2) [OF os_wait_read_Inr(3) [OF ne]] by metis
  then have "read_all fd left acc s = read_all fd (left - int (length b)) (acc @ b) s1"
    using left b by (simp add: read_all.simps [of fd left])
  moreover have "read_all fd (left - int (length b)) (acc @ b) s1 = Inl Blocked"
    by (rule Cons.hyps(1)) (use Cons.prems b left in \<open>simp_all add: s1_def\<close>)
  ultimately show ?case by simp
qed

text \<open>
  One client can stop the manager: when it sends the header of a command and then less than the
  payload the header announces, but stays connected, the manager waits for the rest for ever, and
  serves neither the other clients nor the consoles.
\<close>

theorem half_command_hangs_manager:
  assumes "c_fd (clients s ! i) = fd" and "isopen (chans s fd)" and "ended (chans s fd) = Silent"
    and "rx (chans s fd) = encode_cmd p # bs" and "magic p = TPCMD_MAGIC" and "[] \<notin> set bs"
    and "int (length (concat bs)) < int_of (plen p - i32 CMDLEN)" and "oom s = []"
  shows "mgr_handleExchange i s = Inl Blocked"
proof -
  let ?s1 = "set_chan fd ((chans s fd)\<lparr>rx := bs\<rparr>) s" and ?left = "int_of (plen p - i32 CMDLEN)"
  have "os_read fd CMDLEN s = ((CMDLEN, encode_cmd p), ?s1)"
    using assms by (intro os_read_chunk) (auto simp: length_encode_cmd CMDLEN_def)
  then have "os_wait_read fd CMDLEN s = Inr ((CMDLEN, encode_cmd p), ?s1)"
    using os_wait_read_Inr(2) [OF os_wait_read_Inr(3), of s fd CMDLEN] assms(4) by simp
  moreover have "os_malloc ?s1 = (True, ?s1)" using assms(8) by (simp add: os_malloc_def)
  moreover have "read_all fd ?left [] ?s1 = Inl Blocked"
    using assms by (intro read_all_waits) simp_all
  ultimately have "rcvCmd fd (mgr_rcvCB i) s = Inl Blocked"
    using assms by (auto simp: rcvCmd_def Let_def decode_encode_cmd)
  then show ?thesis using assms(1) by (simp add: mgr_handleExchange_def)
qed

text \<open>A report of 100 bytes of which four arrive.\<close>

definition mgr_half :: mgr where
  "mgr_half = mgr_silent\<lparr>chans := (\<lambda>_. closed_chan)(7 := closed_chan\<lparr>isopen := True, ended := Silent,
     rx := [encode_cmd (mk_cmd 0 CMD_REPORT 1 1 100), [1, 0, 0, 0]]\<rparr>)\<rparr>"

lemma half_command_hangs_manager_witness: "mgr_handleExchange 0 mgr_half = Inl Blocked"
  by (rule half_command_hangs_manager [where fd = 7 and p = "mk_cmd 0 CMD_REPORT 1 1 100" and bs = "[[1, 0, 0, 0]]"])
    (simp_all add: mgr_half_def mgr_silent_def mgr0_def MAXCLIENTS_def closed_chan_def mk_cmd_def i32_def
      int_of_def CMDLEN_def)

end
