(* ===== verification/Trx_Protocol.thy ===== *)
theory Trx_Protocol imports Trx_MgrInv
begin

text \<open>
  The manager and a client together. Each of them runs on its own state; what ties them is that
  the bytes one writes are those the other reads. The theorems follow a command and its
  acknowledgement, and the configuration a client gets when it registers, through both programs.
\<close>

section \<open>A command and its acknowledgement, on either side\<close>

lemma i32_int_of [simp]: "i32 (int_of q) = q"
  by (simp add: i32_def int_of_def)

lemma set_chan_sels: "(set_chan fd c s)\<lparr>sels := x\<rparr> = set_chan fd c (s\<lparr>sels := x\<rparr>)"
  by (cases s) (simp add: set_chan_def)

lemma rcvCmd_header:
  assumes "magic p = TPCMD_MAGIC" and "plen p = i32 CMDLEN"
    and "isopen (chans s fd)" and "rx (chans s fd) = encode_cmd p # bs"
  shows "rcvCmd fd cb s = bindE (cb p 0 None (set_chan fd ((chans s fd)\<lparr>rx := bs\<rparr>) s))
           (\<lambda>(v, s'). Inr (v, sendAck fd p v s'))"
proof -
  have "os_read fd CMDLEN s = ((CMDLEN, encode_cmd p), set_chan fd ((chans s fd)\<lparr>rx := bs\<rparr>) s)"
    using assms by (intro os_read_chunk) (auto simp: length_encode_cmd CMDLEN_def)
  then have "os_wait_read fd CMDLEN s = Inr ((CMDLEN, encode_cmd p), set_chan fd ((chans s fd)\<lparr>rx := bs\<rparr>) s)"
    using os_wait_read_Inr(2) [OF os_wait_read_Inr(3), of s fd CMDLEN] assms(4) by simp
  then show ?thesis using assms by (simp add: rcvCmd_def decode_encode_cmd int_of_def i32_def)
qed

lemma sendCmdMore_open:
  assumes "isopen (chans s fd)" and "wq (chans s fd) = []"
  shows "sendCmdMore fd sq cmd a b 0 None [] s =
    (True, set_chan fd ((chans s fd)\<lparr>tx := tx (chans s fd) @ encode_cmd (mk_cmd sq cmd a b 0)\<rparr>) s)"
  using assms by (simp add: sendCmdMore_def os_write_def Let_def CMDLEN_def length_encode_cmd)

lemma sendAck_open:
  assumes "isopen (chans s fd)" and "wq (chans s fd) = []"
  shows "sendAck fd p v s =
    set_chan fd ((chans s fd)\<lparr>tx := tx (chans s fd) @
      encode_cmd (mk_cmd (int_of (pseq p)) CMD_ACK v 0 0)\<rparr>) s"
  using assms by (simp add: sendAck_def sendCmdMore_open)

lemma recvAck_ack:
  assumes "isopen (chans s fd)" and "sels s = n # ns" and "0 < n"
    and "rx (chans s fd) = encode_cmd (mk_cmd (int_of q) CMD_ACK v 0 0) # bs"
    and "0 \<le> v" and "v < 2147483648"
  shows "recvAck fd q s = ((v, q + 1), set_chan fd ((chans s fd)\<lparr>rx := bs\<rparr>) (s\<lparr>sels := ns\<rparr>))"
proof -
  let ?p = "mk_cmd (int_of q) CMD_ACK v 0 0" and ?s = "s\<lparr>sels := ns\<rparr>"
  have "os_read fd CMDLEN ?s = ((CMDLEN, encode_cmd ?p), set_chan fd ((chans s fd)\<lparr>rx := bs\<rparr>) ?s)"
    by (rule os_read_chunk [where s = ?s, simplified])
      (use assms in \<open>auto simp: CMDLEN_def length_encode_cmd\<close>)
  then show ?thesis
    using assms by (simp add: recvAck_def os_select_def decode_encode_cmd) (simp add: mk_cmd_def)
qed

text \<open>The manager's side: the command goes out, its acknowledgement is the result.\<close>

definition sent :: "nat \<Rightarrow> cmd_t \<Rightarrow> bytes list \<Rightarrow> mgr \<Rightarrow> mgr" where
  "sent idx p bs s =
     (let fd = c_fd (clients s ! idx) in
      upd_client idx (\<lambda>c. c\<lparr>c_seq := c_seq c + 1\<rparr>)
        (set_chan fd ((chans s fd)\<lparr>tx := tx (chans s fd) @ encode_cmd p, rx := bs\<rparr>) (s\<lparr>sels := tl (sels s)\<rparr>)))"

lemma mgrSendCmd2_acked:
  assumes "isopen (chans s fd)" and "wq (chans s fd) = []" and "c_fd (clients s ! idx) = fd"
    and "c_seq (clients s ! idx) = q" and "idx < length (clients s)"
    and "rx (chans s fd) = encode_cmd (mk_cmd (int_of q) CMD_ACK v 0 0) # bs"
    and "sels s = n # ns" and "0 < n" and "0 \<le> v" and "v < 2147483648"
  shows "mgrSendCmd2 idx cmd a b s = Inr (v, sent idx (mk_cmd (int_of q) cmd a b 0) bs s)"
proof -
  let ?p = "mk_cmd (int_of q) cmd a b 0"
  let ?s1 = "set_chan fd ((chans s fd)\<lparr>tx := tx (chans s fd) @ encode_cmd ?p\<rparr>) s"
  have "recvAck fd q ?s1 = ((v, q + 1), set_chan fd ((chans ?s1 fd)\<lparr>rx := bs\<rparr>) (?s1\<lparr>sels := ns\<rparr>))"
    by (rule recvAck_ack) (use assms in auto)
  then show ?thesis
    using assms by (simp add: mgrSendCmd2_def Let_def sendCmdMore_open sent_def upd_client_def set_chan_sels)
qed

text \<open>The client's side.\<close>

definition took :: "cmd_t \<Rightarrow> int \<Rightarrow> bytes list \<Rightarrow> lib \<Rightarrow> lib" where
  "took p v bs s =
     set_chan (sock s) ((chans s (sock s))\<lparr>rx := bs,
       tx := tx (chans s (sock s)) @ encode_cmd (mk_cmd (int_of (pseq p)) CMD_ACK v 0 0)\<rparr>) s"

lemma client_chans:
  "clientSet x y (set_chan fd c s) = (fst (clientSet x y s), set_chan fd c (snd (clientSet x y s)))"
  "changeTag x (set_chan fd c s) = (fst (changeTag x s), set_chan fd c (snd (changeTag x s)))"
  "clientGet x (set_chan fd c s) = clientGet x s"
  by (simp_all add: clientSet_def changeTag_def clientGet_def Let_def set_chan_def)

lemma clientRcvCB_chans:
  "clientRcvCB p n pm (set_chan fd c s) =
     bindE (clientRcvCB p n pm s) (\<lambda>(v, s'). Inr (v, set_chan fd c s'))"
  by (simp add: clientRcvCB_def Let_def client_chans split_beta) (simp add: set_chan_def)

lemma clientRcvCB_keeps:
  "clientRcvCB p n pm s = Inr (v, s') \<Longrightarrow> chans s' = chans s \<and> sock s' = sock s \<and> sels s' = sels s"
  by (auto simp: clientRcvCB_def clientSet_def changeTag_def Let_def split: if_splits)

lemma client_rcv_cmd:
  assumes "isopen (chans s (sock s))" and "wq (chans s (sock s)) = []"
    and "rx (chans s (sock s)) = encode_cmd p # bs" and "magic p = TPCMD_MAGIC" and "plen p = i32 CMDLEN"
    and "clientRcvCB p 0 None s = Inr (v, s1)"
  shows "client_rcv s = Inr (v, took p v bs s1)"
proof -
  let ?c = "(chans s (sock s))\<lparr>rx := bs\<rparr>"
  have k: "chans s1 = chans s" "sock s1 = sock s" using clientRcvCB_keeps [OF assms(6)] by simp_all
  have "clientRcvCB p 0 None (set_chan (sock s) ?c s) = Inr (v, set_chan (sock s) ?c s1)"
    using assms(6) by (simp add: clientRcvCB_chans)
  then show ?thesis
    using assms k by (simp add: client_rcv_def rcvCmd_header sendAck_open took_def)
qed

section \<open>A list of settings\<close>

text \<open>
  The commands that set variables, from a sequence number on, ended by \<^verbatim>\<open>CMD_DONE\<close>; the client's
  state after them, and its acknowledgements, which carry the old values.
\<close>

fun set_cmds :: "u32 \<Rightarrow> (int \<times> int) list \<Rightarrow> cmd_t list" where
  "set_cmds q [] = [mk_cmd (int_of q) CMD_DONE 0 0 0]"
| "set_cmds q ((c, v) # sets) = mk_cmd (int_of q) CMD_SET c v 0 # set_cmds (q + 1) sets"

fun set_acks :: "u32 \<Rightarrow> (int \<times> int) list \<Rightarrow> lib \<Rightarrow> cmd_t list" where
  "set_acks q [] s = [mk_cmd (int_of q) CMD_ACK 1 0 0]"
| "set_acks q ((c, v) # sets) s =
     mk_cmd (int_of q) CMD_ACK (fst (clientSet c v s)) 0 0 # set_acks (q + 1) sets (snd (clientSet c v s))"

definition set_all :: "(int \<times> int) list \<Rightarrow> lib \<Rightarrow> lib" where
  "set_all sets s = fold (\<lambda>(c, v) t. snd (clientSet c v t)) sets s"

text \<open>Variables that read as non-negative numbers, as the client needs to stay connected.\<close>

definition vars_ok :: "lib \<Rightarrow> bool" where
  "vars_ok s \<longleftrightarrow> (\<forall>c\<in>client_vars. 0 \<le> int_of (var_of c s))"

definition sets_ok :: "(int \<times> int) list \<Rightarrow> bool" where
  "sets_ok sets \<longleftrightarrow> (\<forall>(c, v)\<in>set sets. c \<in> client_vars \<and> 0 \<le> v \<and> v < 2147483648)"

lemma client_vars_small: "c \<in> client_vars \<Longrightarrow> 0 \<le> c \<and> c < 2147483648"
  by (auto simp: client_vars_def cmd_defs)

lemma vars_ok_set: "vars_ok s \<Longrightarrow> c \<in> client_vars \<Longrightarrow> 0 \<le> v \<Longrightarrow> v < 2147483648 \<Longrightarrow> vars_ok (snd (clientSet c v s))"
  by (simp add: vars_ok_def clientSet_var)

lemma clientSet_keeps:
  "chans (snd (clientSet c v s)) = chans s" "sock (snd (clientSet c v s)) = sock s"
  "needDoneTrigger (snd (clientSet c v s)) = needDoneTrigger s"
  "memory (snd (clientSet c v s)) = memory s" "sendReport (snd (clientSet c v s)) = sendReport s"
  by (simp_all add: clientSet_def)

lemma cb_set:
  assumes "c \<in> client_vars" and "0 \<le> v" and "v < 2147483648"
  shows "clientRcvCB (mk_cmd q CMD_SET c v 0) 0 None s = Inr (clientSet c v s)"
  using assms client_vars_small [OF assms(1)] by (simp add: clientRcvCB_def mk_cmd_def CMD_SET_def)

lemma cb_done: "clientRcvCB (mk_cmd q CMD_DONE 0 0 0) 0 None s = Inr (1, s\<lparr>needDoneTrigger := 0\<rparr>)"
  by (simp add: clientRcvCB_def mk_cmd_def cmd_defs)

lemma plen_mk_cmd [simp]: "plen (mk_cmd q c a b 0) = i32 CMDLEN" "pseq (mk_cmd q c a b 0) = i32 q"
  by (simp_all add: mk_cmd_def)

lemma took_keeps [simp]:
  "needDoneTrigger (took p v bs s) = needDoneTrigger s" "sock (took p v bs s) = sock s"
  "var_of c (took p v bs s) = var_of c s" "memory (took p v bs s) = memory s"
  "isopen (chans (took p v bs s) (sock s)) = isopen (chans s (sock s))"
  "ended (chans (took p v bs s) (sock s)) = ended (chans s (sock s))"
  "wq (chans (took p v bs s) (sock s)) = wq (chans s (sock s))"
  "rx (chans (took p v bs s) (sock s)) = bs"
  "tx (chans (took p v bs s) (sock s)) =
     tx (chans s (sock s)) @ encode_cmd (mk_cmd (int_of (pseq p)) CMD_ACK v 0 0)"
  "clientSet x y (took p v bs s) =
     (fst (clientSet x y s), took p v bs (snd (clientSet x y s)))"
  by (simp_all add: took_def var_of_def client_chans clientSet_keeps) (simp_all add: set_chan_def)

lemma set_acks_took [simp]: "set_acks q sets (took p v bs s) = set_acks q sets s"
  by (induction q sets s rule: set_acks.induct) (simp_all add: clientSet_keeps)

lemma exchange_settings:
  assumes "isopen (chans s (sock s))" and "wq (chans s (sock s)) = []" and "needDoneTrigger s \<noteq> 0"
    and "rx (chans s (sock s)) = map encode_cmd (set_cmds q sets)" and "vars_ok s" and "sets_ok sets"
  shows "\<exists>s'. exchange_loop s = Inr s' \<and>
    needDoneTrigger s' = 0 \<and> sock s' = sock s \<and> memory s' = memory s \<and>
    rx (chans s' (sock s)) = [] \<and>
    tx (chans s' (sock s)) = tx (chans s (sock s)) @ concat (map encode_cmd (set_acks q sets s)) \<and>
    (\<forall>c\<in>client_vars. var_of c s' = var_of c (set_all sets s))"
  using assms
proof (induction sets arbitrary: q s)
  case Nil
  let ?p = "mk_cmd (int_of q) CMD_DONE 0 0 0"
  have "client_rcv s = Inr (1, took ?p 1 [] (s\<lparr>needDoneTrigger := 0\<rparr>))"
    by (rule client_rcv_cmd) (use Nil in \<open>simp_all add: cb_done\<close>)
  then have "exchange_loop s = Inr (took ?p 1 [] (s\<lparr>needDoneTrigger := 0\<rparr>))"
    by (simp add: exchange_loop.simps [of s])
  then show ?case by (simp add: took_def set_all_def var_of_def) (simp add: set_chan_def)
next
  case (Cons cv sets)
  obtain c v where cv: "cv = (c, v)" by force
  let ?p = "mk_cmd (int_of q) CMD_SET c v 0" and ?bs = "map encode_cmd (set_cmds (q + 1) sets)"
  let ?s1 = "snd (clientSet c v s)" and ?old = "fst (clientSet c v s)"
  define t where "t = took ?p ?old ?bs ?s1"
  from Cons.prems have c: "c \<in> client_vars" "0 \<le> v" "v < 2147483648" and r: "sets_ok sets"
    by (auto simp: sets_ok_def cv)
  have "client_rcv s = Inr (?old, t)"
    unfolding t_def by (rule client_rcv_cmd) (use Cons.prems c in \<open>simp_all add: cb_set cv\<close>)
  moreover have "0 \<le> ?old" using Cons.prems c by (simp add: clientSet_ret vars_ok_def)
  ultimately have e: "exchange_loop s = exchange_loop t"
    using Cons.prems by (simp add: exchange_loop.simps [of s] clientSet_keeps t_def)
  have k: "sock t = sock s" "set_acks (q + 1) sets t = set_acks (q + 1) sets ?s1"
    by (simp_all add: t_def clientSet_keeps)
  have st: "isopen (chans t (sock s))" "wq (chans t (sock s)) = []" "needDoneTrigger t \<noteq> 0"
    "rx (chans t (sock s)) = ?bs" "vars_ok t" "memory t = memory s"
    "tx (chans t (sock s)) = tx (chans s (sock s)) @ encode_cmd (mk_cmd (int_of q) CMD_ACK ?old 0 0)"
    using vars_ok_set [OF _ c] Cons.prems took_keeps(5-9) [of ?p ?old ?bs ?s1]
    by (simp_all add: vars_ok_def clientSet_keeps t_def)
  have a: "var_of d (set_all sets t) = var_of d (set_all (cv # sets) s)" for d
  proof -
    have "set_all ss (took p w bs u) = took p w bs (set_all ss u)" for ss p w bs u
      by (induction ss arbitrary: u) (auto simp: set_all_def)
    then show ?thesis by (simp add: set_all_def cv t_def)
  qed
  from Cons.IH [of t "q + 1"] st r k
  have "\<exists>s'. exchange_loop t = Inr s' \<and>
    needDoneTrigger s' = 0 \<and> sock s' = sock s \<and> memory s' = memory s \<and>
    rx (chans s' (sock s)) = [] \<and>
    tx (chans s' (sock s)) = tx (chans t (sock s)) @ concat (map encode_cmd (set_acks (q + 1) sets ?s1)) \<and>
    (\<forall>c\<in>client_vars. var_of c s' = var_of c (set_all sets t))" by simp
  then show ?case unfolding e a st(7) by (simp add: cv)
qed

section \<open>The manager's side of the settings\<close>

definition bit01 :: "u32 \<Rightarrow> u32 \<Rightarrow> int" where
  "bit01 m fl = (if m AND fl \<noteq> 0 then 1 else 0)"

definition config_sets :: "flgmap_t list \<Rightarrow> u32 \<Rightarrow> (int \<times> int) list" where
  "config_sets es fl = map (\<lambda>e. (int (fcmd e), bit01 (fmask e) fl)) es"

lemma upd_client_simps [simp]:
  "length (clients (upd_client idx f s)) = length (clients s)" "chans (upd_client idx f s) = chans s"
  "sels (upd_client idx f s) = sels s" "apps (upd_client idx f s) = apps s"
  "defaultFlags (upd_client idx f s) = defaultFlags s"
  "idx < length (clients s) \<Longrightarrow> clients (upd_client idx f s) ! idx = f (clients s ! idx)"
  by (simp_all add: upd_client_def)

lemma app_flags_cong: "apps s = apps t \<Longrightarrow> defaultFlags s = defaultFlags t \<Longrightarrow> app_flags q s = app_flags q t"
  by (cases q) (simp_all add: app_flags_def)

lemma sent_keeps [simp]:
  "length (clients (sent idx p bs s)) = length (clients s)"
  "idx < length (clients s) \<Longrightarrow> clients (sent idx p bs s) ! idx = (clients s ! idx)\<lparr>c_seq := c_seq (clients s ! idx) + 1\<rparr>"
  "app_flags q (sent idx p bs s) = app_flags q s"
  "sels (sent idx p bs s) = tl (sels s)"
  "chans (sent idx p bs s) (c_fd (clients s ! idx)) =
     (chans s (c_fd (clients s ! idx)))
       \<lparr>tx := tx (chans s (c_fd (clients s ! idx))) @ encode_cmd p, rx := bs\<rparr>"
proof -
  show "app_flags q (sent idx p bs s) = app_flags q s"
    by (rule app_flags_cong) (simp_all add: sent_def Let_def set_chan_def)
qed (simp_all add: sent_def Let_def)

text \<open>A channel on which all the acknowledgements have arrived, and \<^verbatim>\<open>select\<close> reports each.\<close>

definition answered :: "nat \<Rightarrow> mgr \<Rightarrow> bytes list \<Rightarrow> nat \<Rightarrow> bool" where
  "answered idx s bs n \<longleftrightarrow>
     idx < length (clients s) \<and> isopen (chans s (c_fd (clients s ! idx))) \<and>
     wq (chans s (c_fd (clients s ! idx))) = [] \<and> rx (chans s (c_fd (clients s ! idx))) = bs \<and>
     sels s = replicate n 1"

lemma answered_sent:
  assumes "answered idx s (encode_cmd (mk_cmd (int_of (c_seq (clients s ! idx))) CMD_ACK v 0 0) # bs) (Suc n)"
    and "0 \<le> v" and "v < 2147483648"
  shows "mgrSendCmd2 idx cmd a b s =
      Inr (v, sent idx (mk_cmd (int_of (c_seq (clients s ! idx))) cmd a b 0) bs s)"
    and "answered idx (sent idx p bs s) bs n"
proof -
  show "mgrSendCmd2 idx cmd a b s =
      Inr (v, sent idx (mk_cmd (int_of (c_seq (clients s ! idx))) cmd a b 0) bs s)"
    by (rule mgrSendCmd2_acked [where n = 1 and ns = "replicate n 1"])
      (use assms in \<open>auto simp: answered_def\<close>)
  show "answered idx (sent idx p bs s) bs n"
    using assms(1) by (simp add: answered_def)
qed

text \<open>The acknowledgements the manager accepts: in sequence, with non-negative values.\<close>

fun acks :: "u32 \<Rightarrow> int list \<Rightarrow> cmd_t list" where
  "acks q [] = []"
| "acks q (v # vs) = mk_cmd (int_of q) CMD_ACK v 0 0 # acks (q + 1) vs"

lemma send_flags_answered:
  assumes "app_flags (c_adata (clients s ! idx)) s = Inr fl" and "c_seq (clients s ! idx) = q"
    and "answered idx s (map encode_cmd (acks q vs @ rest)) (length es + n)"
    and "length vs = length es" and "\<forall>v\<in>set vs. 0 \<le> v \<and> v < 2147483648"
  shows "\<exists>s'. send_flags idx es s = Inr (True, s') \<and> answered idx s' (map encode_cmd rest) n \<and>
    c_seq (clients s' ! idx) = q + of_nat (length es) \<and>
    c_fd (clients s' ! idx) = c_fd (clients s ! idx) \<and>
    tx (chans s' (c_fd (clients s ! idx))) @
        encode_cmd (mk_cmd (int_of (q + of_nat (length es))) CMD_DONE 0 0 0) =
      tx (chans s (c_fd (clients s ! idx))) @ concat (map encode_cmd (set_cmds q (config_sets es fl)))"
  using assms
proof (induction es arbitrary: q s vs)
  case Nil
  then show ?case by (simp add: config_sets_def)
next
  case (Cons e es)
  then obtain v vs' where vs: "vs = v # vs'" by (cases vs) auto
  let ?p = "mk_cmd (int_of q) CMD_SET (int (fcmd e)) (bit01 (fmask e) fl) 0"
  let ?bs = "map encode_cmd (acks (q + 1) vs' @ rest)" and ?fd = "c_fd (clients s ! idx)"
  define t where "t = sent idx ?p ?bs s"
  have i: "idx < length (clients s)" using Cons.prems by (simp add: answered_def)
  have a: "answered idx s (encode_cmd (mk_cmd (int_of (c_seq (clients s ! idx))) CMD_ACK v 0 0) # ?bs)
      (Suc (length es + n))" "0 \<le> v" "v < 2147483648"
    using Cons.prems vs by simp_all
  have c: "mgrSendCmd2 idx CMD_SET (int (fcmd e)) (if fmask e AND fl \<noteq> 0 then 1 else 0) s = Inr (v, t)"
    using answered_sent(1) [OF a] Cons.prems(2) by (simp add: t_def bit01_def)
  have t: "app_flags (c_adata (clients t ! idx)) t = Inr fl" "c_seq (clients t ! idx) = q + 1"
    "answered idx t ?bs (length es + n)" "c_fd (clients t ! idx) = ?fd"
    "tx (chans t ?fd) = tx (chans s ?fd) @ encode_cmd ?p"
    using Cons.prems answered_sent(2) [OF a] i by (simp_all add: t_def)
  from Cons.IH [OF t(1,2,3)] Cons.prems(4,5) vs obtain s' where s': "send_flags idx es t = Inr (True, s')"
    "answered idx s' (map encode_cmd rest) n" "c_seq (clients s' ! idx) = q + 1 + of_nat (length es)"
    "c_fd (clients s' ! idx) = ?fd"
    "tx (chans s' ?fd) @ encode_cmd (mk_cmd (int_of (q + 1 + of_nat (length es))) CMD_DONE 0 0 0) =
      tx (chans t ?fd) @ concat (map encode_cmd (set_cmds (q + 1) (config_sets es fl)))"
    using t(4) by auto
  have "send_flags idx (e # es) s = Inr (True, s')"
    using Cons.prems(1) c s'(1) a(2) by simp
  with s' t(5) show ?case by (simp add: config_sets_def add.assoc)
qed

section \<open>The configuration of a client that registers\<close>

fun olds :: "(int \<times> int) list \<Rightarrow> lib \<Rightarrow> int list" where
  "olds [] s = []"
| "olds ((c, v) # sets) s = fst (clientSet c v s) # olds sets (snd (clientSet c v s))"

lemma acks_append: "acks q (vs @ us) = acks q vs @ acks (q + of_nat (length vs)) us"
  by (induction vs arbitrary: q) (simp_all add: add.assoc)

lemma length_olds [simp]: "length (olds sets s) = length sets"
  by (induction sets s rule: olds.induct) simp_all

lemma set_acks_olds: "set_acks q sets s = acks q (olds sets s @ [1])"
  by (induction q sets s rule: set_acks.induct) simp_all

lemma int_of_less: "int_of q < 2147483648"
  using sint_less [of q] by (simp add: int_of_def)

lemma olds_ok: "vars_ok s \<Longrightarrow> sets_ok sets \<Longrightarrow> v \<in> set (olds sets s) \<Longrightarrow> 0 \<le> v \<and> v < 2147483648"
proof (induction sets s rule: olds.induct)
  case (2 c w sets s)
  then have c: "c \<in> client_vars" "0 \<le> w" "w < 2147483648" and r: "sets_ok sets"
    by (auto simp: sets_ok_def)
  from 2 vars_ok_set [OF _ c] r c show ?case
    by (auto simp: clientSet_ret vars_ok_def int_of_less)
qed simp

lemma config_sets_ok: "sets_ok (config_sets flgmap fl)"
  by (auto simp: sets_ok_def config_sets_def flgmap_def bit01_def client_vars_def)

lemma config_vars:
  "c \<in> client_vars \<Longrightarrow> var_of c (set_all (config_sets flgmap fl) s) =
     (if c = int CMD_ENABLE then i32 (bit01 FLAG_ENABLE fl)
      else if c = int CMD_POISON then i32 (bit01 FLAG_POISON fl)
      else if c = int CMD_TRACK then i32 (bit01 FLAG_TRACK fl)
      else if c = int CMD_VALIDATE then i32 (bit01 FLAG_VALIDATE fl)
      else var_of c s)"
  by (auto simp: client_vars_def set_all_def config_sets_def flgmap_def clientSet_def var_of_def cmd_defs)

text \<open>
  C5. The configuration of a client, from the manager's table to the variables of the tracker: when
  what each side reads is what the other one writes, the manager sends the settings one by one,
  each acknowledged with the value it replaces; at the end both have written exactly what the
  other expects, the client has left the exchange, its four switches are the flags of its entry,
  and nothing else of it has changed.
\<close>

theorem config_reaches_client:
  fixes m :: mgr and s :: lib
  assumes "app_flags (c_adata (clients m ! idx)) m = Inr fl" and "c_seq (clients m ! idx) = q"
    and "c_fd (clients m ! idx) = fd"
    and "answered idx m (map encode_cmd (set_acks q (config_sets flgmap fl) s)) 5"
    and "isopen (chans s (sock s))" and "wq (chans s (sock s)) = []" and "needDoneTrigger s \<noteq> 0"
    and "vars_ok s" and "rx (chans s (sock s)) = map encode_cmd (set_cmds q (config_sets flgmap fl))"
  shows "\<exists>m' s'. sendConfig idx m = Inr m' \<and> exchange_loop s = Inr s' \<and>
    tx (chans m' fd) = tx (chans m fd) @ concat (rx (chans s (sock s))) \<and>
    tx (chans s' (sock s)) = tx (chans s (sock s)) @ concat (rx (chans m fd)) \<and>
    needDoneTrigger s' = 0 \<and> enable s' = i32 (bit01 FLAG_ENABLE fl) \<and>
    poison s' = i32 (bit01 FLAG_POISON fl) \<and> tracking s' = i32 (bit01 FLAG_TRACK fl) \<and>
    validate s' = i32 (bit01 FLAG_VALIDATE fl) \<and> alloctag s' = alloctag s \<and> memory s' = memory s"
proof -
  let ?sets = "config_sets flgmap fl"
  have four: "length flgmap = 4" "length ?sets = 4" by (simp_all add: config_sets_def flgmap_def)
  have rxm: "rx (chans m fd) = map encode_cmd (set_acks q ?sets s)"
    using assms(3,4) by (simp add: answered_def)
  have ans: "answered idx m (map encode_cmd (acks q (olds ?sets s) @ acks (q + 4) [1])) (length flgmap + 1)"
    using assms(4) four by (simp add: set_acks_olds acks_append)
  have ov: "\<forall>v\<in>set (olds ?sets s). 0 \<le> v \<and> v < 2147483648"
    using olds_ok [OF assms(8) config_sets_ok] by blast
  from send_flags_answered [OF assms(1,2) ans _ ov] four obtain m1 where
    m1: "send_flags idx flgmap m = Inr (True, m1)" "answered idx m1 (map encode_cmd (acks (q + 4) [1])) 1"
      "c_seq (clients m1 ! idx) = q + 4" "c_fd (clients m1 ! idx) = fd"
    and t1: "tx (chans m1 fd) @ encode_cmd (mk_cmd (int_of (q + 4)) CMD_DONE 0 0 0) =
      tx (chans m fd) @ concat (map encode_cmd (set_cmds q ?sets))"
    using assms(3) by auto
  let ?m' = "sent idx (mk_cmd (int_of (q + 4)) CMD_DONE 0 0 0) [] m1"
  have "mgrSendCmd1 idx CMD_DONE 0 m1 = Inr (1, ?m')"
    using answered_sent(1) [of idx m1 1 "[]" 0] m1(2,3) by (simp add: mgrSendCmd1_def)
  then have send: "sendConfig idx m = Inr ?m'" by (simp add: sendConfig_def m1(1))
  have "tx (chans ?m' fd) = tx (chans m fd) @ concat (rx (chans s (sock s)))"
    using sent_keeps(5) [of idx _ "[]" m1] m1(4) t1 assms(9) by simp
  moreover from exchange_settings [OF assms(5-7,9,8) config_sets_ok] obtain s' where
    cl: "exchange_loop s = Inr s'" "needDoneTrigger s' = 0" "memory s' = memory s"
      "tx (chans s' (sock s)) = tx (chans s (sock s)) @ concat (rx (chans m fd))"
    and v: "\<And>c. c \<in> client_vars \<Longrightarrow> var_of c s' = var_of c (set_all ?sets s)"
    by (auto simp: rxm)
  moreover have "enable s' = i32 (bit01 FLAG_ENABLE fl)" "poison s' = i32 (bit01 FLAG_POISON fl)"
    "tracking s' = i32 (bit01 FLAG_TRACK fl)" "validate s' = i32 (bit01 FLAG_VALIDATE fl)"
    "alloctag s' = alloctag s"
    using v [of "int CMD_ENABLE"] v [of "int CMD_POISON"] v [of "int CMD_TRACK"]
      v [of "int CMD_VALIDATE"] v [of "int CMD_TAG"]
    by (simp_all add: config_vars) (simp_all add: client_vars_def var_of_def cmd_defs)
  ultimately show ?thesis using send cl by blast
qed

text \<open>A client just connected, its switches off, and a manager that gives it tracking and poison.\<close>

definition reg_fd :: chan where
  "reg_fd = \<lparr>isopen = True, rx = [], ended = Silent, tx = [], wq = []\<rparr>"

definition lib_reg :: "bytes list \<Rightarrow> lib" where
  "lib_reg r = lib0\<lparr>needDoneTrigger := 1, chans := (\<lambda>_. reg_fd)(3 := reg_fd\<lparr>rx := r\<rparr>)\<rparr>"

definition mgr_reg :: "bytes list \<Rightarrow> mgr" where
  "mgr_reg r = mgr0\<lparr>clients := (clients mgr0)[0 := client0\<lparr>c_fd := 7, c_adata := ADefault\<rparr>],
     defaultFlags := FLAG_POISON + FLAG_TRACK, sels := replicate (length r) 1,
     chans := (\<lambda>_. closed_chan)(7 := reg_fd\<lparr>rx := r\<rparr>)\<rparr>"

lemma mgr_reg_simps [simp]:
  "length (clients (mgr_reg r)) = 100" "clients (mgr_reg r) ! 0 = client0\<lparr>c_fd := 7, c_adata := ADefault\<rparr>"
  "app_flags ADefault (mgr_reg r) = Inr 10" "answered 0 (mgr_reg r) r (length r)"
  "chans (mgr_reg r) 7 = reg_fd\<lparr>rx := r\<rparr>"
  by (simp_all add: mgr_reg_def mgr0_def MAXCLIENTS_def app_flags_def flag_defs answered_def client0_def reg_fd_def)

lemma lib_reg_simps [simp]:
  "chans (lib_reg r) 3 = reg_fd\<lparr>rx := r\<rparr>" "sock (lib_reg r) = 3" "needDoneTrigger (lib_reg r) = 1"
  "var_of c (lib_reg r) = var_of c lib0" "alloctag (lib_reg r) = 3"
  by (simp_all add: lib_reg_def lib0_def var_of_def)

lemma lib_reg_vars: "vars_ok (lib_reg r)"
  by (auto simp: vars_ok_def) (auto simp: client_vars_def var_of_def int_of_def)

lemma lib_reg_acks: "set_acks q sets (lib_reg r) = set_acks q sets (lib_reg [])"
proof -
  have "set_acks q sets (t\<lparr>chans := c\<rparr>) = set_acks q sets t" for t c
  proof (induction sets arbitrary: q t)
    case (Cons x sets)
    have "clientSet a b (t\<lparr>chans := c\<rparr>) = (fst (clientSet a b t), (snd (clientSet a b t))\<lparr>chans := c\<rparr>)" for a b
      by (cases t) (simp add: clientSet_def)
    with Cons show ?case by (cases x) simp
  qed simp
  from this [where t = "lib_reg []" and c = "chans (lib_reg r)"] show ?thesis by (simp add: lib_reg_def)
qed

lemma config_reaches_client_witness:
  "\<exists>m' s'. sendConfig 0 (mgr_reg (map encode_cmd (set_acks 0 (config_sets flgmap 10) (lib_reg [])))) = Inr m' \<and>
    exchange_loop (lib_reg (map encode_cmd (set_cmds 0 (config_sets flgmap 10)))) = Inr s' \<and>
    enable s' = 0 \<and> poison s' = 1 \<and> tracking s' = 1 \<and> validate s' = 0 \<and> alloctag s' = 3"
proof -
  let ?m = "mgr_reg (map encode_cmd (set_acks 0 (config_sets flgmap 10) (lib_reg [])))"
  let ?s = "lib_reg (map encode_cmd (set_cmds 0 (config_sets flgmap 10)))"
  have n: "length (set_acks 0 (config_sets flgmap 10) (lib_reg [])) = 5"
    by (simp add: set_acks_olds acks_append) (simp add: config_sets_def flgmap_def eval_nat_numeral)
  have a: "answered 0 ?m (map encode_cmd (set_acks 0 (config_sets flgmap 10) ?s)) 5"
    using mgr_reg_simps(4) [of "map encode_cmd (set_acks 0 (config_sets flgmap 10) (lib_reg []))"] n
    by (simp add: lib_reg_acks [of _ _ "map encode_cmd (set_cmds 0 (config_sets flgmap 10))"])
  have t: "alloctag ?s = 3" by simp
  have f: "app_flags (c_adata (clients ?m ! 0)) ?m = Inr 10" "c_seq (clients ?m ! 0) = 0"
    "c_fd (clients ?m ! 0) = 7"
    by (simp_all add: client0_def)
  have k: "isopen (chans ?s (sock ?s))" "wq (chans ?s (sock ?s)) = []" "needDoneTrigger ?s \<noteq> 0" "vars_ok ?s"
    "rx (chans ?s (sock ?s)) = map encode_cmd (set_cmds 0 (config_sets flgmap 10))"
    by (simp_all add: reg_fd_def lib_reg_vars)
  have b: "i32 (bit01 FLAG_ENABLE 10) = 0" "i32 (bit01 FLAG_POISON 10) = 1" "i32 (bit01 FLAG_TRACK 10) = 1"
    "i32 (bit01 FLAG_VALIDATE 10) = 0"
    by (simp_all add: bit01_def flag_defs i32_def)
  from config_reaches_client [OF f a k] show ?thesis unfolding b t by blast
qed

section \<open>Setting and reading a variable\<close>

lemma cb_get: "c \<in> client_vars \<Longrightarrow> clientRcvCB (mk_cmd q CMD_GET c 0 0) 0 None s = Inr (clientGet c s, s)"
  using client_vars_small [of c] by (simp add: clientRcvCB_def mk_cmd_def CMD_SET_def CMD_GET_def)

text \<open>
  C12. A variable set from a console and read back: the manager hands the console the old value,
  then the value it set; the variable of the client has it, the others are as before, and each
  side has written what the other one read.
\<close>

theorem set_then_get:
  fixes m :: mgr and s :: lib
  assumes "c \<in> client_vars" and "0 \<le> v" and "v < 2147483648" and "0 \<le> int_of (var_of c s)"
    and "c_seq (clients m ! idx) = q" and "c_fd (clients m ! idx) = fd" and "0 \<le> fd"
    and "answered idx m (map encode_cmd (acks q [int_of (var_of c s), v])) 2"
    and "isopen (chans s (sock s))" and "wq (chans s (sock s)) = []"
    and "rx (chans s (sock s)) = map encode_cmd
           [mk_cmd (int_of q) CMD_SET c v 0, mk_cmd (int_of (q + 1)) CMD_GET c 0 0]"
  shows "\<exists>m1 m2 s1 s2. trxmgrClientSetVar idx c v m = Inr (int_of (var_of c s), m1) \<and>
    trxmgrClientGetVar idx c m1 = Inr (v, m2) \<and>
    client_rcv s = Inr (int_of (var_of c s), s1) \<and> client_rcv s1 = Inr (v, s2) \<and>
    tx (chans m2 fd) = tx (chans m fd) @ concat (rx (chans s (sock s))) \<and>
    tx (chans s2 (sock s)) = tx (chans s (sock s)) @ concat (rx (chans m fd)) \<and>
    (\<forall>d\<in>client_vars. var_of d s2 = (if d = c then i32 v else var_of d s))"
proof -
  let ?old = "int_of (var_of c s)"
  let ?p = "mk_cmd (int_of q) CMD_SET c v 0" and ?g = "mk_cmd (int_of (q + 1)) CMD_GET c 0 0"
  let ?r = "[encode_cmd (mk_cmd (int_of (q + 1)) CMD_ACK v 0 0)]"
  let ?m1 = "sent idx ?p ?r m" and ?s1 = "took ?p ?old [encode_cmd ?g] (snd (clientSet c v s))"
  have i: "idx < length (clients m)" using assms(8) by (simp add: answered_def)
  have a: "answered idx m (encode_cmd (mk_cmd (int_of (c_seq (clients m ! idx))) CMD_ACK ?old 0 0) # ?r) (Suc 1)"
    using assms(5,8) by (simp add: eval_nat_numeral)
  have m1: "trxmgrClientSetVar idx c v m = Inr (?old, ?m1)"
    using answered_sent(1) [OF a assms(4) int_of_less] assms(5-7) by (simp add: trxmgrClientSetVar_def)
  have a1: "answered idx ?m1 (encode_cmd (mk_cmd (int_of (c_seq (clients ?m1 ! idx))) CMD_ACK v 0 0) # []) (Suc 0)"
    using answered_sent(2) [OF a assms(4) int_of_less] assms(5) i by simp
  have m2: "trxmgrClientGetVar idx c ?m1 = Inr (v, sent idx ?g [] ?m1)"
    using answered_sent(1) [OF a1 assms(2,3)] assms(5-7) i by (simp add: trxmgrClientGetVar_def)
  have set: "clientRcvCB ?p 0 None s = Inr (?old, snd (clientSet c v s))"
    using cb_set [OF assms(1-3)] clientSet_ret [OF assms(1)] by (simp add: prod_eq_iff)
  have c1: "client_rcv s = Inr (?old, ?s1)"
    by (rule client_rcv_cmd [OF assms(9,10) _ _ _ set]) (use assms(11) in simp_all)
  have get: "clientRcvCB ?g 0 None ?s1 = Inr (v, ?s1)"
    using assms(1-3) by (simp add: cb_get clientGet_var clientSet_var)
  have k: "sock ?s1 = sock s" "isopen (chans ?s1 (sock s))" "wq (chans ?s1 (sock s)) = []"
    "rx (chans ?s1 (sock s)) = [encode_cmd ?g]"
    "tx (chans ?s1 (sock s)) = tx (chans s (sock s)) @ encode_cmd (mk_cmd (int_of q) CMD_ACK ?old 0 0)"
    using assms(9,10) by (simp_all add: took_def clientSet_keeps) (simp add: set_chan_def clientSet_keeps)
  have c2: "client_rcv ?s1 = Inr (v, took ?g v [] ?s1)"
    by (rule client_rcv_cmd [OF _ _ _ _ _ get]) (use k in simp_all)
  have "tx (chans (sent idx ?g [] ?m1) fd) = tx (chans m fd) @ concat (rx (chans s (sock s)))"
    using sent_keeps(5) [of idx ?g "[]" ?m1] sent_keeps(5) [of idx ?p ?r m] i assms(6,11) by simp
  moreover have "tx (chans (took ?g v [] ?s1) (sock s)) = tx (chans s (sock s)) @ concat (rx (chans m fd))"
    using took_keeps(9) [of ?g v "[]" ?s1] k assms(6,8) by (simp add: answered_def clientSet_keeps)
  moreover have "\<forall>d\<in>client_vars. var_of d (took ?g v [] ?s1) = (if d = c then i32 v else var_of d s)"
    using assms(1) by (simp add: clientSet_var)
  ultimately show ?thesis using m1 m2 c1 c2 by blast
qed

lemma set_then_get_witness:
  "\<exists>m1 m2. trxmgrClientSetVar 0 (int CMD_TAG) 9 (mgr_reg (map encode_cmd (acks 0 [3, 9]))) = Inr (3, m1) \<and>
     trxmgrClientGetVar 0 (int CMD_TAG) m1 = Inr (9, m2)"
proof -
  let ?s = "lib_reg (map encode_cmd [mk_cmd (int_of 0) CMD_SET (int CMD_TAG) 9 0,
                                     mk_cmd (int_of (0 + 1)) CMD_GET (int CMD_TAG) 0 0])"
  have t: "var_of (int CMD_TAG) ?s = 3" "int CMD_TAG \<in> client_vars"
    by (subst lib_reg_simps(4), simp add: var_of_def cmd_defs) (simp add: client_vars_def)
  have a: "answered 0 (mgr_reg (map encode_cmd (acks 0 [int_of (var_of (int CMD_TAG) ?s), 9])))
      (map encode_cmd (acks 0 [int_of (var_of (int CMD_TAG) ?s), 9])) 2"
    using mgr_reg_simps(4) [of "map encode_cmd (acks 0 [int_of (var_of (int CMD_TAG) ?s), 9])"]
    by (simp add: eval_nat_numeral)
  from set_then_get [OF t(2) _ _ _ _ _ _ a, of 7] t show ?thesis
    by (simp add: client0_def reg_fd_def int_of_def) blast
qed

section \<open>The exchange ends, or waits\<close>


lemma os_write_ended: "os_write fd b s = (r, s') \<Longrightarrow> ended (chans s' x) = ended (chans s x)"
  by (auto simp: os_write_def Let_def split: if_splits list.splits)


lemma sendAck_ended [simp]: "ended (chans (sendAck fd p v s) x) = ended (chans s x)"
proof -
  obtain n s1 where "os_write fd (encode_cmd (mk_cmd (int_of (pseq p)) CMD_ACK v 0 0)) s = (n, s1)" by force
  then show ?thesis using os_write_ended by (auto simp: sendAck_def sendCmdMore_def)
qed








text \<open>Settings that are not followed by \<^verbatim>\<open>CMD_DONE\<close>, from a manager that stays connected.\<close>

lemma exchange_waits:
  assumes "isopen (chans s (sock s))" and "wq (chans s (sock s)) = []" and "needDoneTrigger s \<noteq> 0"
    and "rx (chans s (sock s)) = map encode_cmd (butlast (set_cmds q sets))"
    and "ended (chans s (sock s)) = Silent" and "vars_ok s" and "sets_ok sets"
  shows "exchange_loop s = Inl Blocked"
  using assms
proof (induction sets arbitrary: q s)
  case Nil
  then have "would_wait (sock s) CMDLEN s" by (simp add: would_wait_def CMDLEN_def Let_def)
  then show ?case by (simp add: exchange_loop.simps [of s] client_rcv_def rcvCmd_def os_wait_read_def)
next
  case (Cons cv sets)
  obtain c v where cv: "cv = (c, v)" by force
  have ne: "set_cmds p ss \<noteq> []" for p ss by (induction ss) auto
  let ?p = "mk_cmd (int_of q) CMD_SET c v 0" and ?bs = "map encode_cmd (butlast (set_cmds (q + 1) sets))"
  let ?s1 = "snd (clientSet c v s)" and ?old = "fst (clientSet c v s)"
  define t where "t = took ?p ?old ?bs ?s1"
  from Cons.prems have c: "c \<in> client_vars" "0 \<le> v" "v < 2147483648" and r: "sets_ok sets"
    by (auto simp: sets_ok_def cv)
  have "client_rcv s = Inr (?old, t)"
    unfolding t_def by (rule client_rcv_cmd) (use Cons.prems c ne in \<open>simp_all add: cb_set cv\<close>)
  moreover have "0 \<le> ?old" using Cons.prems c by (simp add: clientSet_ret vars_ok_def)
  ultimately have "exchange_loop s = exchange_loop t"
    using Cons.prems by (simp add: exchange_loop.simps [of s] clientSet_keeps t_def)
  moreover have "exchange_loop t = Inl Blocked"
    using Cons.prems r vars_ok_set [OF _ c] took_keeps(5-8) [of ?p ?old ?bs ?s1]
    by (intro Cons.IH [of t "q + 1"]) (simp_all add: vars_ok_def clientSet_keeps t_def)
  ultimately show ?case by simp
qed

text \<open>The state in which \<^verbatim>\<open>_init\<close> calls \<^verbatim>\<open>connectToMgr\<close>.\<close>

definition starting :: "lib \<Rightarrow> lib" where
  "starting s = (snd (closeFd (sock s) (s\<lparr>ininit := 1, pagesize := sys_pagesize s\<rparr>)))\<lparr>sock := -1\<rparr>"

text \<open>
  C24. A manager that accepts a new client, sends it settings without \<^verbatim>\<open>CMD_DONE\<close> and then stays
  connected and silent holds the whole application: its first allocation, like every other call
  that initialises the library, waits for ever in the \<^verbatim>\<open>read\<close> of the start-up exchange.
\<close>

theorem startup_hangs:
  assumes "initted s = 0" and "ininit s = 0" and "resolved s"
    and "connectToMgr 1 (starting s) = (True, t)" and "0 \<le> sock t"
    and "isopen (chans t (sock t))" and "wq (chans t (sock t)) = []" and "needDoneTrigger t \<noteq> 0"
    and "rx (chans t (sock t)) = map encode_cmd (butlast (set_cmds q sets))"
    and "ended (chans t (sock t)) = Silent" and "vars_ok t" and "sets_ok sets"
  shows "trx_malloc n s = Inl Blocked \<and> trx_free p s = Inl Blocked \<and> lib_open s = Inl Blocked"
proof -
  have "exchange_loop t = Inl Blocked" by (rule exchange_waits [OF assms(6-12)])
  moreover have "connectToMgr 1 ((snd (closeFd (sock s) (s\<lparr>ininit := 1, pagesize := sys_pagesize s\<rparr>)))\<lparr>sock := -1\<rparr>) = (True, t)"
    using assms(4) by (simp add: starting_def)
  ultimately have "clientInit (s\<lparr>ininit := 1, pagesize := sys_pagesize s\<rparr>) = Inl Blocked"
    using assms(5) by (simp add: clientInit_def handleExchange_def)
  then have "chkinit s = Inl Blocked" using assms(1-3) by (simp add: chkinit_def trx_init_def)
  then show ?thesis by (simp add: trx_malloc_def trx_free_def lib_open_def)
qed

text \<open>A process at its start, a manager that accepts it, sends one setting and stays silent.\<close>

definition lib_start :: lib where
  "lib_start = lib0\<lparr>initted := 0, enable := 0, sock := -1, newfds := [3], connects := [True],
     chans := (\<lambda>_. closed_chan)(3 := reg_fd\<lparr>rx := [encode_cmd (mk_cmd (int_of 0) CMD_SET (int CMD_TAG) 9 0)]\<rparr>)\<rparr>"

lemma startup_hangs_witness: "trx_malloc 10 lib_start = Inl Blocked"
proof -
  obtain t where t: "connectToMgr 1 (starting lib_start) = (True, t)" "sock t = 3" "needDoneTrigger t = 1"
    "isopen (chans t 3)" "wq (chans t 3) = []" "ended (chans t 3) = Silent"
    "rx (chans t 3) = [encode_cmd (mk_cmd (int_of 0) CMD_SET (int CMD_TAG) 9 0)]"
    "\<And>c. var_of c t = var_of c (lib_start)"
    by (simp add: connectToMgr_def starting_def lib_start_def lib0_def closeFd_def real_close_def closed_chan_def
        tracked_newfd_def real_newfd_def newFd_def real_connect_def sendCmd1_def sendCmd2_def sendCmdMore_open
        recvAck_def os_select_def reg_fd_def var_of_def set_chan_def)
  have v: "vars_ok t" by (simp add: vars_ok_def t(8)) (simp add: client_vars_def var_of_def lib_start_def int_of_def)
  have r: "rx (chans t (sock t)) = map encode_cmd (butlast (set_cmds 0 [(int CMD_TAG, 9)]))"
    by (simp add: t)
  have "sets_ok [(int CMD_TAG, 9)]" by (simp add: sets_ok_def client_vars_def)
  from startup_hangs [OF _ _ _ t(1) _ _ _ _ r _ v this, of 10] show ?thesis
    by (simp add: t) (simp add: lib_start_def lib0_def)
qed

end
