(* ===== verification/Trx_Snap.thy ===== *)
theory Trx_Snap imports Trx_MgrInv
begin

text \<open>
  Snapshots (\<^verbatim>\<open>snap\<close> and \<^verbatim>\<open>sreport\<close>): the copy of a report with its sizes negated, and what the
  difference between a report and that copy shows.
\<close>

section \<open>Negating the sizes of a segment\<close>

definition neg_trace :: "entry \<Rightarrow> entry" where
  "neg_trace e = e[0 := - (e ! 0)]"

definition slot_at :: "bytes \<Rightarrow> nat \<Rightarrow> bytes" where
  "slot_at g i = take 48 (drop (4 + i * 48) g)"

lemma dec_slot_Cons: "dec_slot b = word32 (take 4 b) # w32.unpack 11 (drop 4 b)"
  using w32.unpack.simps(2) [of 11 b] by (simp add: dec_slot_def)

lemma dec_slot_neg:
  "dec_slot (bytes32 (- word32 (take 4 b)) @ drop 4 b) = neg_trace (dec_slot b)"
  by (simp add: dec_slot_Cons [of b] dec_slot_Cons [of "_ @ _"] neg_trace_def)

lemma neg_entry_slot:
  assumes "4 + n * 48 \<le> length g" and "i < n" and "j < n"
  shows "dec_slot (slot_at (neg_entry g i) j) =
      (if j = i then neg_trace (dec_slot (slot_at g j)) else dec_slot (slot_at g j))"
    and "length (neg_entry g i) = length g"
proof -
  let ?p = "4 + i * 48" and ?q = "4 + j * 48"
  have le: "?p + 48 \<le> length g" "?q + 48 \<le> length g" using assms by linarith+
  define v where "v = bytes32 (- word32 (take 4 (drop ?p g)))"
  have lv: "length v = 4" by (simp add: v_def)
  have ne: "neg_entry g i = take ?p g @ v @ drop (?p + 4) g"
    by (simp add: neg_entry_def Let_def v_def)
  show "length (neg_entry g i) = length g" using le lv by (simp add: ne)
  have lt: "slot_at (neg_entry g i) j = slot_at g j" if "j < i"
  proof -
    have k: "?q + 48 \<le> ?p" using that by linarith
    then have "drop ?q (neg_entry g i) = drop ?q (take ?p g) @ v @ drop (?p + 4) g"
      using le by (simp add: ne)
    moreover have "48 \<le> length (drop ?q (take ?p g))" using k le by simp
    moreover have "take 48 (drop ?q (take ?p g)) = take 48 (drop ?q g)"
      using k by (simp add: take_drop)
    ultimately show ?thesis by (simp add: slot_at_def)
  qed
  have gt: "slot_at (neg_entry g i) j = slot_at g j" if "i < j"
  proof -
    have k: "?p + 4 \<le> ?q" using that by linarith
    have "drop ?q (neg_entry g i) = drop (?q - (?p + 4)) (drop (?p + 4) g)"
      using k le lv by (simp add: ne)
    also have "\<dots> = drop ?q g" using k by simp
    finally show ?thesis by (simp add: slot_at_def)
  qed
  have eq: "slot_at (neg_entry g i) i = bytes32 (- word32 (take 4 (slot_at g i))) @ drop 4 (slot_at g i)"
    using le by (simp add: slot_at_def ne v_def take_drop add.commute add.left_commute)
  show "dec_slot (slot_at (neg_entry g i) j) =
      (if j = i then neg_trace (dec_slot (slot_at g j)) else dec_slot (slot_at g j))"
    using lt gt eq dec_slot_neg by (cases i j rule: linorder_cases) auto
qed

lemma neg_entries_slots:
  assumes "4 + n * 48 \<le> length g" and "k \<le> n"
  shows "length (fold (\<lambda>i g. neg_entry g i) [0..<k] g) = length g \<and>
    (\<forall>j<n. dec_slot (slot_at (fold (\<lambda>i g. neg_entry g i) [0..<k] g) j) =
       (if j < k then neg_trace (dec_slot (slot_at g j)) else dec_slot (slot_at g j)))"
  using assms(2)
proof (induction k)
  case (Suc k)
  let ?g = "fold (\<lambda>i g. neg_entry g i) [0..<k] g"
  from Suc have l: "length ?g = length g" by simp
  then have "4 + n * 48 \<le> length ?g" using assms(1) by simp
  note ne = neg_entry_slot [OF this]
  have s: "fold (\<lambda>i g. neg_entry g i) [0..<Suc k] g = neg_entry ?g k" by simp
  have "length (neg_entry ?g k) = length g" using ne(2) [of k k] Suc.prems l by simp
  then show ?case unfolding s using Suc ne(1) [of k] by (auto simp: less_Suc_eq)
qed simp

lemma seg_entries_slots:
  "seg_entries g n = (if length g < 4 + n * 48 then Inl OutOfBounds else Inr (map (\<lambda>i. dec_slot (slot_at g i)) [0..<n]))"
  by (simp add: seg_entries_def slot_at_def)

lemma seg_entries_neg:
  assumes "seg_entries g n = Inr es"
  shows "seg_entries (neg_entries g n) n = Inr (map neg_trace es)"
proof -
  from assms have l: "4 + n * 48 \<le> length g" and es: "es = map (\<lambda>i. dec_slot (slot_at g i)) [0..<n]"
    by (auto simp: seg_entries_slots split: if_splits)
  from neg_entries_slots [OF l order.refl] l show ?thesis
    by (auto simp: seg_entries_slots neg_entries_def es)
qed

section \<open>The difference\<close>

lemma neg_trace_props:
  assumes "deep e"
  shows "callers (neg_trace e) = callers e" and "deep (neg_trace e)" and "neg_trace e ! 0 = - (e ! 0)"
  using assms by (auto simp: neg_trace_def callers_def deep_def full_entry_def)

lemma bytes_cancel:
  assumes "\<forall>e\<in>set es. deep e"
  shows "bytes_below (below p (es @ map neg_trace es)) = 0"
  using assms
proof (induction es)
  case (Cons e es)
  have "bytes_below (below p (es @ map neg_trace es)) = 0" using Cons by simp
  then show ?case using Cons.prems neg_trace_props [of e]
    by (auto simp: below_def bytes_below_def)
qed (simp add: below_def bytes_below_def)

text \<open>
  C27. Nothing has changed since the snapshot: when a report is taken again with the same entries,
  each of full depth, the difference the manager sorts and prints has no line and a total of zero,
  on any number of entries.
\<close>

theorem unchanged_since_snapshot:
  assumes "do_snap idx (Some g) sz s = Inr s1" and "fst (os_malloc s)" and "idx < length (clients s)"
    and "seg_entries g (sz div RPTSLOTSIZE) = Inr es" and "es \<noteq> []" and "\<forall>e\<in>set es. deep e"
  shows "\<exists>sb ss. snap (clients s1 ! idx) = Some sb \<and>
    seg_entries sb (snapsize (clients s1 ! idx) div RPTSLOTSIZE) = Inr ss \<and>
    (\<forall>vs. by_qsort (es @ ss) vs \<longrightarrow> buildShowTree sm vs = Inr ([], 0))"
proof -
  let ?n = "sz div RPTSLOTSIZE"
  let ?ts = "es @ map neg_trace es"
  obtain s0 where m: "os_malloc s = (True, s0)" using assms(2) by (cases "os_malloc s") auto
  have c: "clients s0 = clients s" by (rule mgr_of_more(1)) (rule os_malloc_more [OF m])
  have s1: "snap (clients s1 ! idx) = Some (neg_entries g ?n)" "snapsize (clients s1 ! idx) = sz"
    using assms(1,3) m c by (auto simp: do_snap_def mapped_def upd_client_def split: if_splits)
  have deep: "\<forall>e\<in>set ?ts. deep e" using assms(6) neg_trace_props(2) by auto
  have "buildShowTree sm vs = Inr ([], 0)" if vs: "by_qsort ?ts vs" for vs
  proof -
    from report_lines [OF _ deep vs, of sm] assms(5) obtain ls where
      ls: "buildShowTree sm vs = Inr (print_lines sm ls, tally ls)"
        "tally ls = bytes_below ?ts"
        "set (line_paths ls) = (\<lambda>p. (p, bytes_below (below p ?ts))) ` span_paths 0 ?ts" by auto
    have z: "sz' = 0" if "(d, e, sz') \<in> set ls" for d e sz'
    proof -
      from that have "(take (d + 1) (callers e), sz') \<in> set (line_paths ls)"
        by (force simp: line_paths_def)
      with ls(3) bytes_cancel [OF assms(6)] show ?thesis by auto
    qed
    have "print_lines sm ls = []"
      by (auto simp: print_lines_def filter_empty_conv int_of_def dest!: z)
    moreover have "bytes_below ?ts = 0" using bytes_cancel [OF assms(6), of "[]"] by (simp add: below_def)
    ultimately show ?thesis using ls by simp
  qed
  with s1 seg_entries_neg [OF assms(4)] show ?thesis by auto
qed

text \<open>A segment of one entry.\<close>

definition seg1 :: bytes where
  "seg1 = bytes32 16 @ enc_slot trace_a"

lemma seg1_entries: "seg_entries seg1 1 = Inr [trace_a]" "length seg1 = 52"
proof -
  have l: "length (enc_slot trace_a) = 48" "dec_slot (enc_slot trace_a) = trace_a"
    using slot.length_enc [of trace_a] slot.dec_enc [of trace_a] by (simp_all add: trace_a_def)
  then show "length seg1 = 52" by (simp add: seg1_def)
  with l show "seg_entries seg1 1 = Inr [trace_a]"
    by (simp add: seg_entries_slots slot_at_def seg1_def)
qed

lemma unchanged_since_snapshot_witness:
  "\<exists>s1 sb ss. do_snap 0 (Some seg1) 52 mgr0 = Inr s1 \<and> snap (clients s1 ! 0) = Some sb \<and>
     seg_entries sb 1 = Inr ss \<and> buildShowTree False (qsort ([trace_a] @ ss)) = Inr ([], 0)"
proof -
  have m: "os_malloc mgr0 = (True, mgr0)" by (simp add: os_malloc_def mgr0_def)
  let ?s1 = "upd_client 0 (\<lambda>c. c\<lparr>snap := Some (neg_entries seg1 1), snapsize := 52\<rparr>) mgr0"
  have d: "do_snap 0 (Some seg1) 52 mgr0 = Inr ?s1" by (simp add: do_snap_def m mapped_def)
  have i: "0 < length (clients mgr0)" by (simp add: mgr0_def MAXCLIENTS_def)
  have e: "seg_entries seg1 (52 div RPTSLOTSIZE) = Inr [trace_a]" using seg1_entries by simp
  have t: "[trace_a] \<noteq> []" "\<forall>e\<in>set [trace_a]. deep e" by (simp_all add: trace_defs)
  have z: "snapsize (clients ?s1 ! 0) = 52" using i by (simp add: upd_client_def)
  from unchanged_since_snapshot [OF d _ i e t, of False] m z
  obtain sb ss where w: "snap (clients ?s1 ! 0) = Some sb" "seg_entries sb 1 = Inr ss"
    "\<forall>vs. by_qsort ([trace_a] @ ss) vs \<longrightarrow> buildShowTree False vs = Inr ([], 0)" by auto
  have "ss = [neg_trace trace_a]"
    using w(1,2) i seg_entries_neg [of seg1 1 "[trace_a]"] seg1_entries by (auto simp: upd_client_def)
  then have "by_qsort ([trace_a] @ ss) (qsort ([trace_a] @ ss))"
    using neg_trace_props(2) [of trace_a] t(2) by (intro qsort_sorts) (auto simp: deep_def)
  with w d show ?thesis by blast
qed

end
