(* ===== verification/Trx_Debug.thy ===== *)
theory Trx_Debug imports Trx_Printf
begin

text \<open>
  The message routine \<^verbatim>\<open>trxdbg\<close> of \<^verbatim>\<open>trxcommon.c\<close>, which both programs report errors with and
  leave through. The other theories model a call with \<^verbatim>\<open>die\<close> set as the fault \<open>Exit\<close> and leave the
  messages out.
\<close>

section \<open>The routine\<close>

record dbg =
  dbglvl :: int
  syslogOn :: bool
  dbg_pid :: int
  os_pid :: int
  os_errno :: int

text \<open>Where a message goes: to \<^verbatim>\<open>syslog\<close>, or to standard error.\<close>

datatype dbg_out = Syslog string | Stderr string

definition dbgsetlvl :: "int \<Rightarrow> dbg \<Rightarrow> dbg" where
  "dbgsetlvl level s = s\<lparr>dbglvl := level\<rparr>"

definition dbggetlvl :: "dbg \<Rightarrow> int" where
  "dbggetlvl s = dbglvl s"

definition MSGBUF :: nat where "MSGBUF = 1024"

definition err_text :: "int \<Rightarrow> string" where
  "err_text e = '' : error ['' @ show_int e @ '']''"

text \<open>
  The result: the state, what was output, and whether the process ends. \<^verbatim>\<open>vsnprintf\<close> returns the
  length the text would have had, by which the pointer moves: a text that does not fit puts the
  terminating NUL outside the buffer.
\<close>

definition trxdbg ::
  "int \<Rightarrow> bool \<Rightarrow> bool \<Rightarrow> string \<Rightarrow> pf_arg list \<Rightarrow> dbg \<Rightarrow> fault + (dbg \<times> dbg_out list \<times> bool)" where
  "trxdbg level doerr die fmt args s =
     (if level > dbglvl s then Inr (s, [], False)
      else
        (let s1 = (if dbg_pid s < 0 then s\<lparr>dbg_pid := os_pid s\<rparr> else s);
             myfmt = ''['' @ show_int (dbg_pid s1) @ ''] '' @ fmt;
             docr = (last myfmt = CHR 0x0A);
             myfmt1 = (if docr then butlast myfmt else myfmt)
         in if MSGBUF \<le> length myfmt then Inl OutOfBounds
            else case printf myfmt1 args of
              None \<Rightarrow> Inl Indeterminate
            | Some t \<Rightarrow>
                (let msg = t @ (if doerr then err_text (os_errno s1) else []) @
                           (if docr \<or> doerr then [CHR 0x0A] else [])
                 in if MSGBUF \<le> length msg then Inl OutOfBounds
                    else Inr (s1, [if syslogOn s1 then Syslog (takeWhile (\<lambda>c. c \<noteq> CHR 0x00) msg)
                                   else Stderr msg], die))))"

section \<open>What is output\<close>

lemma printf_literal: "CHR ''%'' \<notin> set p \<Longrightarrow> printf (p @ f) args = map_option (\<lambda>r. p @ r) (printf f args)"
proof (induction p)
  case Nil
  show ?case by (cases "printf f args") simp_all
next
  case (Cons a p)
  then show ?case by (cases "printf f args") auto
qed

lemma digit_char_no_percent: "d < 10 \<Longrightarrow> digit_char d \<noteq> CHR ''%''"
  by (auto simp: digit_char_def of_char_of char_of_eq_iff take_bit_eq_mod dest!: arg_cong [where f = "of_char :: char \<Rightarrow> nat"])

lemma nat_digits_less: "2 \<le> b \<Longrightarrow> d \<in> set (nat_digits b n) \<Longrightarrow> d < b"
proof (induction b n rule: nat_digits.induct)
  case (1 b n)
  show ?case
  proof (cases "n < b")
    case True
    with 1 show ?thesis by (simp add: nat_digits.simps [of b n])
  next
    case False
    with "1.prems" have "d \<in> set (nat_digits b (n div b)) \<or> d = n mod b"
      by (auto simp: nat_digits.simps [of b n])
    with 1 False show ?thesis by auto
  qed
qed

lemma show_int_no_percent: "CHR ''%'' \<notin> set (show_int k)"
proof -
  have "CHR ''%'' \<notin> set (show_nat 10 n)" for n
    using nat_digits_less [of 10 _ n] digit_char_no_percent by (fastforce simp: show_nat_def)
  then show ?thesis by (simp add: show_int_def)
qed

definition chomp :: "string \<Rightarrow> string" where
  "chomp f = (if f \<noteq> [] \<and> last f = CHR 0x0A then butlast f else f)"

text \<open>The message in full: process, text, error number, newline.\<close>

definition full_message :: "bool \<Rightarrow> string \<Rightarrow> string \<Rightarrow> int \<Rightarrow> int \<Rightarrow> string" where
  "full_message doerr fmt t p e =
     ''['' @ show_int p @ ''] '' @ t @ (if doerr then err_text e else []) @
       (if doerr \<or> chomp fmt \<noteq> fmt then [CHR 0x0A] else [])"

definition msg_pid :: "dbg \<Rightarrow> int" where
  "msg_pid s = (if dbg_pid s < 0 then os_pid s else dbg_pid s)"

text \<open>
  C34. A message at or below the debug level is output in full, with the process id in front and the
  error number and the newline behind, and the process leaves when it was asked to; unless the
  format or the text does not fit the buffers of 1024 bytes, then the routine writes beyond them.
  Above the level the call has no effect: it does not leave either.
\<close>

theorem message_in_full:
  assumes "fmt \<noteq> []" and "printf (chomp fmt) args = Some t"
  shows "trxdbg level doerr die fmt args s =
    (if level > dbglvl s then Inr (s, [], False)
     else if length (show_int (msg_pid s)) + 3 + length fmt < MSGBUF \<and>
             length (full_message doerr fmt t (msg_pid s) (os_errno s)) < MSGBUF
     then Inr (s\<lparr>dbg_pid := msg_pid s\<rparr>,
               [if syslogOn s
                then Syslog (takeWhile (\<lambda>c. c \<noteq> CHR 0x00) (full_message doerr fmt t (msg_pid s) (os_errno s)))
                else Stderr (full_message doerr fmt t (msg_pid s) (os_errno s))], die)
     else Inl OutOfBounds)"
proof -
  define pre where "pre = ''['' @ show_int (msg_pid s) @ ''] ''"
  have np: "CHR ''%'' \<notin> set pre" using show_int_no_percent by (simp add: pre_def)
  have cut: "(if last (pre @ fmt) = CHR 0x0A then butlast (pre @ fmt) else pre @ fmt) = pre @ chomp fmt"
    using assms(1) by (simp add: chomp_def butlast_append)
  have nl: "last (pre @ fmt) = CHR 0x0A \<longleftrightarrow> chomp fmt \<noteq> fmt"
    using assms(1) by (auto simp: chomp_def) (metis append_butlast_last_id append_self_conv not_Cons_self2)
  have p: "printf (pre @ chomp fmt) args = Some (pre @ t)"
    using assms(2) by (simp add: printf_literal [OF np])
  have s1: "(if dbg_pid s < 0 then s\<lparr>dbg_pid := os_pid s\<rparr> else s) = s\<lparr>dbg_pid := msg_pid s\<rparr>"
    by (simp add: msg_pid_def)
  have pre_eq: "''['' @ show_int (dbg_pid (s\<lparr>dbg_pid := msg_pid s\<rparr>)) @ ''] '' @ fmt = pre @ fmt"
    by (simp add: pre_def)
  have fm: "full_message doerr fmt t (msg_pid s) (os_errno s) =
      (pre @ t) @ (if doerr then err_text (os_errno s) else []) @
        (if chomp fmt \<noteq> fmt \<or> doerr then [CHR 0x0A] else [])"
    by (auto simp: full_message_def pre_def)
  have "trxdbg level doerr die fmt args s =
    (if level > dbglvl s then Inr (s, [], False)
     else if MSGBUF \<le> length (pre @ fmt) then Inl OutOfBounds
     else if MSGBUF \<le> length (full_message doerr fmt t (msg_pid s) (os_errno s)) then Inl OutOfBounds
     else Inr (s\<lparr>dbg_pid := msg_pid s\<rparr>,
               [if syslogOn s
                then Syslog (takeWhile (\<lambda>c. c \<noteq> CHR 0x00) (full_message doerr fmt t (msg_pid s) (os_errno s)))
                else Stderr (full_message doerr fmt t (msg_pid s) (os_errno s))], die))"
    unfolding trxdbg_def Let_def s1 pre_eq cut unfolding nl p fm by simp
  moreover have "length (pre @ fmt) = length (show_int (msg_pid s)) + 3 + length fmt"
    by (simp add: pre_def)
  ultimately show ?thesis by (auto simp: not_less)
qed

definition dbg0 :: dbg where
  "dbg0 = \<lparr>dbglvl = 0, syslogOn = False, dbg_pid = -1, os_pid = 7, os_errno = 2\<rparr>"

lemma chars: "char_of (55 :: nat) = CHR ''7''" "char_of (50 :: nat) = CHR ''2''"
  by code_simp+

lemma message_in_full_witness:
  "trxdbg 0 True True (''no %s'' @ [CHR 0x0A]) [PStr ''file''] dbg0 =
     Inr (dbg0\<lparr>dbg_pid := 7\<rparr>, [Stderr (''[7] no file : error [2]'' @ [CHR 0x0A])], True)"
  using message_in_full [of "''no %s'' @ [CHR 0x0A]" "[PStr ''file'']" "''no file''" 0 True True dbg0]
  by (simp add: chars chomp_def dbg0_def msg_pid_def full_message_def err_text_def show_int_def show_nat_def
      nat_digits.simps digit_char_def MSGBUF_def conv_flags_def conv_width_def conv_body_def
      pad_field_def digits_val_def is_digit_def ord_c_def)

end
