(* ===== verification/Trx_Stack.thy ===== *)
theory Trx_Stack imports Trx_Tracker
begin

text \<open>
  The memory the tracker does not own. Its calls leave every cell outside the allocation lists and
  the blocks as it is; so the stack of the process, from which \<^verbatim>\<open>tp_gettrace\<close> reads the return
  addresses, is the same whatever was allocated and freed before. With that the pattern \<^verbatim>\<open>free\<close>
  poisons a tracked block with is known: it starts with the address \<^verbatim>\<open>free\<close> returns to.
\<close>

section \<open>Cells outside the heap\<close>

definition outside :: "u32 \<Rightarrow> blk list \<Rightarrow> u32 \<Rightarrow> nat \<Rightarrow> bool" where
  "outside at B c k \<longleftrightarrow> 0 < k \<and> apart at ALIST_BYTES c k \<and> (\<forall>b\<in>set B. apart (blk_base b) (blk_len b) c k)"

lemma outside_cell:
  assumes "outside at B c k" and "layout_ok at B"
  shows "b \<in> set B \<Longrightarrow> x \<in> blk_cells b \<Longrightarrow> apart x 4 c k" and "x \<in> alist_cells at \<Longrightarrow> apart x 4 c k"
proof -
  have self: "within c k c k" and k: "0 < k" using assms(1) by (simp_all add: within_def outside_def)
  show "apart x 4 c k" if "b \<in> set B" "x \<in> blk_cells b"
    by (rule apart_within [OF _ blk_cell_within [OF layout_okD(2) [OF assms(2) that(1)] that(2)] self _ k])
      (use assms(1) that in \<open>simp_all add: outside_def\<close>)
  show "apart x 4 c k" if "x \<in> alist_cells at"
    by (rule apart_within [OF _ alist_cell_within [OF that] self _ k])
      (use assms(1) in \<open>simp_all add: outside_def\<close>)
qed

lemma tag_frame_outside:
  assumes "tag_frame at m m' t L" and "layout_ok at L" and "unat t < MAXTAGS" and "outside at L c k"
  shows "mem_read m' c k = mem_read m c k"
proof -
  note o = outside_cell [OF assms(4,2)]
  have "apart x 4 c k" if "d \<in> set (tagged t L)" "x \<in> set (link_cells d)" for d x
    by (rule o(1) [of d]) (use that in \<open>auto simp: tagged_def blk_cells_def\<close>)
  moreover have "apart (alist_list at t) 4 c k" "apart (alist_total at t) 4 c k"
    using o(2) assms(3) by (auto simp: alist_cells_def)
  ultimately show ?thesis using assms(1) by (simp add: tag_frame_def)
qed

lemma touches_outside:
  assumes "touches m m' a n" and "within a n (blk_base b) (blk_len b)" and "b \<in> set B" and "outside at B c k"
  shows "mem_read m' c k = mem_read m c k"
proof -
  have "touches m m' (blk_base b) (blk_len b)" by (rule touches_within [OF assms(1,2)])
  then show ?thesis by (rule touches_read) (use assms(3,4) in \<open>simp add: outside_def\<close>)
qed

lemma alloc_outside:
  assumes i: "heap_inv s B" and r: "small_request al n" and f: "fresh s B p (unat (raw_size s al n))"
    and t: "tracking s \<noteq> 0 \<Longrightarrow> unat (alloctag s) < MAXTAGS"
    and o: "outside (alist_at s) (new_blk s al n p # B) c k"
  shows "mem_read (memory (alloc_post s al n p False ps)) c k = mem_read (memory s) c k"
proof -
  let ?b = "new_blk s al n p" and ?m = "new_header s al n p False"
  have nz: "False \<Longrightarrow> tracking s \<noteq> 0" by simp
  have l: "layout_ok (alist_at s) (?b # B)" using new_blk_layout [OF _ r f t] i by (simp add: heap_inv_def)
  note h = new_header_ok [where s = s and p = p and zero = False, OF r nz]
  have hd: "mem_read ?m c k = mem_read (memory s) c k"
  proof (rule touches_read [OF h(2)])
    show "apart (blk_base ?b) (blk_len ?b) c k" using o by (auto simp: outside_def)
  qed
  show ?thesis
  proof (cases "tracking s = 0")
    case True
    with hd show ?thesis by (simp add: alloc_post_def alloc_mem_def Let_def)
  next
    case False
    then have tg: "btag ?b = Some (alloctag s)" "bsize ?b = trxAlign n" by (simp_all add: new_blk_def)
    have "blk_tp ?b \<noteq> 0" using layout_okD(2) [OF l, of ?b] tg by (simp add: blk_valid_def)
    from tag_frame_outside [OF link_block(2) [OF l new_header_mem(1) [OF i r f t nz] h(1) tg(1) t [OF False] this]
        l t [OF False] o] hd tg(2) False
    show ?thesis by (simp add: alloc_post_def alloc_mem_def Let_def)
  qed
qed

section \<open>The first caller\<close>

lemma walk_frames_first: "walk_frames m base (Suc i) k fr pc = (j, fr', pc') \<Longrightarrow> pc' ! 0 = pc ! 0"
  by (induction k arbitrary: i fr pc) (auto split: if_splits)

lemma tp_gettrace_first:
  assumes "tp_gettrace m f pc mx = (n, pc')" and "0 < n" and "length pc = mx"
  shows "pc' ! 0 = ld32 m (ld32 m f + 4)"
proof -
  have f: "frame_ok m f f" using assms(1,2) by (auto simp: tp_gettrace_def JUMPOVER_def split: if_splits)
  let ?pc1 = "pc[0 := ld32 m (f + 4)]"
  obtain j fr pc2 where w: "walk_frames m f 0 mx (ld32 m f) ?pc1 = (j, fr, pc2)"
    by (cases "walk_frames m f 0 mx (ld32 m f) ?pc1")
  then have n: "n = j" "pc' = take n pc2 @ replicate (mx - n) 0 @ drop mx pc2"
    using assms(1) f by (auto simp: tp_gettrace_def JUMPOVER_def)
  obtain k where mx: "mx = Suc k" using walk_frames_bounds [OF w] assms(2) n(1) by (cases mx) auto
  have l: "length pc2 = mx" using length_walk_frames [OF w] assms(3) by simp
  have "pc2 ! 0 = ld32 m (ld32 m f + 4)"
  proof (cases "frame_ok m f (ld32 m f)")
    case True
    with w mx have "walk_frames m f (Suc 0) k (ld32 m (ld32 m f)) (?pc1[0 := ld32 m (ld32 m f + 4)]) = (j, fr, pc2)"
      by simp
    from walk_frames_first [OF this] assms(3) mx show ?thesis by simp
  next
    case False
    with w mx n(1) assms(2) show ?thesis by simp
  qed
  moreover have "0 < length (take n pc2)" using assms(2) l mx by simp
  ultimately show ?thesis using n(2) assms(2) by (simp add: nth_append)
qed

text \<open>
  Where the calls of the process return to: the frame of \<^verbatim>\<open>tp_gettrace\<close>, behind it that of the
  overload, whose second word is the return address. \<open>stack_ok\<close>: these two words are not in
  the heap, and the address is not one of the numbers the tracker marks its blocks with.
\<close>

definition caller_at :: "lib \<Rightarrow> u32" where
  "caller_at s = ld32 (memory s) (frame s) + 4"

definition caller :: "lib \<Rightarrow> u32" where
  "caller s = ld32 (memory s) (caller_at s)"

definition stack_ok :: "lib \<Rightarrow> blk list \<Rightarrow> bool" where
  "stack_ok s B \<longleftrightarrow> outside (alist_at s) B (frame s) 4 \<and> outside (alist_at s) B (caller_at s) 4 \<and>
     caller s \<noteq> MAGIC1 \<and> caller s \<noteq> MAGIC2"

lemma stack_ok_keep:
  assumes "stack_ok s B" and "frame t = frame s" and "alist_at t = alist_at s"
    and "\<And>c. outside (alist_at s) B c 4 \<Longrightarrow> c \<in> {frame s, caller_at s} \<Longrightarrow> mem_read (memory t) c 4 = mem_read (memory s) c 4"
    and "\<And>b c. b \<in> set B' - set B \<Longrightarrow> c \<in> {frame s, caller_at s} \<Longrightarrow> apart (blk_base b) (blk_len b) c 4"
  shows "stack_ok t B'" and "caller t = caller s" and "caller_at t = caller_at s"
proof -
  have o: "outside (alist_at s) B (frame s) 4" "outside (alist_at s) B (caller_at s) 4"
    using assms(1) by (simp_all add: stack_ok_def)
  have f: "ld32 (memory t) (frame s) = ld32 (memory s) (frame s)"
    using assms(4) [OF o(1)] by (simp add: ld32_def)
  then show c: "caller_at t = caller_at s" using assms(2) by (simp add: caller_at_def)
  have "ld32 (memory t) (caller_at s) = ld32 (memory s) (caller_at s)"
    using assms(4) [OF o(2)] by (simp add: ld32_def)
  with c show v: "caller t = caller s" by (simp add: caller_def)
  have "outside (alist_at s) B' x 4" if "x \<in> {frame s, caller_at s}" for x
    using o that assms(5) by (auto simp: outside_def)
  with c v show "stack_ok t B'" using assms(1-3) by (simp add: stack_ok_def)
qed

section \<open>Release, seen from outside\<close>

lemma free_unlink_outside:
  assumes i: "heap_inv s B" and b: "b \<in> set B" and u: "free_unlink (bptr b) s = Inr (m, cur, pat)"
    and o: "outside (alist_at s) B c k"
  shows "mem_read m c k = mem_read (memory s) c k"
    and "stack_ok s B \<Longrightarrow> \<exists>n w. 1 \<le> n \<and> n \<le> 4 \<and> length pat = 4 * n \<and> take 4 pat = bytes32 w \<and> w \<in> {- 1, caller s}"
proof -
  let ?at = "alist_at s"
  have l: "layout_ok ?at B" and mo: "mem_ok ?at (memory s) B" and bo: "blk_ok (memory s) b" and v: "blk_valid ?at b"
    using i b by (auto simp: heap_inv_def mem_ok_def layout_ok_def)
  have "mem_read m c k = mem_read (memory s) c k \<and> (stack_ok s B \<longrightarrow>
    (\<exists>n w. 1 \<le> n \<and> n \<le> 4 \<and> length pat = 4 * n \<and> take 4 pat = bytes32 w \<and> w \<in> {- 1, caller s}))"
  proof (cases "btag b")
    case None
    then have "m = memory s" "pat = bytes32 (- 1)" using u bo by (simp_all add: free_unlink_def blk_ok_def free_pattern_def)
    then show ?thesis by (intro conjI impI exI [of _ 1] exI [of _ "- 1"]) (simp_all add: bytes32_def)
  next
    case (Some t)
    then have t: "unat t < MAXTAGS" using v by (simp add: blk_valid_def)
    let ?m2 = "LIST_REMOVE (add32 (memory s) (alist_total ?at t) (- bsize b)) (blk_tp b) 0"
    obtain n fr where tr: "tp_gettrace ?m2 (frame s) (ld_words ?m2 (blk_tp b + o_freers) MAXFREERS)
        MAXFREERS = (n, fr)" by fastforce
    have n: "n \<le> MAXFREERS" "length fr = MAXFREERS" using tp_gettrace_bounds [OF tr] by simp_all
    note f = unlink_block(2) [OF l mo b Some t]
    have mp: "m = st_words ?m2 (blk_tp b + o_freers) fr" "pat = free_pattern n fr"
      using u Some bo t tr verify_neighbours_ok [OF mo b Some t]
      by (simp_all add: free_unlink_def blk_ok_def Let_def blk_tp_def [symmetric])
    have "touches ?m2 m (blk_tp b + o_freers) 16"
      using touches_write [of ?m2 "blk_tp b + o_freers" "concat (map bytes32 fr)"] n
      by (simp add: mp st_words_def MAXFREERS_def)
    then have "mem_read m c k = mem_read ?m2 c k"
      by (rule touches_outside [OF _ in_block_apart(6) [OF v] b o]) (simp add: Some)
    moreover have "mem_read ?m2 c k = mem_read (memory s) c k" by (rule tag_frame_outside [OF f l t o])
    moreover have "\<exists>n w. 1 \<le> n \<and> n \<le> 4 \<and> length pat = 4 * n \<and> take 4 pat = bytes32 w \<and> w \<in> {- 1, caller s}"
      if st: "stack_ok s B"
    proof (cases "n = 0")
      case True
      then show ?thesis by (intro exI [of _ 1] exI [of _ "- 1"]) (simp add: mp free_pattern_def bytes32_def)
    next
      case False
      have k: "ld32 ?m2 x = ld32 (memory s) x" if "x \<in> {frame s, caller_at s}" for x
        using tag_frame_outside [OF f l t, of x 4] st that by (auto simp: stack_ok_def ld32_def)
      have "fr ! 0 = ld32 ?m2 (ld32 ?m2 (frame s) + 4)"
        by (rule tp_gettrace_first [OF tr]) (use False in simp_all)
      then have "fr ! 0 = caller s" using k [of "frame s"] k [of "caller_at s"]
        by (simp add: caller_at_def caller_def)
      moreover obtain w ws where "fr = w # ws" using n(2) by (cases fr) (auto simp: MAXFREERS_def)
      ultimately show ?thesis using False n
        by (intro exI [of _ n] exI [of _ "caller s"]) (auto simp: mp free_pattern_def MAXFREERS_def)
    qed
    ultimately show ?thesis by simp
  qed
  then show "mem_read m c k = mem_read (memory s) c k"
    and "stack_ok s B \<Longrightarrow> \<exists>n w. 1 \<le> n \<and> n \<le> 4 \<and> length pat = 4 * n \<and> take 4 pat = bytes32 w \<and> w \<in> {- 1, caller s}"
    by blast+
qed

lemma free_outside:
  assumes i: "heap_inv s B" and b: "b \<in> set B" and e: "enable s \<noteq> 0"
    and f: "trx_free (bptr b) s = Inr t" and o: "outside (alist_at s) B c k"
  shows "mem_read (memory t) c k = mem_read (memory s) c k"
proof -
  have bo: "blk_ok (memory s) b" and v: "blk_valid (alist_at s) b"
    using i b by (auto simp: heap_inv_def mem_ok_def layout_ok_def)
  obtain m1 pat where u: "free_unlink (bptr b) s = Inr (m1, curalloc s - bsize b, pat)" "blk_ok m1 b"
    using free_unlink_ok [OF i b] by blast
  define m2 where "m2 = st32 m1 (pw_magic (bptr b)) (ld32 m1 (pw_magic (bptr b)) OR 1)"
  define m3 where "m3 = (if poison s \<noteq> 0
     then poison_loop m2 (bptr b) (bptr b + ld32 m2 (pw_size (bptr b))) pat else m2)"
  have "ld32 m2 (pw_size (bptr b)) = bsize b"
    using u(2) by (simp add: m2_def blk_ok_def ld32_st32_apart apart_def pw_magic_def pw_size_def)
  then have p3: "touches m2 m3 (bptr b) (unat (bsize b))"
    using poison_loop_touches [of m2 "bptr b" "bptr b + bsize b" pat] by (simp add: m3_def)
  have "memory t = m3"
  proof -
    have "initted s \<noteq> 0" "bptr b \<noteq> 0" using i v by (simp_all add: heap_inv_def blk_valid_def)
    then have "trx_free (bptr b) s = Inr (real_free (bptr b - ld32 m3 (pw_offset (bptr b)))
        (s\<lparr>memory := m3, curalloc := curalloc s - bsize b\<rparr>))"
      using e verify_ok [OF bo, of s] u(1) by (simp add: trx_free_def Let_def m2_def [symmetric] m3_def)
    with f show ?thesis by (auto simp: real_free_def)
  qed
  moreover have "mem_read m3 c k = mem_read m2 c k"
    by (rule touches_outside [OF p3 in_block_apart(4) [OF v] b o])
  moreover have "mem_read m2 c k = mem_read m1 c k"
    unfolding m2_def by (rule touches_outside [OF touches_st32 in_block_apart(5) [OF v] b o])
  ultimately show ?thesis using free_unlink_outside(1) [OF i b u(1) o] by simp
qed

text \<open>The words of a poisoned buffer are those of the pattern, over and over.\<close>

lemma poison_word:
  assumes "pat = bytes32 w @ rest" and "length pat dvd i" and "i + 4 \<le> unat n" and "unat p + unat n < 4294967296"
  shows "ld32 (poison_loop m p (p + n) pat) (p + of_nat i) = w"
proof -
  have le: "p \<le> p + n" and u: "unat (p + n - p) = unat n"
    using assms(4) unat_plus_le [of p n] by (simp_all add: word_le_nat_alt)
  have l: "4 \<le> length pat" using assms(1) by (simp add: bytes32_def)
  have ne: "pat \<noteq> []" using l by auto
  have "mem_read (poison_loop m p (p + n) pat) (p + of_nat i) 4 = bytes32 w"
  proof (rule nth_equalityI)
    fix j assume "j < length (mem_read (poison_loop m p (p + n) pat) (p + of_nat i) 4)"
    then have j: "j < 4" by simp
    obtain q where "i = length pat * q" using assms(2) by (auto elim: dvdE)
    moreover have "j < length pat" using j l by simp
    ultimately have "(i + j) mod length pat = j" by (simp add: mod_mult_self4)
    moreover have "poison_loop m p (p + n) pat (p + of_nat (i + j)) = pat ! ((i + j) mod length pat)"
      by (rule poison_loop_bytes [OF le ne]) (use u j assms(3) in simp)
    ultimately show "mem_read (poison_loop m p (p + n) pat) (p + of_nat i) 4 ! j = bytes32 w ! j"
      using j by (simp add: mem_read_def add.assoc assms(1) nth_append)
  qed simp
  then show ?thesis by (simp add: ld32_def)
qed

end
