(* ===== verification/Trx_Test.thy ===== *)
theory Trx_Test imports Trx_Stack "HOL-Library.Multiset"
begin

text \<open>
  \<^verbatim>\<open>trxtest.c\<close>: the program that exercises the tracker, run with the library preloaded, so that its
  \<^verbatim>\<open>malloc\<close>, \<^verbatim>\<open>free\<close>, \<^verbatim>\<open>open\<close> and the others are the overloads. Its functions are modelled over the
  state of the library, \<^verbatim>\<open>main\<close> with them: the tests of single calls, the load test with its threads,
  and the descriptor test. What it prints is left out; the key it waits for before the end is a time in
  which its threads run. Its calls are all made from the same stack frame. A \<^verbatim>\<open>COREDUMP\<close> of the library
  raises a signal whose handler jumps back to the last \<^verbatim>\<open>sigsetjmp\<close>. The theorem at the end shows that
  the run comes out the way the program calls good, whatever the order in which its threads run.
\<close>

section \<open>Nested calls\<close>


















section \<open>Faults that are caught\<close>






definition OVERSIZE :: u32 where "OVERSIZE = 200"



section \<open>Load\<close>














section \<open>The checks of the main program\<close>






section \<open>An allocator that serves every request\<close>

text \<open>
  The contract of the real allocator for a whole run: the raw blocks it will answer with are large
  enough for every request of the tests, away from the blocks in use, from each other and from the
  stack.
\<close>

definition CHUNK :: nat where "CHUNK = 12288"

definition switches :: "lib \<Rightarrow> u32 list" where
  "switches s = [enable s, validate s, poison s, tracking s, alloctag s, pagesize s, alist_at s]"

text \<open>What the calls of the tracker leave as it is.\<close>

definition ambient :: "lib \<Rightarrow> u32 list \<times> int list \<times> bool list" where
  "ambient s = (switches s, newfds s, threads s)"

lemma ambient_updates [simp]:
  "ambient (s\<lparr>memory := m\<rparr>) = ambient s" "ambient (alloc_post s al n p zero ps) = ambient s"
  "ambient (free_post s b m) = ambient s"
  by (simp_all add: ambient_def switches_def alloc_post_def free_post_def real_free_def)

definition serving :: "nat \<Rightarrow> lib \<Rightarrow> blk list \<Rightarrow> bool" where
  "serving n s B \<longleftrightarrow> heap_inv s B \<and> enable s \<noteq> 0 \<and> (tracking s \<noteq> 0 \<longrightarrow> unat (alloctag s) < MAXTAGS) \<and>
     pagesize s = 4096 \<and> n \<le> length (answers s) \<and> (\<forall>p\<in>set (answers s). fresh s B p CHUNK) \<and>
     sorted_wrt (\<lambda>p q. apart p CHUNK q CHUNK) (answers s) \<and> stack_ok s B \<and>
     (\<forall>p\<in>set (answers s). \<forall>c\<in>{frame s, caller_at s}. apart p CHUNK c 4)"













lemma oversize [simp]: "unat OVERSIZE \<le> 1000" "trxAlign OVERSIZE = 200" "OVERSIZE + 1 = 201"
  by (simp_all add: OVERSIZE_def trxAlign_def)






section \<open>What the tests need and leave\<close>

text \<open>
  \<open>leaves Q k j f\<close>: with at least \<open>k\<close> answers of the allocator ready, and ambient as in \<open>Q\<close>, the
  call returns, no switch has changed, and \<open>j\<close> blocks have been added to those in use.
\<close>

definition leaves :: "(u32 list \<times> int list \<times> bool list \<Rightarrow> bool) \<Rightarrow> nat \<Rightarrow> nat \<Rightarrow> (lib \<Rightarrow> fault + lib) \<Rightarrow> bool" where
  "leaves Q k j f \<longleftrightarrow> (\<forall>n s B. serving (k + n) s B \<and> Q (ambient s) \<longrightarrow>
     (\<exists>t L. f s = Inr t \<and> length L = j \<and> serving n t (L @ B) \<and> ambient t = ambient s))"










lemma ignored [simp]: "bindE (bindE x (\<lambda>(_, s). Inr (0, s))) (\<lambda>(_, t). g t) = bindE x (\<lambda>(_, t). g t)"
  by (cases x) auto





lemma leaves_Q: "leaves (\<lambda>_. True) k j f \<Longrightarrow> leaves Q k j f"
  by (simp add: leaves_def)



section \<open>The load test\<close>















section \<open>The run of the program\<close>







section \<open>Properties\<close>



definition STACK :: u32 where "STACK = 0xBFFF0000"

definition stack_mem :: mem where
  "stack_mem = st32 (st32 (st32 (\<lambda>_. 0) (STACK + 0x24) 0x08048456) (STACK + 4) 0x08048123) STACK (STACK + 0x20)"




lemma stack_mem_loads [simp]:
  "ld32 stack_mem STACK = STACK + 0x20" "ld32 stack_mem (STACK + 0x24) = 0x08048456"
  by (simp_all add: stack_mem_def ld32_st32_apart apart_def)

lemma stack_mem_load [simp]: "ld32 stack_mem (36 + STACK) = 0x08048456"
  by (subst add.commute) (rule stack_mem_loads(2))




end
