(* ===== verification/Trx_Threads.thy ===== *)
theory Trx_Threads imports Trx_Test "HOL-Library.Multiset"
begin

text \<open>
  The tracker under several threads, while it tracks. \<^verbatim>\<open>tp_alloc\<close> and \<^verbatim>\<open>free\<close> of \<^verbatim>\<open>trxlib.c\<close> are cut
  where they take and release the lock of the library (\<^verbatim>\<open>LOCK\<close>, \<^verbatim>\<open>UNLOCK\<close>): a call is a sequence of
  the pieces below, and the pieces of different threads interleave in any order the lock admits.
  Every thread has its own stack, so the frame address of a piece is arbitrary. The pieces run back
  to back are the calls of the other theories; whatever their order, the heap invariant is kept, the
  lock excludes, no check raises a false alarm, and every call can finish.
\<close>

section \<open>The pieces of the calls\<close>

text \<open>\<^verbatim>\<open>tp_alloc\<close> up to the header: the request to the real allocator and the place of the buffer.\<close>

definition alloc_reserve :: "u32 \<Rightarrow> u32 \<Rightarrow> lib \<Rightarrow> u32 \<times> u32 \<times> lib" where
  "alloc_reserve size0 alignment0 s =
     (let overhead = tp_overhead s;
          alignment = (if alignment0 = 0 then 4 else alignment0)
      in case real_alloc (RMalloc (tp_size alignment overhead (trxAlign size0))) s of
           (p, s1) \<Rightarrow> (p, tp_ph p overhead alignment, s1))"

text \<open>
  The header and trailer. \<^verbatim>\<open>tp_alloc\<close> reads \<^verbatim>\<open>tracking\<close> here a second time, after the reservation has read
  it for the overhead; without tracking the allocation ends with this piece, and takes no lock.
\<close>

definition alloc_header :: "u32 \<Rightarrow> u32 \<Rightarrow> u32 \<Rightarrow> bool \<Rightarrow> lib \<Rightarrow> lib" where
  "alloc_header p ph sz zero s =
     (if tracking s \<noteq> 0 then s\<lparr>memory := write_tracked s p ph sz zero\<rparr>
      else s\<lparr>memory := write_untracked s p ph sz zero, curalloc := curalloc s + sz\<rparr>)"

text \<open>Under the lock: the block enters the list of the tag its header names.\<close>

definition alloc_link :: "u32 \<Rightarrow> u32 \<Rightarrow> lib \<Rightarrow> fault + lib" where
  "alloc_link ph sz s =
     (let tp = ph - TRXBLK; m = memory s; tag = ld32 m (tp + o_tag) in
      if unat tag \<ge> MAXTAGS then Inl OutOfBounds
      else
        (let m1 = LIST_INSERT_HEAD m (alist_list (alist_at s) tag) tp 0;
             m2 = add32 m1 (alist_total (alist_at s) tag) sz
         in Inr (s\<lparr>memory := m2, curalloc := curalloc s + sz\<rparr>)))"

text \<open>\<^verbatim>\<open>free\<close>: the check, the unlinking under the lock, and the rest.\<close>

definition free_check :: "u32 \<Rightarrow> lib \<Rightarrow> fault + unit" where
  "free_check ptr s = verify s (memory s) ptr"

definition free_unlist :: "u32 \<Rightarrow> lib \<Rightarrow> fault + lib" where
  "free_unlist ptr s =
     (let m = memory s; tp = ptr - TRXBLK; tag = ld32 m (tp + o_tag); sz = ld32 m (pw_size ptr) in
      bindE (verify_neighbours s m tp) (\<lambda>_.
        if unat tag \<ge> MAXTAGS then Inl OutOfBounds
        else Inr (s\<lparr>memory := LIST_REMOVE (add32 m (alist_total (alist_at s) tag) (- sz)) tp 0,
                    curalloc := curalloc s - sz\<rparr>)))"

definition free_release :: "u32 \<Rightarrow> lib \<Rightarrow> lib" where
  "free_release ptr s =
     (let m = memory s; tp = ptr - TRXBLK;
          (n, fr) = tp_gettrace m (frame s) (ld_words m (tp + o_freers) MAXFREERS) MAXFREERS;
          m1 = st_words m (tp + o_freers) fr;
          m2 = st32 m1 (pw_magic ptr) (ld32 m1 (pw_magic ptr) OR 1);
          m3 = (if poison s \<noteq> 0
                then poison_loop m2 ptr (ptr + ld32 m2 (pw_size ptr)) (free_pattern n fr) else m2)
      in real_free (ptr - ld32 m3 (pw_offset ptr)) (s\<lparr>memory := m3\<rparr>))"

section \<open>The pieces back to back\<close>

lemma header_tag:
  assumes "unat sz \<le> 4294967000"
  shows "ld32 (write_tracked s p ph sz zero) (ph - TRXBLK + o_tag) = alloctag s"
  using write_tracked_cells [OF assms refl, of s p "ph - TRXBLK" zero] by simp

lemma alloc_pieces:
  assumes "initted s \<noteq> 0" and "unat (trxAlign n) \<le> 4294967000"
  shows "tp_alloc n zero al0 s = (case alloc_reserve n al0 s of (p, ph, s1) \<Rightarrow>
    if p = 0 then Inr (0, s1)
    else let s2 = alloc_header p ph (trxAlign n) zero s1 in
      if tracking s1 \<noteq> 0 then bindE (alloc_link ph (trxAlign n) s2) (\<lambda>t. Inr (ph, t)) else Inr (ph, s2))"
proof -
  obtain p s1 where r: "real_alloc (RMalloc (tp_size (if al0 = 0 then 4 else al0) (tp_overhead s) (trxAlign n))) s = (p, s1)"
    by fastforce
  have t: "tracking s1 = tracking s" using r by (auto simp: real_alloc_def split: list.splits)
  show ?thesis
    using assms(1) r t header_tag [OF assms(2), of s1 p _ zero]
    by (simp add: tp_alloc_def alloc_reserve_def alloc_link_def alloc_header_def Let_def)
qed

lemma free_pieces:
  assumes "initted s \<noteq> 0" and "enable s \<noteq> 0" and "ptr \<noteq> 0" and "ld32 (memory s) (pw_magic ptr) = MAGIC2"
  shows "trx_free ptr s =
    bindE (free_check ptr s) (\<lambda>_. bindE (free_unlist ptr s) (\<lambda>t. Inr (free_release ptr t)))"
proof -
  have swap: "t\<lparr>curalloc := c, memory := m\<rparr> = t\<lparr>memory := m, curalloc := c\<rparr>" for t :: lib and c m
    by simp
  have "bindE (free_unlink ptr s) (\<lambda>(m1, cur, pat).
      let m2 = st32 m1 (pw_magic ptr) (ld32 m1 (pw_magic ptr) OR 1);
          m3 = (if poison s \<noteq> 0 then poison_loop m2 ptr (ptr + ld32 m2 (pw_size ptr)) pat else m2)
      in Inr (real_free (ptr - ld32 m3 (pw_offset ptr)) (s\<lparr>memory := m3, curalloc := cur\<rparr>))) =
    bindE (free_unlist ptr s) (\<lambda>t. Inr (free_release ptr t))"
    using assms(4)
    by (cases "verify_neighbours s (memory s) (ptr - TRXBLK)")
      (simp_all add: free_unlink_def free_unlist_def free_release_def Let_def swap split: prod.splits)
  with assms(1-3) show ?thesis by (simp add: trx_free_def free_check_def)
qed

section \<open>Threads\<close>

text \<open>
  Where a thread is in a call, with the block the call is about: written but not yet linked,
  waiting for the lock or holding it, linked, checked by \<^verbatim>\<open>free\<close>, unlinked, released by the lock but
  not yet handed back.
\<close>

datatype pc = Idle | Headed blk | Linking blk | Linked blk | Checked blk | Unlinking blk
  | Unlinked blk | Releasing blk

text \<open>A process: the library, the thread that holds the lock, the threads, the blocks on the lists.\<close>

record conf =
  th_lib :: lib
  th_lock :: "nat option"
  th_pcs :: "pc list"
  th_live :: "blk list"

text \<open>Blocks a thread has to itself, blocks on the lists it is working on, and who holds the lock.\<close>

fun own :: "pc \<Rightarrow> blk list" where
  "own (Headed b) = [b]"
| "own (Linking b) = [b]"
| "own (Unlinked b) = [b]"
| "own (Releasing b) = [b]"
| "own _ = []"

fun busy :: "pc \<Rightarrow> blk list" where
  "busy (Linked b) = [b]"
| "busy (Checked b) = [b]"
| "busy (Unlinking b) = [b]"
| "busy _ = []"

fun critical :: "pc \<Rightarrow> bool" where
  "critical (Linking b) = True"
| "critical (Linked b) = True"
| "critical (Unlinking b) = True"
| "critical (Unlinked b) = True"
| "critical _ = False"

text \<open>How many pieces of its call a thread has left.\<close>

fun work :: "pc \<Rightarrow> nat" where
  "work Idle = 0"
| "work (Headed b) = 3"
| "work (Linking b) = 2"
| "work (Linked b) = 1"
| "work (Checked b) = 4"
| "work (Unlinking b) = 3"
| "work (Unlinked b) = 2"
| "work (Releasing b) = 1"

definition owned :: "conf \<Rightarrow> blk list" where
  "owned c = concat (map own (th_pcs c))"

definition in_hand :: "conf \<Rightarrow> blk list" where
  "in_hand c = concat (map busy (th_pcs c))"

definition at_pc :: "nat \<Rightarrow> pc \<Rightarrow> conf \<Rightarrow> bool" where
  "at_pc i p c \<longleftrightarrow> i < length (th_pcs c) \<and> th_pcs c ! i = p"

definition go :: "nat \<Rightarrow> pc \<Rightarrow> conf \<Rightarrow> conf" where
  "go i p c = c\<lparr>th_pcs := (th_pcs c)[i := p]\<rparr>"

text \<open>
  The steps. A thread starts an allocation (with the contract of the real allocator against every
  block in use by any thread), is refused one, or starts to free a block no other thread works on;
  it takes and releases the lock; it stores into a block that is not being freed.
\<close>

inductive th_step :: "conf \<Rightarrow> conf \<Rightarrow> bool" where
  refused: "at_pc i Idle c \<Longrightarrow> alloc_reserve n al0 (th_lib c) = (0, ph, s1) \<Longrightarrow>
    th_step c (c\<lparr>th_lib := s1\<rparr>)"
| reserve: "at_pc i Idle c \<Longrightarrow> alloc_reserve n al0 (th_lib c) = (p, ph, s1) \<Longrightarrow> p \<noteq> 0 \<Longrightarrow>
    al = (if al0 = 0 then 4 else al0) \<Longrightarrow>
    good_answer (th_lib c) (th_live c @ owned c) al n \<Longrightarrow> good_request (th_lib c) al n \<Longrightarrow>
    b = \<lparr>bptr = ph, braw = p, bsize = trxAlign n, btag = Some (alloctag s1)\<rparr> \<Longrightarrow>
    th_step c (go i (Headed b) (c\<lparr>th_lib := alloc_header p ph (trxAlign n) zero (s1\<lparr>frame := fr\<rparr>)\<rparr>))"
| lock_alloc: "at_pc i (Headed b) c \<Longrightarrow> th_lock c = None \<Longrightarrow>
    th_step c (go i (Linking b) (c\<lparr>th_lock := Some i\<rparr>))"
| link: "at_pc i (Linking b) c \<Longrightarrow> alloc_link (bptr b) (bsize b) (th_lib c) = Inr s1 \<Longrightarrow>
    th_step c (go i (Linked b) (c\<lparr>th_lib := s1, th_live := b # th_live c\<rparr>))"
| unlock_alloc: "at_pc i (Linked b) c \<Longrightarrow> th_step c (go i Idle (c\<lparr>th_lock := None\<rparr>))"
| check: "at_pc i Idle c \<Longrightarrow> b \<in> set (th_live c) \<Longrightarrow> b \<notin> set (in_hand c) \<Longrightarrow>
    free_check (bptr b) (th_lib c) = Inr () \<Longrightarrow> th_step c (go i (Checked b) c)"
| lock_free: "at_pc i (Checked b) c \<Longrightarrow> th_lock c = None \<Longrightarrow>
    th_step c (go i (Unlinking b) (c\<lparr>th_lock := Some i\<rparr>))"
| unlink: "at_pc i (Unlinking b) c \<Longrightarrow> free_unlist (bptr b) (th_lib c) = Inr s1 \<Longrightarrow>
    th_step c (go i (Unlinked b) (c\<lparr>th_lib := s1, th_live := remove1 b (th_live c)\<rparr>))"
| unlock_free: "at_pc i (Unlinked b) c \<Longrightarrow> th_step c (go i (Releasing b) (c\<lparr>th_lock := None\<rparr>))"
| release: "at_pc i (Releasing b) c \<Longrightarrow>
    th_step c (go i Idle (c\<lparr>th_lib := free_release (bptr b) ((th_lib c)\<lparr>frame := fr\<rparr>)\<rparr>))"
| store: "b \<in> set (th_live c) \<Longrightarrow> b \<notin> set (in_hand c) \<Longrightarrow>
    touches (memory (th_lib c)) m (bptr b) (unat (bsize b)) \<Longrightarrow>
    th_step c (c\<lparr>th_lib := (th_lib c)\<lparr>memory := m\<rparr>\<rparr>)"

inductive_cases th_stepE: "th_step c c'"

section \<open>The invariant\<close>

definition th_heap :: "lib \<Rightarrow> blk list \<Rightarrow> blk list \<Rightarrow> bool" where
  "th_heap s B M \<longleftrightarrow> initted s \<noteq> 0 \<and> enable s \<noteq> 0 \<and> tracking s \<noteq> 0 \<and> unat (alloctag s) < MAXTAGS \<and>
     layout_ok (alist_at s) (B @ M) \<and> mem_ok (alist_at s) (memory s) B \<and>
     (\<forall>b\<in>set M. blk_ok (memory s) b) \<and> (\<forall>b\<in>set (B @ M). btag b \<noteq> None) \<and>
     curalloc s = sum_list (map bsize B)"

definition th_lock_ok :: "nat option \<Rightarrow> pc list \<Rightarrow> bool" where
  "th_lock_ok l ps \<longleftrightarrow> (\<forall>i. l = Some i \<longleftrightarrow> i < length ps \<and> critical (ps ! i))"

definition th_inv :: "conf \<Rightarrow> bool" where
  "th_inv c \<longleftrightarrow> th_heap (th_lib c) (th_live c) (owned c) \<and> th_lock_ok (th_lock c) (th_pcs c) \<and>
     set (in_hand c) \<subseteq> set (th_live c) \<and> distinct (in_hand c)"

lemma layout_ok_mset:
  assumes "mset A = mset C"
  shows "layout_ok at A = layout_ok at C"
  using mset_eq_setD [OF assms] mset_eq_imp_distinct_iff [OF assms] by (simp add: layout_ok_def)

lemma th_heap_mset:
  assumes "th_heap s B M" and m: "mset M' = mset M"
  shows "th_heap s B M'"
proof -
  have "set M' = set M" using m by (metis set_mset_mset)
  with assms layout_ok_mset [of "append B M'" "append B M"] show ?thesis by (simp add: th_heap_def)
qed

text \<open>The effect of the pieces on the heap.\<close>

lemma th_heap_same:
  assumes "th_heap s B M" and "initted s' = initted s" "enable s' = enable s" "tracking s' = tracking s"
    "alloctag s' = alloctag s" "alist_at s' = alist_at s" "memory s' = memory s" "curalloc s' = curalloc s"
  shows "th_heap s' B M"
  using assms by (simp add: th_heap_def)

lemma touches_blk_ok:
  assumes "touches m m' p n" and "apart p n (blk_base b) (blk_len b)" and "blk_valid at b" and "0 < n"
    and "blk_ok m b"
  shows "blk_ok m' b"
proof -
  have "within p n p n" by (simp add: within_def)
  then have "apart p n c 4" if "c \<in> set (ok_cells b)" for c
    by (rule apart_within [OF assms(2) _ blk_cell_within [OF assms(3)]])
      (use that assms(4) in \<open>auto simp: blk_cells_def\<close>)
  then have "\<forall>c\<in>set (ok_cells b). ld32 m' c = ld32 m c" using touches_ld32 [OF assms(1)] by blast
  from blk_ok_cong [OF this] assms(5) show ?thesis by simp
qed

text \<open>A store into one block, its header and trailer included, is invisible to the others.\<close>

lemma th_heap_store:
  assumes h: "th_heap s B M" and l: "layout_ok (alist_at s) (b # B @ M)"
    and t: "touches (memory s) m (blk_base b) (blk_len b)"
  shows "th_heap (s\<lparr>memory := m\<rparr>) B M"
proof -
  have ap: "apart (blk_base b) (blk_len b) (blk_base c) (blk_len c)" "blk_valid (alist_at s) c"
    if "c \<in> set (B @ M)" for c
    using layout_okD [OF l] that l by (auto simp: layout_ok_def)
  have "apart (blk_base b) (blk_len b) (alist_at s) ALIST_BYTES"
    using layout_okD(4) [OF l, of b] by (simp add: apart_commute)
  moreover have "layout_ok (alist_at s) B"
    by (rule layout_ok_subset [OF l]) (use l in \<open>auto simp: layout_ok_def\<close>)
  ultimately have "mem_ok (alist_at s) m B = mem_ok (alist_at s) (memory s) B"
    using mem_ok_touches [OF _ t] ap by simp
  moreover have "\<forall>c\<in>set M. blk_ok m c"
  proof
    fix c assume c: "c \<in> set M"
    with h have "blk_ok (memory s) c" by (simp add: th_heap_def)
    with touches_blk_ok [OF t ap] c show "blk_ok m c" by simp
  qed
  ultimately show ?thesis using h by (simp add: th_heap_def)
qed

lemma good_answer_set:
  assumes "good_answer s A al n" and "set A' = set A"
  shows "good_answer s A' al n"
  using assms by (simp add: good_answer_def fresh_def split: list.splits)

lemma th_heap_reserve:
  assumes h: "th_heap s B M" and r: "alloc_reserve n al0 s = (p, ph, s1)" "p \<noteq> 0"
    and al: "al = (if al0 = 0 then 4 else al0)"
    and g: "good_answer s (B @ M) al n" "good_request s al n"
  shows "th_heap (alloc_header p ph (trxAlign n) zero (s1\<lparr>frame := fr\<rparr>)) B
    (\<lparr>bptr = ph, braw = p, bsize = trxAlign n, btag = Some (alloctag s1)\<rparr> # M)"
proof -
  let ?b = "new_blk s al n p" and ?at = "alist_at s"
  obtain ps where a: "answers s = p # ps" and s1: "s1 = s\<lparr>calls := calls s @ [RMalloc (raw_size s al n)], answers := ps\<rparr>"
    and ph: "ph = tp_ph p (tp_overhead s) al"
    using r al by (cases "answers s") (auto simp: alloc_reserve_def real_alloc_def raw_size_def Let_def)
  have tr: "tracking s \<noteq> 0" "unat (alloctag s) < MAXTAGS" and l0: "layout_ok ?at (B @ M)"
    using h by (simp_all add: th_heap_def)
  have b: "\<lparr>bptr = ph, braw = p, bsize = trxAlign n, btag = Some (alloctag s1)\<rparr> = ?b"
    using tr by (simp add: new_blk_def ph s1)
  have f: "fresh s (B @ M) p (unat (raw_size s al n))" and rq: "small_request al n"
    using g a r(2) by (simp_all add: good_answer_def good_request_def)
  have l: "layout_ok ?at (?b # B @ M)" by (rule new_blk_layout [OF l0 rq f tr(2)])
  let ?s = "s\<lparr>frame := fr\<rparr>"
  have nb: "new_blk ?s al n p = ?b" by (simp add: new_blk_def tp_overhead_def)
  let ?m = "new_header ?s al n p zero"
  have w: "alloc_header p ph (trxAlign n) zero (s1\<lparr>frame := fr\<rparr>) = s1\<lparr>frame := fr, memory := ?m\<rparr>"
    using tr by (simp add: alloc_header_def new_header_def write_tracked_def s1 ph tp_overhead_def Let_def)
  have bo: "blk_ok ?m ?b" and t: "touches (memory s) ?m (blk_base ?b) (blk_len ?b)"
    using new_header_ok [where s = ?s and zero = zero and p = p, OF rq] tr nb by simp_all
  have "layout_ok ?at (B @ ?b # M)"
    using l layout_ok_mset [of "append B (?b # M)" "?b # append B M"] by simp
  moreover have "btag ?b \<noteq> None" using tr by (simp add: new_blk_def)
  moreover note th_heap_store [OF h l t]
  ultimately have "th_heap (s\<lparr>memory := ?m\<rparr>) B (?b # M)" using bo by (simp add: th_heap_def)
  then show ?thesis unfolding b w by (rule th_heap_same) (simp_all add: s1)
qed

lemma tag_frame_mono:
  assumes "tag_frame at m m' t L" and "set L \<subseteq> set A"
  shows "tag_frame at m m' t A"
proof -
  have "set (tagged t L) \<subseteq> set (tagged t A)" using assms(2) by (auto simp: tagged_def)
  with assms(1) show ?thesis unfolding tag_frame_def by blast
qed

lemma tag_frame_blk_ok:
  assumes "tag_frame at m m' t L" and "set L \<subseteq> set A" and "layout_ok at A" and "unat t < MAXTAGS"
    and "c \<in> set A" and "blk_ok m c"
  shows "blk_ok m' c"
  using blk_ok_cong [of c m' m] tag_frame_blocks(1) [OF tag_frame_mono [OF assms(1,2)] assms(3-5)] assms(6)
  by auto

lemma th_heap_tag:
  assumes "th_heap s B M" and "b \<in> set (B @ M)"
  obtains t where "btag b = Some t" "unat t < MAXTAGS" "blk_tp b \<noteq> 0" "blk_ok (memory s) b"
    "blk_valid (alist_at s) b"
proof -
  from assms obtain t where t: "btag b = Some t" by (auto simp: th_heap_def)
  moreover from assms have "blk_valid (alist_at s) b" by (auto simp: th_heap_def layout_ok_def)
  moreover from assms have "blk_ok (memory s) b" by (auto simp: th_heap_def mem_ok_def)
  ultimately show thesis using that by (simp add: blk_valid_def)
qed

lemma th_heap_link:
  assumes h: "th_heap s B (b # M)"
  shows "\<exists>s1. alloc_link (bptr b) (bsize b) s = Inr s1 \<and> th_heap s1 (b # B) M"
proof -
  let ?at = "alist_at s"
  obtain t where t: "btag b = Some t" "unat t < MAXTAGS" "blk_tp b \<noteq> 0" "blk_ok (memory s) b"
    by (rule th_heap_tag [OF h, of b]) simp_all
  let ?m = "add32 (LIST_INSERT_HEAD (memory s) (alist_list ?at t) (blk_tp b) 0) (alist_total ?at t) (bsize b)"
  have la: "layout_ok ?at (b # B @ M)"
    using h layout_ok_mset [of "append B (b # M)" "b # append B M"] by (simp add: th_heap_def)
  have l: "layout_ok ?at (b # B)"
    by (rule layout_ok_subset [OF la]) (use la in \<open>auto simp: layout_ok_def\<close>)
  have mo: "mem_ok ?at (memory s) B" using h by (simp add: th_heap_def)
  note k = link_block [OF l mo t(4,1,2,3)]
  have "blk_ok ?m c" if "c \<in> set M" for c
    by (rule tag_frame_blk_ok [OF k(2) _ la t(2)]) (use that h in \<open>auto simp: th_heap_def\<close>)
  moreover have "ld32 (memory s) (blk_tp b + o_tag) = t" using t(1,4) by (simp add: blk_ok_def)
  ultimately show ?thesis
    using h k(1) la t(2) by (simp add: alloc_link_def blk_tp_def [symmetric] th_heap_def add.commute)
qed

lemma th_heap_unlink:
  assumes h: "th_heap s B M" and b: "b \<in> set B"
  shows "\<exists>s1. free_unlist (bptr b) s = Inr s1 \<and> th_heap s1 (remove1 b B) (b # M)"
proof -
  let ?at = "alist_at s"
  obtain t where t: "btag b = Some t" "unat t < MAXTAGS" "blk_ok (memory s) b"
    by (rule th_heap_tag [OF h, of b]) (use b in simp_all)
  let ?m = "LIST_REMOVE (add32 (memory s) (alist_total ?at t) (- bsize b)) (blk_tp b) 0"
  have la: "layout_ok ?at (B @ M)" and mo: "mem_ok ?at (memory s) B" using h by (simp_all add: th_heap_def)
  have l: "layout_ok ?at B" by (rule layout_ok_subset [OF la]) (use la in \<open>auto simp: layout_ok_def\<close>)
  note k = unlink_block [OF l mo b t(1,2)]
  have "blk_ok ?m c" if "c \<in> set (b # M)" for c
    by (rule tag_frame_blk_ok [OF k(2) _ la t(2)]) (use that h b t(3) in \<open>auto simp: th_heap_def\<close>)
  moreover have "layout_ok ?at (remove1 b B @ b # M)"
    using la b layout_ok_mset [of "append (remove1 b B) (b # M)" "append B M"] by simp
  moreover have "ld32 (memory s) (blk_tp b + o_tag) = t" "ld32 (memory s) (pw_size (bptr b)) = bsize b"
    using t(1,3) by (simp_all add: blk_ok_def)
  moreover have "\<forall>c\<in>set (remove1 b B). btag c \<noteq> None"
    using h set_remove1_subset [of b B] by (auto simp: th_heap_def)
  ultimately show ?thesis
    using h k(1) t(2) b verify_neighbours_ok [OF mo b t(1,2)] sum_list_map_remove1_word [OF b]
    by (auto simp: free_unlist_def blk_tp_def [symmetric] th_heap_def Let_def)
qed

text \<open>What a release writes stays inside the block.\<close>

lemma free_release_touches:
  assumes bo: "blk_ok (memory s) b" and v: "blk_valid at b" and tg: "btag b \<noteq> None"
  obtains m where "free_release (bptr b) s = real_free (braw b) (s\<lparr>memory := m\<rparr>)"
    and "touches (memory s) m (blk_base b) (blk_len b)"
proof -
  let ?m = "memory s" and ?f = "blk_tp b + o_freers"
  obtain n fr where tr: "tp_gettrace ?m (frame s) (ld_words ?m ?f MAXFREERS) MAXFREERS = (n, fr)" by fastforce
  have fl: "length fr = MAXFREERS" using tp_gettrace_bounds [OF tr] by simp
  define m1 where "m1 = st_words ?m ?f fr"
  define m2 where "m2 = st32 m1 (pw_magic (bptr b)) (ld32 m1 (pw_magic (bptr b)) OR 1)"
  define m3 where "m3 = (if poison s \<noteq> 0
    then poison_loop m2 (bptr b) (bptr b + ld32 m2 (pw_size (bptr b))) (free_pattern n fr) else m2)"
  have t1: "touches ?m m1 ?f 16"
    using touches_write [of ?m ?f "concat (map bytes32 fr)"] fl by (simp add: m1_def st_words_def MAXFREERS_def)
  have "\<forall>c\<in>set (ok_cells b). ld32 m1 c = ld32 ?m c"
    using touches_ld32 [OF t1 freers_apart [OF v tg]] by simp
  from blk_ok_cong [OF this] bo have b1: "blk_ok m1 b" by simp
  then have w2: "ld32 m2 (pw_size (bptr b)) = bsize b" "ld32 m2 (pw_offset (bptr b)) = bptr b - braw b"
    by (simp_all add: m2_def blk_ok_def ld32_st32_apart apart_def pw_magic_def pw_size_def pw_offset_def)
  have p3: "touches m2 m3 (bptr b) (unat (bsize b))"
    using poison_loop_touches [of m2 "bptr b" "bptr b + bsize b" "free_pattern n fr"] by (simp add: m3_def w2)
  have w3: "ld32 m3 (pw_offset (bptr b)) = bptr b - braw b"
    using w2 touches_ld32 [OF p3] in_block_apart [OF v] by simp
  have "free_release (bptr b) s = real_free (braw b) (s\<lparr>memory := m3\<rparr>)"
    using tr w3 by (simp add: free_release_def blk_tp_def [symmetric] m1_def [symmetric] m2_def [symmetric]
        m3_def [symmetric])
  moreover have "touches ?m m3 (blk_base b) (blk_len b)"
    using touches_within [OF t1 in_block_apart(6) [OF v tg]]
      touches_within [OF touches_st32 in_block_apart(5) [OF v], of m1 "ld32 m1 (pw_magic (bptr b)) OR 1"]
      touches_within [OF p3 in_block_apart(4) [OF v]]
    unfolding m2_def [symmetric] by (meson touches_trans)
  ultimately show thesis by (rule that)
qed

lemma th_heap_release:
  assumes h: "th_heap s B (b # M)"
  shows "th_heap (free_release (bptr b) (s\<lparr>frame := fr\<rparr>)) B M"
proof -
  obtain t where t: "btag b = Some t" "blk_ok (memory s) b" "blk_valid (alist_at s) b"
    by (rule th_heap_tag [OF h, of b]) simp_all
  obtain m where m: "free_release (bptr b) (s\<lparr>frame := fr\<rparr>) = real_free (braw b) (s\<lparr>frame := fr, memory := m\<rparr>)"
    "touches (memory s) m (blk_base b) (blk_len b)"
    by (rule free_release_touches [of "s\<lparr>frame := fr\<rparr>" b "alist_at s"]) (use t in simp_all)
  have la: "layout_ok (alist_at s) (b # B @ M)"
    using h layout_ok_mset [of "append B (b # M)" "b # append B M"] by (simp add: th_heap_def)
  then have "layout_ok (alist_at s) (B @ M)"
    by (rule layout_ok_subset) (use la in \<open>auto simp: layout_ok_def\<close>)
  with h have "th_heap s B M" by (simp add: th_heap_def)
  from th_heap_store [OF this la m(2)] show ?thesis
    unfolding m(1) by (rule th_heap_same) (simp_all add: real_free_def)
qed

lemma th_heap_write:
  assumes h: "th_heap s B M" and b: "b \<in> set B" and t: "touches (memory s) m (bptr b) (unat (bsize b))"
  shows "th_heap (s\<lparr>memory := m\<rparr>) B M"
proof -
  have la: "layout_ok (alist_at s) (B @ M)" and mo: "mem_ok (alist_at s) (memory s) B"
    using h by (simp_all add: th_heap_def)
  have l: "layout_ok (alist_at s) B" by (rule layout_ok_subset [OF la]) (use la in \<open>auto simp: layout_ok_def\<close>)
  have v: "blk_valid (alist_at s) b" using layout_okD(2) [OF l b] .
  have tb: "touches (memory s) m (blk_base b) (blk_len b)" by (rule touches_within [OF t in_block_apart(4) [OF v]])
  have "blk_ok m c" if "c \<in> set M" for c
  proof -
    have "c \<noteq> b" using la b that by (auto simp: layout_ok_def)
    with la b that have "apart (blk_base b) (blk_len b) (blk_base c) (blk_len c)" "blk_valid (alist_at s) c"
      by (auto simp: layout_ok_def)
    then show ?thesis using touches_blk_ok [OF tb] that h by (simp add: th_heap_def blk_len_def)
  qed
  with h user_write_ok [OF mo l b t] show ?thesis by (simp add: th_heap_def)
qed

section \<open>The steps keep the invariant\<close>

lemma go_simps [simp]:
  "th_lib (go i q c) = th_lib c" "th_lock (go i q c) = th_lock c" "th_live (go i q c) = th_live c"
  "th_pcs (go i q c) = (th_pcs c)[i := q]"
  by (simp_all add: go_def)

lemma owned_cong: "th_pcs c' = th_pcs c \<Longrightarrow> owned c' = owned c" "th_pcs c' = th_pcs c \<Longrightarrow> in_hand c' = in_hand c"
  by (simp_all add: owned_def in_hand_def)

lemma at_pcE:
  assumes "at_pc i p c"
  obtains xs ys where "th_pcs c = xs @ p # ys" "i = length xs"
  using assms id_take_nth_drop [of i "th_pcs c"] that [of "take i (th_pcs c)" "drop (Suc i) (th_pcs c)"]
  by (simp add: at_pc_def)

lemma go_owned:
  assumes "at_pc i p c"
  shows "\<exists>M. mset (owned c) = mset (own p @ M) \<and> mset (owned (go i q c)) = mset (own q @ M)"
    and "\<exists>H. mset (in_hand c) = mset (busy p @ H) \<and> mset (in_hand (go i q c)) = mset (busy q @ H)"
proof -
  obtain xs ys where c: "th_pcs c = xs @ p # ys" "i = length xs" using assms by (rule at_pcE)
  show "\<exists>M. mset (owned c) = mset (own p @ M) \<and> mset (owned (go i q c)) = mset (own q @ M)"
    by (rule exI [of _ "concat (map own xs) @ concat (map own ys)"]) (simp add: owned_def c go_def)
  show "\<exists>H. mset (in_hand c) = mset (busy p @ H) \<and> mset (in_hand (go i q c)) = mset (busy q @ H)"
    by (rule exI [of _ "concat (map busy xs) @ concat (map busy ys)"]) (simp add: in_hand_def c go_def)
qed

lemma th_inv_go:
  assumes i: "th_inv c" and p: "at_pc i p c" and c': "th_pcs c' = th_pcs c"
    and heap: "\<And>M. th_heap (th_lib c) (th_live c) (own p @ M) \<Longrightarrow> mset (owned c) = mset (own p @ M) \<Longrightarrow>
      th_heap (th_lib c') (th_live c') (own q @ M)"
    and lck: "th_lock_ok (th_lock c') ((th_pcs c)[i := q])"
    and hand: "\<And>H. set (busy p @ H) \<subseteq> set (th_live c) \<Longrightarrow> distinct (busy p @ H) \<Longrightarrow>
      (\<forall>b\<in>set H. b \<in> set (in_hand c)) \<Longrightarrow>
      set (busy q @ H) \<subseteq> set (th_live c') \<and> distinct (busy q @ H)"
  shows "th_inv (go i q c')"
proof -
  have p': "at_pc i p c'" using p c' by (simp add: at_pc_def)
  obtain M where M: "mset (owned c) = mset (own p @ M)" "mset (owned (go i q c')) = mset (own q @ M)"
    using go_owned(1) [OF p', of q] owned_cong(1) [OF c'] by metis
  obtain H where H: "mset (in_hand c) = mset (busy p @ H)" "mset (in_hand (go i q c')) = mset (busy q @ H)"
    using go_owned(2) [OF p', of q] owned_cong(2) [OF c'] by metis
  have "th_heap (th_lib c) (th_live c) (own p @ M)"
    using i th_heap_mset [of _ _ "owned c" "own p @ M"] M(1) by (simp add: th_inv_def)
  from th_heap_mset [OF heap [OF this M(1)] M(2)]
  have "th_heap (th_lib c') (th_live c') (owned (go i q c'))" .
  moreover have "set (in_hand c) = set (busy p @ H)" "distinct (in_hand c) = distinct (busy p @ H)"
    using mset_eq_setD [OF H(1)] mset_eq_imp_distinct_iff [OF H(1)] by simp_all
  moreover from this i hand [of H] have "set (busy q @ H) \<subseteq> set (th_live c') \<and> distinct (busy q @ H)"
    by (auto simp: th_inv_def)
  moreover have "set (in_hand (go i q c')) = set (busy q @ H)"
    "distinct (in_hand (go i q c')) = distinct (busy q @ H)"
    using mset_eq_setD [OF H(2)] mset_eq_imp_distinct_iff [OF H(2)] by simp_all
  ultimately show ?thesis using lck c' by (simp add: th_inv_def)
qed

lemma lock_update:
  "(j < length (ps[i := q]) \<and> critical (ps[i := q] ! j)) =
   (j < length ps \<and> (if j = i then critical q else critical (ps ! j)))"
  by (cases "j = i"; cases "j < length ps") (simp_all add: nth_list_update)

lemma lock_keep:
  assumes "th_lock_ok l ps" and "critical q = critical (ps ! i)"
  shows "th_lock_ok l (ps[i := q])"
proof -
  have "(j < length (ps[i := q]) \<and> critical (ps[i := q] ! j)) = (j < length ps \<and> critical (ps ! j))" for j
    unfolding lock_update using assms(2) by simp
  with assms(1) show ?thesis unfolding th_lock_ok_def by presburger
qed

lemma lock_take:
  assumes "th_lock_ok None ps" and "i < length ps" and "critical q"
  shows "th_lock_ok (Some i) (ps[i := q])"
  unfolding th_lock_ok_def lock_update using assms by (simp add: th_lock_ok_def)

lemma lock_drop:
  assumes "th_lock_ok l ps" and "i < length ps" and "critical (ps ! i)" and "\<not> critical q"
  shows "th_lock_ok None (ps[i := q])"
proof -
  have "l = Some i" using assms(1-3) unfolding th_lock_ok_def by blast
  then have "\<not> critical (ps ! j)" if "j < length ps" "j \<noteq> i" for j
    using assms(1) that unfolding th_lock_ok_def by (metis option.inject)
  with assms(4) show ?thesis unfolding th_lock_ok_def lock_update by simp
qed

text \<open>One lemma for each kind of step.\<close>

lemma th_lock_free:
  assumes "th_inv c" and "th_lock c = None"
  shows "th_lock_ok None (th_pcs c)"
  using assms by (simp add: th_inv_def)

lemma step_take:
  assumes i: "th_inv c" and p: "at_pc i p c" and l: "th_lock c = None" and q: "critical q"
    and same: "own q = own p" "busy q = busy p"
  shows "th_inv (go i q (c\<lparr>th_lock := Some i\<rparr>))"
  by (rule th_inv_go [OF i p])
    (use lock_take [OF th_lock_free [OF i l] _ q] p q in \<open>simp_all add: same at_pc_def\<close>)

lemma step_drop:
  assumes i: "th_inv c" and p: "at_pc i p c" and q: "critical p" "\<not> critical q"
    and same: "own q = own p" "set (busy q) \<subseteq> set (busy p)" "distinct (busy q)"
  shows "th_inv (go i q (c\<lparr>th_lock := None\<rparr>))"
  by (rule th_inv_go [OF i p])
    (use i p q lock_drop [of "th_lock c" "th_pcs c" i q] same in \<open>auto simp: at_pc_def th_inv_def\<close>)

lemma step_keep:
  assumes i: "th_inv c" and p: "at_pc i p c" and q: "critical q = critical p"
    and heap: "\<And>M. th_heap (th_lib c) (th_live c) (own p @ M) \<Longrightarrow> mset (owned c) = mset (own p @ M) \<Longrightarrow>
      th_heap s (th_live c) (own q @ M)"
    and same: "busy q = busy p"
  shows "th_inv (go i q (c\<lparr>th_lib := s\<rparr>))"
  by (rule th_inv_go [OF i p])
    (use i p q heap lock_keep [of "th_lock c" "th_pcs c" q i] same in \<open>simp_all add: at_pc_def th_inv_def\<close>)

lemma step_link:
  assumes i: "th_inv c" and p: "at_pc i (Linking b) c" and r: "alloc_link (bptr b) (bsize b) (th_lib c) = Inr s1"
  shows "th_inv (go i (Linked b) (c\<lparr>th_lib := s1, th_live := b # th_live c\<rparr>))"
proof (rule th_inv_go [OF i p])
  fix M assume "th_heap (th_lib c) (th_live c) (own (Linking b) @ M)"
  with th_heap_link [of "th_lib c" "th_live c" b M] r
  show "th_heap (th_lib (c\<lparr>th_lib := s1, th_live := b # th_live c\<rparr>))
      (th_live (c\<lparr>th_lib := s1, th_live := b # th_live c\<rparr>)) (own (Linked b) @ M)" by simp
next
  show "th_lock_ok (th_lock (c\<lparr>th_lib := s1, th_live := b # th_live c\<rparr>)) ((th_pcs c)[i := Linked b])"
    using i p lock_keep [of "th_lock c" "th_pcs c" "Linked b" i] by (simp add: at_pc_def th_inv_def)
next
  have "b \<in> set (owned c)" using p by (force simp: at_pc_def owned_def in_set_conv_nth)
  then have "b \<notin> set (th_live c)" using i by (auto simp: th_inv_def th_heap_def layout_ok_def)
  then show "set (busy (Linked b) @ H) \<subseteq> set (th_live (c\<lparr>th_lib := s1, th_live := b # th_live c\<rparr>)) \<and>
      distinct (busy (Linked b) @ H)"
    if "set (busy (Linking b) @ H) \<subseteq> set (th_live c)" "distinct (busy (Linking b) @ H)" for H
    using that by auto
qed simp

lemma step_unlink:
  assumes i: "th_inv c" and p: "at_pc i (Unlinking b) c" and r: "free_unlist (bptr b) (th_lib c) = Inr s1"
  shows "th_inv (go i (Unlinked b) (c\<lparr>th_lib := s1, th_live := remove1 b (th_live c)\<rparr>))"
proof (rule th_inv_go [OF i p])
  have "b \<in> set (in_hand c)" using p by (force simp: at_pc_def in_hand_def in_set_conv_nth)
  then have b: "b \<in> set (th_live c)" using i by (auto simp: th_inv_def)
  fix M assume "th_heap (th_lib c) (th_live c) (own (Unlinking b) @ M)"
  with th_heap_unlink [of "th_lib c" "th_live c" M b] b r
  show "th_heap (th_lib (c\<lparr>th_lib := s1, th_live := remove1 b (th_live c)\<rparr>))
      (th_live (c\<lparr>th_lib := s1, th_live := remove1 b (th_live c)\<rparr>)) (own (Unlinked b) @ M)" by simp
next
  show "th_lock_ok (th_lock (c\<lparr>th_lib := s1, th_live := remove1 b (th_live c)\<rparr>)) ((th_pcs c)[i := Unlinked b])"
    using i p lock_keep [of "th_lock c" "th_pcs c" "Unlinked b" i] by (simp add: at_pc_def th_inv_def)
next
  show "set (busy (Unlinked b) @ H) \<subseteq> set (th_live (c\<lparr>th_lib := s1, th_live := remove1 b (th_live c)\<rparr>)) \<and>
      distinct (busy (Unlinked b) @ H)"
    if "set (busy (Unlinking b) @ H) \<subseteq> set (th_live c)" "distinct (busy (Unlinking b) @ H)" for H
    using that by (auto intro!: iffD2 [OF in_set_remove1])
qed simp

lemma step_check:
  assumes i: "th_inv c" and p: "at_pc i Idle c" and b: "b \<in> set (th_live c)" "b \<notin> set (in_hand c)"
  shows "th_inv (go i (Checked b) c)"
  by (rule th_inv_go [OF i p])
    (use i p b lock_keep [of "th_lock c" "th_pcs c" "Checked b" i] in \<open>auto simp: at_pc_def th_inv_def\<close>)

lemma th_inv_step:
  assumes i: "th_inv c" and s: "th_step c c'"
  shows "th_inv c'"
  using s
proof cases
  case (refused j n al0 ph s1)
  have "th_heap s1 (th_live c) (owned c)"
    by (rule th_heap_same [of "th_lib c"])
      (use i refused(3) in \<open>auto simp: th_inv_def alloc_reserve_def real_alloc_def Let_def split: list.splits\<close>)
  with i show ?thesis unfolding refused(1) by (simp add: th_inv_def owned_def in_hand_def)
next
  case (reserve j n al0 p ph s1 al b zero fr)
  have "th_heap (alloc_header p ph (trxAlign n) zero (s1\<lparr>frame := fr\<rparr>)) (th_live c) (own (Headed b) @ M)"
    if "th_heap (th_lib c) (th_live c) (own Idle @ M)" "mset (owned c) = mset (own Idle @ M)" for M
  proof -
    have "good_answer (th_lib c) (th_live c @ M) al n"
      by (rule good_answer_set [OF reserve(6)]) (use mset_eq_setD [OF that(2)] in simp)
    from th_heap_reserve [OF _ reserve(3,4,5) this reserve(7)] that(1) reserve(8) show ?thesis by simp
  qed
  then show ?thesis unfolding reserve(1) by (intro step_keep [OF i reserve(2)]) simp_all
next
  case (release j b fr)
  have "th_inv (go j Idle (c\<lparr>th_lib := free_release (bptr b) ((th_lib c)\<lparr>frame := fr\<rparr>)\<rparr>))"
    by (rule step_keep [OF i release(2)]) (simp_all add: th_heap_release)
  then show ?thesis unfolding release(1) .
next
  case (store b m)
  with i th_heap_write [of "th_lib c" "th_live c" "owned c" b m] show ?thesis
    by (simp add: th_inv_def owned_def in_hand_def)
qed (use i in \<open>auto intro: step_take step_drop step_keep step_link step_unlink step_check\<close>)

interpretation threads: state_machine th_step th_inv
  by unfold_locales (rule th_inv_step)

section \<open>Where the threads start and how far they can go\<close>

text \<open>\<open>n\<close> threads outside the tracker, with every live block on a list.\<close>

definition th_start :: "lib \<Rightarrow> blk list \<Rightarrow> nat \<Rightarrow> conf" where
  "th_start s B n = \<lparr>th_lib = s, th_lock = None, th_pcs = replicate n Idle, th_live = B\<rparr>"

definition tracks :: "lib \<Rightarrow> blk list \<Rightarrow> bool" where
  "tracks s B \<longleftrightarrow> enable s \<noteq> 0 \<and> tracking s \<noteq> 0 \<and> unat (alloctag s) < MAXTAGS \<and> (\<forall>b\<in>set B. btag b \<noteq> None)"

lemma th_start_inv:
  assumes "heap_inv s B" and "tracks s B"
  shows "th_inv (th_start s B n)"
  using assms
  by (auto simp: th_inv_def th_start_def th_heap_def heap_inv_def tracks_def owned_def in_hand_def th_lock_ok_def
      concat_replicate_trivial)

lemma held_by:
  assumes "th_inv c" and "at_pc i p c" and "critical p"
  shows "th_lock c = Some i"
  using assms by (auto simp: th_inv_def th_lock_ok_def at_pc_def)

lemma at_pc_owned: "at_pc i p c \<Longrightarrow> set (own p) \<subseteq> set (owned c)"
  by (auto simp: at_pc_def owned_def intro!: bexI [of _ "th_pcs c ! i"])

lemma at_pc_busy: "at_pc i p c \<Longrightarrow> set (busy p) \<subseteq> set (in_hand c)"
  by (auto simp: at_pc_def in_hand_def intro!: bexI [of _ "th_pcs c ! i"])

text \<open>The pieces that could fail, and that no thread lets fail.\<close>

lemma link_enabled:
  assumes "th_inv c" and p: "at_pc i (Linking b) c"
  shows "\<exists>s1. alloc_link (bptr b) (bsize b) (th_lib c) = Inr s1"
proof -
  obtain M where "mset (owned c) = mset (b # M)" using go_owned(1) [OF p] by auto
  with assms(1) have "th_heap (th_lib c) (th_live c) (b # M)"
    using th_heap_mset [of _ _ "owned c" "b # M"] by (simp add: th_inv_def)
  then show ?thesis using th_heap_link by blast
qed

lemma unlink_enabled:
  assumes i: "th_inv c" and p: "at_pc i (Unlinking b) c"
  shows "\<exists>s1. free_unlist (bptr b) (th_lib c) = Inr s1"
proof -
  have "b \<in> set (th_live c)" using i at_pc_busy [OF p] by (auto simp: th_inv_def)
  with i th_heap_unlink show ?thesis unfolding th_inv_def by blast
qed

lemma check_enabled:
  assumes "th_inv c" and "b \<in> set (th_live c)"
  shows "free_check (bptr b) (th_lib c) = Inr ()"
  using assms verify_ok by (simp add: free_check_def th_inv_def th_heap_def mem_ok_def)

text \<open>Progress: as long as a thread is in a call, some thread in a call can take its next step.\<close>

definition left :: "conf \<Rightarrow> nat" where
  "left c = sum_list (map work (th_pcs c))"

lemma go_left:
  assumes "at_pc i p c" and "work p = Suc (work q)" and "th_pcs c' = th_pcs c"
  shows "left c = Suc (left (go i q c'))"
proof -
  obtain xs ys where "th_pcs c = xs @ p # ys" "i = length xs" using assms(1) by (rule at_pcE)
  with assms(2,3) show ?thesis by (simp add: left_def)
qed

lemma go_progress:
  assumes "at_pc i p c" and "work p = Suc (work q)" and "th_pcs d = th_pcs c" and "th_step c (go i q d)"
  shows "\<exists>c'. th_step c c' \<and> left c = Suc (left c')"
  using go_left [OF assms(1-3)] assms(4) by blast

lemma progress:
  assumes i: "th_inv c" and "left c \<noteq> 0"
  shows "\<exists>c'. th_step c c' \<and> left c = Suc (left c')"
proof (cases "th_lock c")
  case (Some k)
  then have k: "at_pc k (th_pcs c ! k) c" "critical (th_pcs c ! k)"
    using i by (auto simp: th_inv_def th_lock_ok_def at_pc_def)
  show ?thesis
  proof (cases "th_pcs c ! k")
    case (Linking b)
    with k have p: "at_pc k (Linking b) c" by simp
    from link_enabled [OF i p] obtain s1 where s: "alloc_link (bptr b) (bsize b) (th_lib c) = Inr s1" by blast
    show ?thesis by (rule go_progress [OF p _ _ th_step.link [OF p s]]) simp_all
  next
    case (Linked b)
    with k have p: "at_pc k (Linked b) c" by simp
    show ?thesis by (rule go_progress [OF p _ _ th_step.unlock_alloc [OF p]]) simp_all
  next
    case (Unlinking b)
    with k have p: "at_pc k (Unlinking b) c" by simp
    from unlink_enabled [OF i p] obtain s1 where s: "free_unlist (bptr b) (th_lib c) = Inr s1" by blast
    show ?thesis by (rule go_progress [OF p _ _ th_step.unlink [OF p s]]) simp_all
  next
    case (Unlinked b)
    with k have p: "at_pc k (Unlinked b) c" by simp
    show ?thesis by (rule go_progress [OF p _ _ th_step.unlock_free [OF p]]) simp_all
  qed (use k(2) in simp_all)
next
  case None
  from assms(2) obtain p where "p \<in> set (th_pcs c)" and w: "work p \<noteq> 0" by (auto simp: left_def)
  then obtain k where k: "at_pc k p c" by (auto simp: at_pc_def in_set_conv_nth)
  have "\<not> critical p" using held_by [OF i k] None by auto
  show ?thesis
  proof (cases p)
    case (Headed b)
    with k have p: "at_pc k (Headed b) c" by simp
    show ?thesis by (rule go_progress [OF p _ _ th_step.lock_alloc [OF p None]]) simp_all
  next
    case (Checked b)
    with k have p: "at_pc k (Checked b) c" by simp
    show ?thesis by (rule go_progress [OF p _ _ th_step.lock_free [OF p None]]) simp_all
  next
    case (Releasing b)
    with k have p: "at_pc k (Releasing b) c" by simp
    show ?thesis by (rule go_progress [OF p _ _ th_step.release [OF p]]) simp_all
  qed (use w \<open>\<not> critical p\<close> in simp_all)
qed

lemma finish:
  "th_inv c \<Longrightarrow> \<exists>c'. (th_step ^^ left c) c c' \<and> left c' = 0"
proof (induction "left c" arbitrary: c)
  case 0
  then show ?case by (intro exI [of _ c]) simp
next
  case (Suc k)
  from progress [OF Suc.prems] Suc.hyps(2) obtain d where d: "th_step c d" "left d = k" by fastforce
  with Suc.hyps(1) [of d] th_inv_step [OF Suc.prems] obtain c' where "(th_step ^^ k) d c'" "left c' = 0" by auto
  with d(1) Suc.hyps(2) show ?case by (metis relpowp_Suc_I2)
qed

lemma left_Idle: "left c = 0 \<longleftrightarrow> (\<forall>p\<in>set (th_pcs c). p = Idle)"
proof -
  have "work p = 0 \<longleftrightarrow> p = Idle" for p by (cases p) simp_all
  then show ?thesis by (simp add: left_def)
qed

section \<open>A process with two threads\<close>

text \<open>Thread 0 gives the block of \<open>lib1\<close> back, up to the unlinking; thread 1 may then do as it likes.\<close>

lemma lib1_tracks: "tracks lib1 [blk0]"
  by (simp add: tracks_def lib1_def alloc_post_def MAXTAGS_def blk0_def new_blk_def)

definition proc1 :: conf where
  "proc1 = th_start lib1 [blk0] 2"

lemma proc1_inv: "th_inv proc1"
  unfolding proc1_def by (rule th_start_inv [OF lib1_inv lib1_tracks])

definition proc2 :: conf where
  "proc2 = go 0 (Unlinking blk0) ((go 0 (Checked blk0) proc1)\<lparr>th_lock := Some 0\<rparr>)"

lemma proc2_run: "th_step\<^sup>*\<^sup>* proc1 proc2"
proof -
  have "th_step proc1 (go 0 (Checked blk0) proc1)"
    by (rule check) (use check_enabled [OF proc1_inv, of blk0] in
      \<open>simp_all add: proc1_def th_start_def at_pc_def in_hand_def numeral_2_eq_2\<close>)
  moreover have "th_step (go 0 (Checked blk0) proc1) proc2"
    unfolding proc2_def by (rule lock_free) (simp_all add: proc1_def th_start_def at_pc_def)
  ultimately show ?thesis by (meson r_into_rtranclp rtranclp.rtrancl_into_rtrancl)
qed

lemma proc2_simps [simp]:
  "th_lib proc2 = lib1" "th_lock proc2 = Some 0" "th_live proc2 = [blk0]"
  "th_pcs proc2 = [Unlinking blk0, Idle]"
  by (simp_all add: proc2_def proc1_def th_start_def go_def numeral_2_eq_2)

text \<open>An overflow of the block behind, in the list, the one being freed: found with the lock held.\<close>

lemma neighbour_overflow:
  assumes i: "heap_inv s B" and v: "validate s \<noteq> 0" and t: "unat t < MAXTAGS"
    and tg: "tagged t B = as @ b # d # ds"
    and m: "touches (memory s) m (bptr d + bsize d) 4" "ld32 m (bptr d + bsize d) \<noteq> MAGIC1"
  shows "free_check (bptr b) (s\<lparr>memory := m\<rparr>) = Inr ()"
    and "free_unlist (bptr b) (s\<lparr>memory := m\<rparr>) = Inl CoreOverflow"
proof -
  have bd: "b \<in> set B" "d \<in> set B" "btag b = Some t" "btag d = Some t"
    using arg_cong [OF tg, of set] by (auto simp: tagged_def)
  have l: "layout_ok (alist_at s) B" and mo: "mem_ok (alist_at s) (memory s) B" using i by (simp_all add: heap_inv_def)
  have "dlist (memory s) 0 (alist_list (alist_at s) t) (map blk_tp (tagged t B))"
    using mo t by (simp add: mem_ok_def)
  then have dl: "dlist (memory s) 0 (alist_list (alist_at s) t) (map blk_tp as @ blk_tp b # blk_tp d # map blk_tp ds)"
    by (simp add: tg)
  have "distinct (tagged t B)" using l by (simp add: layout_ok_def tagged_def)
  with tg have ne: "d \<noteq> b" by auto
  note vd = layout_okD(2) [OF l bd(2)] and vb = layout_okD(2) [OF l bd(1)]
  have wd: "within (bptr d + bsize d) 4 (blk_base d) (blk_len d)"
    by (rule blk_cell_within [OF vd]) (simp add: blk_cells_def ok_cells_def)
  have "within (blk_base b) (blk_len b) (blk_base b) (blk_len b)" by (simp add: within_def)
  then have "apart (bptr d + bsize d) 4 (blk_base b) (blk_len b)"
    by (rule apart_within [OF layout_okD(3) [OF l bd(2,1) ne] wd]) simp_all
  from touches_blk_ok [OF m(1) this vb] have "blk_ok m b" using mo bd(1) by (simp add: mem_ok_def)
  then show "free_check (bptr b) (s\<lparr>memory := m\<rparr>) = Inr ()" by (simp add: free_check_def verify_ok)
  note wd
  moreover have "within (le_next 0 (blk_tp b)) 4 (blk_base b) (blk_len b)"
    by (rule blk_cell_within [OF vb]) (simp add: blk_cells_def link_cells_def bd)
  ultimately have "apart (bptr d + bsize d) 4 (le_next 0 (blk_tp b)) 4"
    by (intro apart_within [OF layout_okD(3) [OF l bd(2,1) ne]]) simp_all
  from touches_ld32 [OF m(1) this] have "LIST_NEXT m (blk_tp b) 0 = blk_tp d"
    using LIST_NEXT_dlist [OF dl] by (simp add: LIST_NEXT_def)
  moreover have "blk_tp d \<noteq> 0" using vd bd(4) by (simp add: blk_valid_def)
  moreover have "verify (s\<lparr>memory := m\<rparr>) m (bptr d) = Inl CoreOverflow"
    by (rule verify_overflow [OF _ vd _ m]) (use mo bd v in \<open>simp_all add: mem_ok_def\<close>)
  ultimately show "free_unlist (bptr b) (s\<lparr>memory := m\<rparr>) = Inl CoreOverflow"
    using v by (simp add: free_unlist_def verify_neighbours_def blk_tp_def [symmetric] Let_def)
qed

text \<open>A thread that leaves the critical section by a jump: nobody gets in any more.\<close>

lemma lock_lost:
  assumes "th_step\<^sup>*\<^sup>* (go i Idle c) c'" and "th_lock_ok (th_lock c) (th_pcs c)"
    and "at_pc i (Unlinking b) c"
  shows "th_lock c' = Some i \<and> th_live c' = th_live c \<and>
    (\<forall>p\<in>set (th_pcs c'). \<not> critical p)"
  using assms(1)
proof (induction rule: rtranclp_induct)
  case base
  have i: "i < length (th_pcs c)" "critical (th_pcs c ! i)" using assms(3) by (simp_all add: at_pc_def)
  with assms(2) have l: "th_lock c = Some i" by (simp add: th_lock_ok_def)
  with lock_drop [OF assms(2) i, of Idle] have "th_lock_ok None ((th_pcs c)[i := Idle])" by simp
  then show ?case using l by (auto simp: th_lock_ok_def set_conv_nth)
next
  case (step x y)
  have quiet: "\<not> critical p" if "at_pc j p x" for j p using step.IH that nth_mem [of j "th_pcs x"] by (auto simp: at_pc_def)
  from step.hyps(2) step.IH show ?case
    by cases (auto dest: quiet set_update_subset_insert [THEN subsetD])
qed

definition blk1 :: blk where
  "blk1 = new_blk lib1 4 20 0x20000"

definition lib2 :: lib where
  "lib2 = alloc_post lib1 4 20 0x20000 False []"

lemma lib2_inv: "heap_inv lib2 [blk1, blk0]"
  unfolding lib2_def blk1_def
  by (rule alloc_post_inv [OF lib1_inv])
    (use lib1_fresh in \<open>simp_all add: good_answer_def good_request_def lib1_def alloc_post_def small_request4 MAXTAGS_def\<close>)

text \<open>The older block has been overrun; thread 0 is giving the newer one back.\<close>

definition proc3 :: conf where
  "proc3 = \<lparr>th_lib = lib2\<lparr>memory := st32 (memory lib2) (bptr blk0 + bsize blk0) 0x41414141\<rparr>,
     th_lock = Some 0, th_pcs = [Unlinking blk1, Idle], th_live = [blk1, blk0]\<rparr>"

lemma proc3_tagged: "tagged 3 [blk1, blk0] = [] @ blk1 # blk0 # []"
  by (simp add: tagged_def blk1_def blk0_def new_blk_def lib1_def alloc_post_def)

lemma proc3_lock: "th_lock_ok (th_lock proc3) (th_pcs proc3)"
  by (auto simp: proc3_def th_lock_ok_def less_Suc_eq)

section \<open>Properties\<close>

text \<open>
  C3. Several threads: however the pieces of the \<^verbatim>\<open>malloc\<close> and \<^verbatim>\<open>free\<close> calls of any number of threads
  and their stores interleave, at most one thread is between \<^verbatim>\<open>LOCK\<close> and \<^verbatim>\<open>UNLOCK\<close>, and it is the
  holder; the list of every tag links exactly the live blocks of the tag, each once, and its total
  and \<^verbatim>\<open>curalloc\<close> are the sums of the sizes; no block a thread has to itself touches a live one; and
  none of the checks of \<^verbatim>\<open>free\<close>, in or out of the lock, raises a false alarm.
\<close>

theorem threads_safe:
  assumes "th_step\<^sup>*\<^sup>* (th_start s B n) c" and "heap_inv s B" and "tracks s B"
  shows "(\<forall>i<length (th_pcs c). critical (th_pcs c ! i) \<longrightarrow> th_lock c = Some i) \<and>
    (\<forall>t. unat t < MAXTAGS \<longrightarrow>
       LIST_FOREACH (memory (th_lib c)) (alist_list (alist_at (th_lib c)) t) 0 = Some (map blk_tp (tagged t (th_live c))) \<and>
       ld32 (memory (th_lib c)) (alist_total (alist_at (th_lib c)) t) = sum_list (map bsize (tagged t (th_live c)))) \<and>
    curalloc (th_lib c) = sum_list (map bsize (th_live c)) \<and>
    (\<forall>b\<in>set (owned c). \<forall>d\<in>set (th_live c). apart (blk_base b) (blk_len b) (blk_base d) (blk_len d)) \<and>
    (\<forall>b\<in>set (th_live c). free_check (bptr b) (th_lib c) = Inr ()) \<and>
    (\<forall>i b. at_pc i (Unlinking b) c \<longrightarrow> (\<exists>t. free_unlist (bptr b) (th_lib c) = Inr t)) \<and>
    (\<forall>i b. at_pc i (Linking b) c \<longrightarrow> (\<exists>t. alloc_link (bptr b) (bsize b) (th_lib c) = Inr t))"
proof -
  have i: "th_inv c" by (rule threads.inv_run [OF assms(1) th_start_inv [OF assms(2,3)]])
  have h: "th_heap (th_lib c) (th_live c) (owned c)" using i by (simp add: th_inv_def)
  have "critical (th_pcs c ! k) \<longrightarrow> th_lock c = Some k" if "k < length (th_pcs c)" for k
    using held_by [OF i, of k] that by (simp add: at_pc_def)
  moreover have "apart (blk_base b) (blk_len b) (blk_base d) (blk_len d)"
    if "b \<in> set (owned c)" "d \<in> set (th_live c)" for b d
  proof -
    have "b \<noteq> d" using h that by (auto simp: th_heap_def layout_ok_def)
    with h that show ?thesis by (simp add: th_heap_def layout_ok_def)
  qed
  ultimately show ?thesis
    using h check_enabled [OF i] unlink_enabled [OF i] link_enabled [OF i]
    by (auto simp: th_heap_def mem_ok_def LIST_FOREACH_dlist)
qed

theorem threads_safe_witness:
  "LIST_FOREACH (memory (th_lib proc2)) (alist_list (alist_at lib1) 3) 0 = Some [blk_tp blk0]"
  using threads_safe [OF proc2_run [unfolded proc1_def] lib1_inv lib1_tracks]
  by (simp add: MAXTAGS_def tagged_def blk0_def new_blk_def lib1_def alloc_post_def)

text \<open>
  C6. No deadlock: from every state the threads reach, the calls in progress can all be completed,
  without a new call, in as many steps as they have pieces left; the lock is free then, every
  thread outside the tracker, and no block is in between.
\<close>

theorem threads_can_finish:
  assumes "th_step\<^sup>*\<^sup>* (th_start s B n) c" and "heap_inv s B" and "tracks s B"
  shows "\<exists>c'. (th_step ^^ left c) c c' \<and> (\<forall>p\<in>set (th_pcs c'). p = Idle) \<and> th_lock c' = None \<and>
    heap_inv (th_lib c') (th_live c') \<and> owned c' = []"
proof -
  have i: "th_inv c" by (rule threads.inv_run [OF assms(1) th_start_inv [OF assms(2,3)]])
  then obtain c' where c': "(th_step ^^ left c) c c'" "left c' = 0" using finish by blast
  from c'(1) have i': "th_inv c'" using threads.inv_run [OF relpowp_imp_rtranclp i] by blast
  have idle: "\<forall>p\<in>set (th_pcs c'). p = Idle" using c'(2) by (simp add: left_Idle)
  have "own p = []" if "p \<in> set (th_pcs c')" for p using bspec [OF idle that] by simp
  then have o: "owned c' = []" by (simp add: owned_def)
  have "th_lock c' \<noteq> Some k" for k
  proof
    assume "th_lock c' = Some k"
    then have k: "k < length (th_pcs c')" "critical (th_pcs c' ! k)" using i' by (auto simp: th_inv_def th_lock_ok_def)
    with bspec [OF idle nth_mem [OF k(1)]] show False by simp
  qed
  then have "th_lock c' = None" by auto
  moreover have "heap_inv (th_lib c') (th_live c')"
    using i' o by (simp add: th_inv_def th_heap_def heap_inv_def)
  ultimately show ?thesis using c'(1) idle o by blast
qed

theorem threads_can_finish_witness: "\<exists>c'. (th_step ^^ 3) proc2 c' \<and> th_lock c' = None"
  using threads_can_finish [OF proc2_run [unfolded proc1_def] lib1_inv lib1_tracks]
  by (auto simp: left_def)

text \<open>
  C10. An overrun found with the lock held: \<^verbatim>\<open>free\<close> checks the block behind its own, in the list, inside
  the lock. When that block was overrun, the check of the block itself passes, the thread takes the
  lock and the core dump comes there. A program that catches the signal and jumps out of it, as the
  test program does, leaves the lock taken: from then on no thread is ever in the critical section, no
  block joins or leaves a list, and every tracked \<^verbatim>\<open>malloc\<close> and \<^verbatim>\<open>free\<close> waits for ever.
\<close>

theorem neighbour_overflow_keeps_lock:
  assumes "heap_inv s B" and "validate s \<noteq> 0" and "unat t < MAXTAGS" and "tagged t B = as @ b # d # ds"
    and "touches (memory s) m (bptr d + bsize d) 4" and "ld32 m (bptr d + bsize d) \<noteq> MAGIC1"
    and "th_lib c = s\<lparr>memory := m\<rparr>" and "th_lock_ok (th_lock c) (th_pcs c)" and "at_pc i (Unlinking b) c"
  shows "free_check (bptr b) (th_lib c) = Inr () \<and> free_unlist (bptr b) (th_lib c) = Inl CoreOverflow \<and>
    (\<forall>c'. th_step\<^sup>*\<^sup>* (go i Idle c) c' \<longrightarrow>
       th_lock c' = Some i \<and> th_live c' = th_live c \<and> (\<forall>p\<in>set (th_pcs c'). \<not> critical p))"
  using neighbour_overflow [OF assms(1-6)] lock_lost [OF _ assms(8,9)] by (simp add: assms(7))

theorem neighbour_overflow_keeps_lock_witness:
  "free_unlist (bptr blk1) (th_lib proc3) = Inl CoreOverflow \<and>
    (\<nexists>c'. th_step\<^sup>*\<^sup>* (go 0 Idle proc3) c' \<and> th_lock c' \<noteq> Some 0)"
proof -
  let ?m = "st32 (memory lib2) (bptr blk0 + bsize blk0) 0x41414141"
  have v: "validate lib2 \<noteq> 0" and t: "unat (3 :: u32) < MAXTAGS"
    by (simp_all add: lib2_def alloc_post_def MAXTAGS_def)
  have w: "ld32 ?m (bptr blk0 + bsize blk0) \<noteq> MAGIC1" by (simp add: MAGIC1_def)
  have c: "th_lib proc3 = lib2\<lparr>memory := ?m\<rparr>" and p: "at_pc 0 (Unlinking blk1) proc3"
    by (simp_all add: proc3_def at_pc_def)
  from neighbour_overflow_keeps_lock [OF lib2_inv v t proc3_tagged touches_st32 w c proc3_lock p]
  show ?thesis by blast
qed

text \<open>
  C38. Tracking switched on in the middle of an allocation: \<^verbatim>\<open>tp_alloc\<close> reads \<^verbatim>\<open>tracking\<close> for the size
  of the overhead and again when it writes the header. As long as the two reads agree, nothing in
  front of the raw block changes; when the thread that serves the manager switches tracking on in
  between, the header of 80 bytes is put where room was made for 16, and the tag, the list linkage
  and the traces are stored into the memory in front of the raw block, which is not the tracker's.
\<close>

theorem tracking_race_underruns:
  assumes "tracking s = 0" and "alloc_reserve n 0 s = (p, ph, s1)" and "80 \<le> unat p" and "unat p < 2147483648"
    and "unat (trxAlign n) < 2147483000" and "v \<noteq> 0"
  shows "unat (ph - TRXBLK) + 60 \<le> unat p \<and> unat (ph - TRXBLK + o_tag) + 4 \<le> unat p \<and>
    ld32 (memory (alloc_header p ph (trxAlign n) zero (s1\<lparr>tracking := v\<rparr>))) (ph - TRXBLK + o_tag) = alloctag s1 \<and>
    (\<forall>a. unat a < unat p \<longrightarrow> memory (alloc_header p ph (trxAlign n) False s1) a = memory s1 a)"
proof -
  let ?sz = "trxAlign n"
  have ph: "ph = tp_ph p 16 4" and s1: "tracking s1 = 0"
    using assms(1,2) by (auto simp: alloc_reserve_def tp_overhead_cases real_alloc_def Let_def split: prod.splits list.splits)
  have b: "16 < unat (ph - p)" "unat (ph - p) \<le> 20" "unat ph = unat p + unat (ph - p)"
    using tp_ph_bounds [of 4 2 p 16] assms(4) by (simp_all add: ph)
  have t: "unat TRXBLK = 80" by (simp add: TRXBLK_def)
  have "TRXBLK \<le> ph" using t b assms(3) unfolding word_le_nat_alt by linarith
  then have "unat (ph - TRXBLK) = unat ph - 80" using t by (simp only: unat_sub)
  with b assms(3) have u: "unat (ph - TRXBLK) + 60 \<le> unat p" by linarith
  have "unat (ph - TRXBLK + o_tag) = unat (ph - TRXBLK) + unat o_tag"
    by (rule unat_plus_le) (use u assms(4) in \<open>simp add: o_tag_def\<close>)
  moreover have "unat o_tag = 8" by (simp add: o_tag_def)
  ultimately have "unat (ph - TRXBLK + o_tag) + 4 \<le> unat p" using u by linarith
  moreover have "ld32 (memory (alloc_header p ph ?sz zero (s1\<lparr>tracking := v\<rparr>))) (ph - TRXBLK + o_tag) = alloctag s1"
    using header_tag [of ?sz "s1\<lparr>tracking := v\<rparr>" p ph zero] assms(5,6) by (simp add: alloc_header_def)
  moreover have "memory (alloc_header p ph ?sz False s1) a = memory s1 a" if a: "unat a < unat p" for a
  proof -
    have w: "touches (memory s1) (write_untracked s1 p ph ?sz False) (ph - 12) (unat ?sz + 16)"
      by (rule write_untracked_touches) (use assms(5) in simp)
    have "12 \<le> ph" using b by (simp add: word_le_nat_alt)
    then have e: "unat (ph - 12) = unat ph - 12" by (simp add: unat_sub)
    have "a \<noteq> ph - 12" using e b a by auto
    then have "unat (a - (ph - 12)) + unat ((ph - 12) - a) = 4294967296" by (rule unat_diff_add)
    moreover have "unat ((ph - 12) - a) = unat (ph - 12) - unat a"
      by (rule unat_sub) (use e a b in \<open>simp add: word_le_nat_alt\<close>)
    ultimately have "unat ?sz + 16 \<le> unat (a - (ph - 12))" using e b assms(4,5) by linarith
    then show ?thesis using w s1 by (simp add: touches_def alloc_header_def)
  qed
  ultimately show ?thesis using u by blast
qed

theorem tracking_race_underruns_witness:
  "\<exists>ph s1. alloc_reserve 10 0 (lib0\<lparr>tracking := 0\<rparr>) = (0x10000, ph, s1) \<and> unat (ph - TRXBLK) + 60 \<le> 0x10000 \<and>
     ld32 (memory (alloc_header 0x10000 ph 12 False (s1\<lparr>tracking := 1\<rparr>))) (ph - TRXBLK + o_tag) = 3"
proof -
  let ?s1 = "lib0\<lparr>tracking := 0, calls := [RMalloc (tp_size 4 16 (trxAlign 10))], answers := [0x20000]\<rparr>"
  have r: "alloc_reserve 10 0 (lib0\<lparr>tracking := 0\<rparr>) = (0x10000, tp_ph 0x10000 16 4, ?s1)"
    by (simp add: alloc_reserve_def real_alloc_def tp_overhead_cases Let_def lib0_def)
  have "trxAlign 10 = 12" by (simp add: trxAlign_def)
  with tracking_race_underruns [OF _ r, of 1 False] r show ?thesis by simp
qed

end
