(* ===== verification/Spec2Isabelle.thy ===== *)
theory Spec2Isabelle imports Trx_RlEdit Trx_MgrConf Trx_MgrOps Trx_MgrErr Trx_Protocol Trx_Snap Trx_Debug Trx_Threads
begin

text \<open>
  A verification development for \<^verbatim>\<open>trx\<close>, the memory and descriptor tracker of
  \<^verbatim>\<open>src/prof/track\<close>, the C program this repository holds.

  The program. \<^verbatim>\<open>trxlib.c\<close> is preloaded into an application and overloads the allocator and the
  calls that make descriptors; every block gets a header with its call stack, a trailer, and a place
  in the list of its tag. \<^verbatim>\<open>trxclient.c\<close> connects the application to a manager over a local
  socket, with the packets and acknowledgements of \<^verbatim>\<open>trxcommon.c\<close>, takes commands from it (switches,
  tags, reports) and answers; a report is written into a shared memory segment. The manager is one
  process with a \<^verbatim>\<open>select\<close> loop: \<^verbatim>\<open>trxmgr.c\<close> reads the configuration and holds the loop,
  \<^verbatim>\<open>trxmgrClient.c\<close> keeps a table of applications and prints their reports through the tree of
  \<^verbatim>\<open>trxTree.c\<close>, \<^verbatim>\<open>trxmgrCli.c\<close> keeps a table of telnet consoles and their commands, with the
  line editor of \<^verbatim>\<open>trxmgrRl.c\<close> and the history of \<^verbatim>\<open>trxmgrHist.c\<close>. \<^verbatim>\<open>trxtest.c\<close> exercises the library.

  The model. It is for the 32-bit ABI the sources are written for: \<^verbatim>\<open>int\<close>, \<^verbatim>\<open>size_t\<close> and pointers
  are 32 bits wide and arithmetic on addresses, sizes and tags is on words. A call that can go wrong
  returns a sum: on the left the fault it ends in (one of the three diagnosed core dumps, an access
  out of bounds, a dead pointer, a value that was never set, an exit, or a wait for ever: \<^verbatim>\<open>read\<close> on a
  blocking socket whose peer is connected and silent), on the right its result with the new state. The kernel and the libraries answer from scripts in the state: what \<^verbatim>\<open>read\<close>,
  \<^verbatim>\<open>write\<close>, \<^verbatim>\<open>select\<close>, \<^verbatim>\<open>accept\<close>, the real allocator and the shared memory calls return is data of
  the state, and what the program did with them is recorded there. A theorem that needs a contract of
  them (raw blocks that do not overlap blocks in use, an answer that arrives) has it as a hypothesis.

  The theories.

  \<^item> \<open>Trx_Prelude\<close>: words, faults and their sequencing, C strings, the locale of a state machine.
  \<open>Trx_Mem\<close>: memory as bytes at 32-bit addresses, regions, what a computation touches, the locale of
  a fixed-size encoding. \<open>Trx_Os\<close>: the channels and scripts of the kernel. \<open>Trx_Printf\<close>: the
  conversions of \<^verbatim>\<open>printf\<close> the sources use.
  \<^item> \<open>Trx_List\<close> (\<^verbatim>\<open>trxlist.h\<close>): the list macros on memory, refined by an abstract list.
  \<^item> \<open>Trx_Common\<close> (\<^verbatim>\<open>trxcommon.c\<close>, \<^verbatim>\<open>trx.h\<close>): packets, sending and receiving, the flag table.
  \<open>Trx_Debug\<close>: the logging routine of the same file.
  \<^item> \<open>Trx_State\<close>, \<open>Trx_Fd\<close>, \<open>Trx_Init\<close>, \<open>Trx_Alloc\<close> (\<^verbatim>\<open>trxlib.c\<close>): the layout of the header, the state
  of the library as a record, back traces and descriptors, initialisation, the allocator. \<open>Trx_Report\<close>:
  the report segment.
  \<^item> \<open>Trx_Heap\<close>, \<open>Trx_HeapOps\<close>, \<open>Trx_Tracker\<close>: the abstract heap, a list of live blocks related to the
  memory by \<open>heap_inv\<close>; what each operation does to it; the tracker as a state machine and its
  guarantees. \<open>Trx_Stack\<close>: what the calls leave alone outside the heap, the stack of the process above
  all, and with it the pattern a tracked block is poisoned with. \<open>Trx_Test\<close> (\<^verbatim>\<open>trxtest.c\<close>): the program's
  own tests, run on the model from \<^verbatim>\<open>main\<close> on, the threads of its load test interleaved call by call by a
  schedule that is an argument. \<open>Trx_Threads\<close>: the calls cut at \<^verbatim>\<open>LOCK\<close> and \<^verbatim>\<open>UNLOCK\<close>, interleaved over any number of threads.
  \<^item> \<open>Trx_Client\<close> (\<^verbatim>\<open>trxclient.c\<close>): the commands of the manager and the life of the client.
  \<^item> \<open>Trx_Tree\<close> (\<^verbatim>\<open>trxTree.c\<close>): a report as one line per call path, with the bytes below it.
  \<^item> \<open>Trx_Hist\<close> (\<^verbatim>\<open>trxmgrHist.c\<close>), \<open>Trx_Rl\<close> and \<open>Trx_RlEdit\<close> (\<^verbatim>\<open>trxmgrRl.c\<close>): the history as a bounded
  log, the editor as operations on the text before and after the cursor.
  \<^item> \<open>Trx_MgrState\<close>, \<open>Trx_MgrClient\<close>, \<open>Trx_Cli\<close>, \<open>Trx_Mgr\<close>: the state of the manager as one record, then
  \<^verbatim>\<open>trxmgrClient.c\<close>, \<^verbatim>\<open>trxmgrCli.c\<close> and \<^verbatim>\<open>trxmgr.c\<close> in their order. \<open>Trx_MgrInv\<close>: the invariant of its
  tables, operation by operation, and the manager as a state machine. \<open>Trx_MgrConf\<close>: what a
  configuration file means. \<open>Trx_MgrOps\<close>: prints, input and connections. \<open>Trx_MgrErr\<close>: the
  faults of the client table and a command that never ends. \<open>Trx_Snap\<close>: differences against a snapshot.
  \<^item> \<open>Trx_Protocol\<close>: both programs together, joined by what each writes and the other reads.

  What the theorems show. Of the tracker: whatever the order of calls, writes and changes of
  settings, headers, trailers, lists and totals agree with the live blocks, a live block is released
  without a false alarm, double frees and overruns are diagnosed, \<^verbatim>\<open>realloc\<close> keeps the contents,
  \<^verbatim>\<open>calloc\<close> clears while tracking and does not otherwise, the report segment holds the live blocks of
  the tag, and the test program, run as its author asks under full debug, gets the exceptions it
  provokes and no other. The machine of the tracker leaves out one use, which breaks it: a block of the
  tracker that is freed or resized while the manager has the tracker disabled. Of its threads: in every
  interleaving the lock excludes, the heap stays in order, no check raises a false alarm, and the calls
  in progress can finish, unless a program catches a core dump that comes with the lock held, or tracking is
  switched on in the middle of an allocation. Of the manager: its tables keep
  their shape in every reachable state, a configuration round-trips and is typed, reports have one
  line per call path and the right totals, an unchanged report differs from its snapshot by nothing,
  the history and the editor refine their abstractions and a typed line is delivered. Of the two
  together: the configuration reaches the variables of the tracker, a variable that is set is read
  back, and the start-up exchange ends unless the manager falls silent in the middle of it. The
  properties on errors state where the code goes wrong: overrun buffers, names that are freed twice or
  printed after they were freed, reports that are hidden, an application held in its first call.

  Bounds and fuel. Nothing runs on fuel: loops are structural, over the bytes that are left, or come
  with a measure; the traversal of a linked list in memory may not end, so it is a partial function
  with the result \<open>None\<close>, and the theorems on it prove \<open>Some\<close>. Table sizes are those of the sources:
  100 clients, 10 consoles, 100 configured applications, 255 tags, 1024 descriptors, 1000 lines of
  history. The run of the test program is stated for any schedules of its threads, with an answer of the
  allocator for each step of the schedules and 18 for the tests before them.

  Not modelled. What \<^verbatim>\<open>pthread_create\<close> does inside: it succeeds or fails, the client thread is a step
  function, and the threads of the test program are scripts. The threads of \<open>Trx_Threads\<close> run \<^verbatim>\<open>malloc\<close>, \<^verbatim>\<open>memalign\<close>,
  tracked \<^verbatim>\<open>calloc\<close> and \<^verbatim>\<open>free\<close> with the switches fixed; \<^verbatim>\<open>realloc\<close> is such an allocation, a copy and a
  \<^verbatim>\<open>free\<close>. A piece between two lock operations is one step, since it stores into nothing but its own
  block or what the lock protects. The log messages of the
  components (the routine that writes them is modelled). The layout of the stack: a back trace follows
  whatever frame pointers the memory holds. \<^verbatim>\<open>qsort\<close> is one of the orders it may leave, and the
  theorems on reports hold for every sorted order. The parts that are compiled out, \<^verbatim>\<open>daemon\<close>, and
  the scripts beside the C sources. The rest of the repository is packaging: the headers of a vendored
  JDK, scripts and binaries.
\<close>

end
